(* ===== verification/Prelude.thy ===== *)
theory Prelude
  imports
    Main
    "HOL-Library.Char_ord"
    "HOL-Library.List_Lexorder"
    "HOL-Library.Word"
begin

section \<open>Shared vocabulary of the Cirrocumulus development\<close>

text \<open>
  What every component of the model uses: Rust's \<open>Result\<close> as a sum type with the error on the
  left, the operations of \<open>str\<close> the sources call (a Rust string is its UTF-8 byte list, a HOL
  \<open>string\<close>, ordered bytewise), decimal and hexadecimal numerals as Rust prints and parses
  them, and the interface of a printer with its parser, stated once as a locale.
\<close>

named_theorems text_simps \<open>evaluation rules for the string operations\<close>
named_theorems result_splits \<open>case splits for fallible code\<close>

type_synonym u8 = "8 word"
type_synonym u16 = "16 word"
type_synonym u32 = "32 word"
type_synonym u64 = "64 word"

subsection \<open>Fallible code\<close>

text \<open>\<open>bindr\<close> is the \<open>?\<close> operator: an error is returned at once, a value goes on.\<close>

definition bindr :: "'e + 'a \<Rightarrow> ('a \<Rightarrow> 'e + 'b) \<Rightarrow> 'e + 'b" where
  "bindr r f = (case r of Inl e \<Rightarrow> Inl e | Inr x \<Rightarrow> f x)"

definition ok_or :: "'e \<Rightarrow> 'a option \<Rightarrow> 'e + 'a" where
  "ok_or e x = (case x of None \<Rightarrow> Inl e | Some y \<Rightarrow> Inr y)"

definition check :: "bool \<Rightarrow> 'e \<Rightarrow> 'e + unit" where
  "check b e = (if b then Inr () else Inl e)"

definition map_err :: "('e \<Rightarrow> 'f) \<Rightarrow> 'e + 'a \<Rightarrow> 'f + 'a" where
  "map_err f r = (case r of Inl e \<Rightarrow> Inl (f e) | Inr x \<Rightarrow> Inr x)"

lemma bindr_simps [simp]:
  "bindr (Inl e) f = Inl e"
  "bindr (Inr x) f = f x"
  by (simp_all add: bindr_def)

lemma bindr_eq_Inr [simp]: "bindr r f = Inr y \<longleftrightarrow> (\<exists>x. r = Inr x \<and> f x = Inr y)"
  by (cases r) auto

lemma bindr_eq_Inl: "bindr r f = Inl e \<longleftrightarrow> r = Inl e \<or> (\<exists>x. r = Inr x \<and> f x = Inl e)"
  by (cases r) auto

lemma ok_or_simps [simp]:
  "ok_or e None = Inl e"
  "ok_or e (Some x) = Inr x"
  "ok_or e y = Inr x \<longleftrightarrow> y = Some x"
  by (simp_all add: ok_or_def split: option.splits)

lemma ok_or_eq_Inl [simp]: "ok_or e y = Inl d \<longleftrightarrow> y = None \<and> d = e"
  by (auto simp: ok_or_def split: option.splits)

lemma check_simps [simp]:
  "check b e = Inr u \<longleftrightarrow> b"
  "check b e = Inl d \<longleftrightarrow> \<not> b \<and> d = e"
  by (auto simp: check_def)

lemma map_err_simps [simp]:
  "map_err f (Inl e) = Inl (f e)"
  "map_err f (Inr x) = Inr x"
  "map_err f r = Inr x \<longleftrightarrow> r = Inr x"
  by (auto simp: map_err_def split: sum.splits)

lemmas [result_splits] = sum.splits option.splits if_splits prod.splits

lemma set_map_filter: "set (List.map_filter f xs) = {y. \<exists>x \<in> set xs. f x = Some y}"
  by (force simp: List.map_filter_def)

fun find_map :: "('a \<Rightarrow> 'b option) \<Rightarrow> 'a list \<Rightarrow> 'b option" where
  "find_map f [] = None"
| "find_map f (x # xs) = (case f x of Some y \<Rightarrow> Some y | None \<Rightarrow> find_map f xs)"

lemma find_map_None: "find_map f xs = None \<longleftrightarrow> (\<forall>x \<in> set xs. f x = None)"
  by (induction xs) (auto split: option.splits)

lemma find_map_SomeD: "find_map f xs = Some y \<Longrightarrow> \<exists>x \<in> set xs. f x = Some y"
  by (induction xs) (auto split: option.splits)

subsection \<open>Characters\<close>

definition is_ascii_digit :: "char \<Rightarrow> bool" where
  "is_ascii_digit c \<longleftrightarrow> CHR ''0'' \<le> c \<and> c \<le> CHR ''9''"

definition is_ascii_lowercase :: "char \<Rightarrow> bool" where
  "is_ascii_lowercase c \<longleftrightarrow> CHR ''a'' \<le> c \<and> c \<le> CHR ''z''"

definition is_ascii_uppercase :: "char \<Rightarrow> bool" where
  "is_ascii_uppercase c \<longleftrightarrow> CHR ''A'' \<le> c \<and> c \<le> CHR ''Z''"

definition is_ascii_alphanumeric :: "char \<Rightarrow> bool" where
  "is_ascii_alphanumeric c \<longleftrightarrow> is_ascii_digit c \<or> is_ascii_lowercase c \<or> is_ascii_uppercase c"

definition ascii_lower :: "char \<Rightarrow> char" where
  "ascii_lower c = (if is_ascii_uppercase c then char_of ((of_char c :: nat) + 32) else c)"

definition to_ascii_lowercase :: "string \<Rightarrow> string" where
  "to_ascii_lowercase s = map ascii_lower s"

lemmas char_class_defs =
  is_ascii_digit_def is_ascii_lowercase_def is_ascii_uppercase_def is_ascii_alphanumeric_def

lemma char_le_iff: "(c :: char) \<le> d \<longleftrightarrow> (of_char c :: nat) \<le> of_char d"
  by (simp add: less_eq_char_def)

lemma ascii_lower_not_upper: "\<not> is_ascii_uppercase (ascii_lower c)"
proof (cases "is_ascii_uppercase c")
  case True
  then have "65 \<le> (of_char c :: nat)" and "(of_char c :: nat) \<le> 90"
    by (simp_all add: is_ascii_uppercase_def char_le_iff)
  then show ?thesis
    using True by (simp add: ascii_lower_def is_ascii_uppercase_def char_le_iff)
next
  case False
  then show ?thesis by (simp add: ascii_lower_def)
qed

lemma ascii_lower_id: "\<not> is_ascii_uppercase c \<Longrightarrow> ascii_lower c = c"
  by (simp add: ascii_lower_def)

lemma to_ascii_lowercase_idem [simp]:
  "to_ascii_lowercase (to_ascii_lowercase s) = to_ascii_lowercase s"
  by (simp add: to_ascii_lowercase_def ascii_lower_id ascii_lower_not_upper)

subsection \<open>Splitting, stripping and trimming\<close>

fun split_once :: "char \<Rightarrow> string \<Rightarrow> (string \<times> string) option" where
  "split_once c [] = None"
| "split_once c (x # xs) =
     (if x = c then Some ([], xs) else map_option (\<lambda>(a, b). (x # a, b)) (split_once c xs))"

definition rsplit_once :: "char \<Rightarrow> string \<Rightarrow> (string \<times> string) option" where
  "rsplit_once c s = map_option (\<lambda>(a, b). (rev b, rev a)) (split_once c (rev s))"

fun split_on :: "char \<Rightarrow> string \<Rightarrow> string list" where
  "split_on c [] = [[]]"
| "split_on c (x # xs) =
     (if x = c then [] # split_on c xs
      else (case split_on c xs of [] \<Rightarrow> [[x]] | p # ps \<Rightarrow> (x # p) # ps))"

fun join_with :: "string \<Rightarrow> string list \<Rightarrow> string" where
  "join_with sep [] = []"
| "join_with sep [p] = p"
| "join_with sep (p # q # ps) = p @ sep @ join_with sep (q # ps)"

definition starts_with :: "string \<Rightarrow> string \<Rightarrow> bool" where
  "starts_with p s \<longleftrightarrow> take (length p) s = p"

definition ends_with :: "string \<Rightarrow> string \<Rightarrow> bool" where
  "ends_with p s \<longleftrightarrow> starts_with (rev p) (rev s)"

definition strip_prefix :: "string \<Rightarrow> string \<Rightarrow> string option" where
  "strip_prefix p s = (if starts_with p s then Some (drop (length p) s) else None)"

definition strip_suffix :: "string \<Rightarrow> string \<Rightarrow> string option" where
  "strip_suffix p s = (if ends_with p s then Some (take (length s - length p) s) else None)"

definition trim_start_matches :: "char \<Rightarrow> string \<Rightarrow> string" where
  "trim_start_matches c s = dropWhile (\<lambda>x. x = c) s"

definition trim_end_matches :: "char \<Rightarrow> string \<Rightarrow> string" where
  "trim_end_matches c s = rev (dropWhile (\<lambda>x. x = c) (rev s))"

definition trim_matches :: "char \<Rightarrow> string \<Rightarrow> string" where
  "trim_matches c s = trim_end_matches c (trim_start_matches c s)"

text \<open>\<open>str::lines\<close>: split at newlines, each without a \<open>\r\<close> before its newline; what follows the last newline is a line
  unless it is empty.\<close>

definition lines :: "string \<Rightarrow> string list" where
  "lines s =
     (let parts = split_on (CHR 0x0A) s
      in map (\<lambda>l. case strip_suffix [CHR 0x0D] l of Some l' \<Rightarrow> l' | None \<Rightarrow> l) (butlast parts) @
         (if last parts = [] then [] else [last parts]))"

text \<open>\<open>Path::join\<close>: an absolute second path replaces the first.\<close>

definition path_join :: "string \<Rightarrow> string \<Rightarrow> string" where
  "path_join a b =
     (if starts_with ''/'' b then b
      else if a = [] \<or> ends_with ''/'' a then a @ b
      else a @ ''/'' @ b)"

lemmas text_defs =
  starts_with_def ends_with_def strip_prefix_def strip_suffix_def
  trim_start_matches_def trim_end_matches_def trim_matches_def rsplit_once_def

lemma split_once_append [simp]: "c \<notin> set a \<Longrightarrow> split_once c (a @ c # b) = Some (a, b)"
  by (induction a) auto

lemma split_once_None [simp]: "split_once c s = None \<longleftrightarrow> c \<notin> set s"
  by (induction s) auto

lemma split_once_no_sep [simp]: "c \<notin> set s \<Longrightarrow> split_once c s = None"
  by simp

lemma split_once_SomeD:
  "split_once c s = Some (a, b) \<Longrightarrow> s = a @ c # b \<and> c \<notin> set a"
  by (induction s arbitrary: a) (auto split: if_splits)

lemma split_once_eq_Some: "split_once c s = Some (a, b) \<longleftrightarrow> s = a @ c # b \<and> c \<notin> set a"
  by (auto dest: split_once_SomeD)

lemma rsplit_once_eq_Some: "rsplit_once c s = Some (a, b) \<longleftrightarrow> s = a @ c # b \<and> c \<notin> set b"
proof -
  have "rsplit_once c s = Some (a, b) \<longleftrightarrow> split_once c (rev s) = Some (rev b, rev a)"
    by (auto simp: rsplit_once_def)
  also have "\<dots> \<longleftrightarrow> rev s = rev b @ c # rev a \<and> c \<notin> set b"
    by (simp add: split_once_eq_Some)
  also have "\<dots> \<longleftrightarrow> s = a @ c # b \<and> c \<notin> set b"
    using rev_is_rev_conv[of s "a @ c # b"] by simp
  finally show ?thesis .
qed

lemma rsplit_once_None [simp]: "rsplit_once c s = None \<longleftrightarrow> c \<notin> set s"
  by (simp add: rsplit_once_def)

lemma split_on_not_Nil [simp]: "split_on c s \<noteq> []"
  by (induction s) (auto split: list.splits)

lemma split_on_no_sep [simp]: "c \<notin> set s \<Longrightarrow> split_on c s = [s]"
  by (induction s) auto

lemma split_on_append [simp]: "c \<notin> set a \<Longrightarrow> split_on c (a @ c # b) = a # split_on c b"
  by (induction a) auto

lemma split_on_snoc: "split_on c (s @ [c]) = split_on c s @ [[]]"
  by (induction s) (auto split: list.splits)

lemma split_on_parts: "p \<in> set (split_on c s) \<Longrightarrow> c \<notin> set p"
  by (induction s arbitrary: p) (auto split: if_splits list.splits)

lemma join_with_Cons: "ps \<noteq> [] \<Longrightarrow> join_with sep (p # ps) = p @ sep @ join_with sep ps"
  by (cases ps) auto

lemma join_split_on: "join_with [c] (split_on c s) = s"
proof (induction s)
  case Nil
  then show ?case by simp
next
  case (Cons x xs)
  obtain p ps where ps: "split_on c xs = p # ps"
    by (cases "split_on c xs") auto
  with Cons.IH show ?case by (cases ps) (auto simp: join_with_Cons)
qed

lemma starts_with_append [simp]: "starts_with p (p @ s)"
  by (simp add: starts_with_def)

lemma starts_with_iff: "starts_with p s \<longleftrightarrow> (\<exists>t. s = p @ t)"
proof
  assume "starts_with p s"
  then have "s = p @ drop (length p) s"
    by (metis append_take_drop_id starts_with_def)
  then show "\<exists>t. s = p @ t" ..
next
  assume "\<exists>t. s = p @ t"
  then show "starts_with p s" by (auto simp: starts_with_def)
qed

lemma strip_prefix_append [simp]: "strip_prefix p (p @ s) = Some s"
  by (simp add: strip_prefix_def)

lemma strip_prefix_eq_Some: "strip_prefix p s = Some t \<longleftrightarrow> s = p @ t"
  by (auto simp: strip_prefix_def starts_with_iff)

lemma trim_end_matches_last: "trim_end_matches c s = [] \<or> last (trim_end_matches c s) \<noteq> c"
proof (cases "dropWhile (\<lambda>x. x = c) (rev s)")
  case Nil
  then show ?thesis by (simp add: trim_end_matches_def)
next
  case (Cons y ys)
  then have "y \<noteq> c" by (simp add: dropWhile_eq_Cons_conv)
  with Cons show ?thesis by (simp add: trim_end_matches_def)
qed

lemma trim_end_matches_id: "s = [] \<or> last s \<noteq> c \<Longrightarrow> trim_end_matches c s = s"
  by (cases s rule: rev_cases) (auto simp: trim_end_matches_def)

lemma trim_end_matches_idem [simp]:
  "trim_end_matches c (trim_end_matches c s) = trim_end_matches c s"
  by (rule trim_end_matches_id) (rule trim_end_matches_last)

subsection \<open>Decimal numerals\<close>

definition digit_char :: "nat \<Rightarrow> char" where
  "digit_char d = char_of (48 + d)"

definition digit_val :: "char \<Rightarrow> nat" where
  "digit_val c = of_char c - 48"

fun decimal :: "nat \<Rightarrow> string" where
  "decimal n = (if n < 10 then [digit_char n] else decimal (n div 10) @ [digit_char (n mod 10)])"

declare decimal.simps [simp del]

definition undecimal :: "string \<Rightarrow> nat" where
  "undecimal s = foldl (\<lambda>a c. 10 * a + digit_val c) 0 s"

text \<open>
  Rust's \<open>str::parse\<close> for an unsigned integer takes an optional \<open>+\<close> and then at least one
  digit; a value over the type's maximum is an error.
\<close>

definition parse_uint :: "string \<Rightarrow> nat option" where
  "parse_uint s =
     (let ds = (case s of [] \<Rightarrow> [] | c # cs \<Rightarrow> if c = CHR ''+'' then cs else s)
      in if ds \<noteq> [] \<and> list_all is_ascii_digit ds then Some (undecimal ds) else None)"

definition parse_word :: "string \<Rightarrow> 'a::len word option" where
  "parse_word s =
     (case parse_uint s of
        None \<Rightarrow> None
      | Some n \<Rightarrow> if n < 2 ^ LENGTH('a) then Some (of_nat n) else None)"

definition show_word :: "'a::len word \<Rightarrow> string" where
  "show_word w = decimal (unat w)"

lemma of_char_digit_char [simp]: "d < 10 \<Longrightarrow> (of_char (digit_char d) :: nat) = 48 + d"
  by (simp add: digit_char_def)

lemma is_ascii_digit_digit_char [simp]: "d < 10 \<Longrightarrow> is_ascii_digit (digit_char d)"
  by (simp add: is_ascii_digit_def char_le_iff)

lemma digit_val_digit_char [simp]: "d < 10 \<Longrightarrow> digit_val (digit_char d) = d"
  by (simp add: digit_val_def)

lemma decimal_not_Nil [simp]: "decimal n \<noteq> []"
  by (subst decimal.simps) simp

lemma decimal_digits: "list_all is_ascii_digit (decimal n)"
proof (induction n rule: decimal.induct)
  case (1 n)
  then show ?case by (subst decimal.simps) auto
qed

lemma decimal_set: "c \<in> set (decimal n) \<Longrightarrow> is_ascii_digit c"
  using decimal_digits[of n] by (simp add: list_all_iff)

lemma decimal_notin [simp]: "\<not> is_ascii_digit c \<Longrightarrow> c \<notin> set (decimal n)"
  using decimal_set by blast

lemma undecimal_snoc [simp]: "undecimal (s @ [c]) = 10 * undecimal s + digit_val c"
  by (simp add: undecimal_def)

lemma undecimal_decimal [simp]: "undecimal (decimal n) = n"
proof (induction n rule: decimal.induct)
  case (1 n)
  show ?case
  proof (cases "n < 10")
    case True
    then show ?thesis by (subst decimal.simps) (simp add: undecimal_def)
  next
    case False
    with 1 show ?thesis by (subst decimal.simps) simp
  qed
qed

lemma parse_uint_decimal [simp]: "parse_uint (decimal n) = Some n"
proof -
  obtain c cs where c: "decimal n = c # cs"
    by (cases "decimal n") auto
  then have "is_ascii_digit c"
    using decimal_set[of c n] by simp
  then have "c \<noteq> CHR ''+''"
    by (auto simp: is_ascii_digit_def char_le_iff)
  with c have "(case decimal n of [] \<Rightarrow> [] | c # cs \<Rightarrow> if c = CHR ''+'' then cs else decimal n) = decimal n"
    by simp
  then show ?thesis
    by (simp add: parse_uint_def decimal_digits)
qed

lemma parse_word_show_word [simp]: "parse_word (show_word w) = Some (w :: 'a::len word)"
  by (simp add: parse_word_def show_word_def)

lemma hd_decimal: "10 \<le> n \<Longrightarrow> hd (decimal n) \<noteq> CHR ''0''"
proof (induction n rule: decimal.induct)
  case (1 n)
  have step: "hd (decimal n) = hd (decimal (n div 10))"
    using "1.prems" by (subst decimal.simps) simp
  show ?case
  proof (cases "10 \<le> n div 10")
    case True
    with 1 step show ?thesis by simp
  next
    case False
    then have d: "decimal (n div 10) = [digit_char (n div 10)]"
      by (subst decimal.simps) simp
    have "(of_char (digit_char (n div 10)) :: nat) \<noteq> 48"
      using "1.prems" False by simp
    then show ?thesis using step d by auto
  qed
qed

lemma length_decimal_le3: "n < 1000 \<Longrightarrow> length (decimal n) \<le> 3"
proof -
  assume "n < 1000"
  have one: "m < 10 \<Longrightarrow> length (decimal m) = 1" for m
    by (subst decimal.simps) simp
  have two: "m < 100 \<Longrightarrow> length (decimal m) \<le> 2" for m
    by (subst decimal.simps) (simp add: one)
  have "length (decimal (n div 10)) \<le> 2"
    using \<open>n < 1000\<close> by (intro two) simp
  then show ?thesis
    by (subst decimal.simps) simp
qed

subsection \<open>Hexadecimal numerals\<close>

definition hex_char :: "nat \<Rightarrow> char" where
  "hex_char d = (if d < 10 then char_of (48 + d) else char_of (87 + d))"

definition hex_val :: "char \<Rightarrow> nat option" where
  "hex_val c =
     (if is_ascii_digit c then Some (of_char c - 48)
      else if CHR ''a'' \<le> c \<and> c \<le> CHR ''f'' then Some (of_char c - 87)
      else if CHR ''A'' \<le> c \<and> c \<le> CHR ''F'' then Some (of_char c - 55)
      else None)"

definition hex_byte :: "u8 \<Rightarrow> string" where
  "hex_byte b = [hex_char (unat b div 16), hex_char (unat b mod 16)]"

fun unhex :: "nat \<Rightarrow> string \<Rightarrow> nat option" where
  "unhex a [] = Some a"
| "unhex a (c # cs) = (case hex_val c of None \<Rightarrow> None | Some d \<Rightarrow> unhex (16 * a + d) cs)"

text \<open>\<open>u16::from_str_radix(s, 16)\<close>: an optional \<open>+\<close>, then digits of either case.\<close>

definition parse_hex :: "string \<Rightarrow> nat option" where
  "parse_hex s =
     (let ds = (case s of [] \<Rightarrow> [] | c # cs \<Rightarrow> if c = CHR ''+'' then cs else s)
      in if ds = [] then None else unhex 0 ds)"

lemma of_char_hex_char [simp]:
  "d < 10 \<Longrightarrow> (of_char (hex_char d) :: nat) = 48 + d"
  "10 \<le> d \<Longrightarrow> d < 16 \<Longrightarrow> (of_char (hex_char d) :: nat) = 87 + d"
  by (simp_all add: hex_char_def)

lemma hex_val_hex_char [simp]: "d < 16 \<Longrightarrow> hex_val (hex_char d) = Some d"
  by (cases "d < 10") (simp_all add: hex_val_def is_ascii_digit_def char_le_iff)

lemma hex_char_not_plus [simp]:
  assumes "d < 16"
  shows "hex_char d \<noteq> CHR ''+''"
proof
  assume "hex_char d = CHR ''+''"
  then have "(of_char (hex_char d) :: nat) = 43" by simp
  with \<open>d < 16\<close> show False by (cases "d < 10") simp_all
qed

lemma unat_u8_nibbles [simp]: "unat (b :: u8) div 16 < 16"
proof -
  have "unat b < 2 ^ LENGTH(8)" by (rule unsigned_less)
  then show ?thesis by simp
qed

lemma parse_hex_bytes:
  "parse_hex (hex_byte c @ hex_byte d) = Some (256 * unat c + unat d)"
  by (simp add: parse_hex_def hex_byte_def)

subsection \<open>Blanks and substrings\<close>

text \<open>\<open>char::is_whitespace\<close> on ASCII, \<open>str::trim\<close>, \<open>str::contains\<close> and \<open>str::rsplit_once\<close> with a string.\<close>

definition is_whitespace :: "char \<Rightarrow> bool" where
  "is_whitespace c \<longleftrightarrow> c \<in> {CHR 0x09, CHR 0x0A, CHR 0x0B, CHR 0x0C, CHR 0x0D, CHR '' ''}"

definition trim :: "string \<Rightarrow> string" where
  "trim s = rev (dropWhile is_whitespace (rev (dropWhile is_whitespace s)))"

text \<open>The bytes of a Unicode \<open>White_Space\<close> character at the head of a string, 0 when there is none.\<close>

fun ws_len :: "string \<Rightarrow> nat" where
  "ws_len [] = 0"
| "ws_len (c # cs) =
     (let b = (of_char c :: nat); b1 = (if cs = [] then 0 else of_char (hd cs) :: nat);
          b2 = (if length cs < 2 then 0 else of_char (cs ! 1) :: nat)
      in if 9 \<le> b \<and> b \<le> 13 \<or> b = 32 then 1
         else if b = 0xC2 \<and> (b1 = 0x85 \<or> b1 = 0xA0) then 2
         else if b = 0xE1 \<and> b1 = 0x9A \<and> b2 = 0x80 then 3
         else if b = 0xE2 \<and> b1 = 0x80 \<and> (0x80 \<le> b2 \<and> b2 \<le> 0x8A \<or> b2 = 0xA8 \<or> b2 = 0xA9 \<or> b2 = 0xAF) then 3
         else if b = 0xE2 \<and> b1 = 0x81 \<and> b2 = 0x9F then 3
         else if b = 0xE3 \<and> b1 = 0x80 \<and> b2 = 0x80 then 3
         else 0)"

function (sequential) ws_words :: "string \<Rightarrow> string \<Rightarrow> string list" where
  "ws_words acc [] = (if acc = [] then [] else [rev acc])"
| "ws_words acc (c # cs) =
     (if ws_len (c # cs) = 0 then ws_words (c # acc) cs
      else (if acc = [] then [] else [rev acc]) @ ws_words [] (drop (ws_len (c # cs) - 1) cs))"
  by pat_completeness auto
termination
  by (relation "measure (\<lambda>(_, s). length s)") auto

definition split_whitespace :: "string \<Rightarrow> string list" where
  "split_whitespace s = ws_words [] s"

fun contains :: "string \<Rightarrow> string \<Rightarrow> bool" where
  "contains p [] = (p = [])"
| "contains p (x # xs) = (starts_with p (x # xs) \<or> contains p xs)"

fun rsplit_once_str :: "string \<Rightarrow> string \<Rightarrow> (string \<times> string) option" where
  "rsplit_once_str sep [] = (if sep = [] then Some ([], []) else None)"
| "rsplit_once_str sep (x # xs) =
     (case rsplit_once_str sep xs of
        Some (a, b) \<Rightarrow> Some (x # a, b)
      | None \<Rightarrow> if starts_with sep (x # xs) then Some ([], drop (length sep) (x # xs)) else None)"

definition no_blank :: "string \<Rightarrow> bool" where
  "no_blank s \<longleftrightarrow> list_all (\<lambda>c. \<not> is_whitespace c) s"

lemma trim_no_blank [simp]: "no_blank s \<Longrightarrow> trim s = s"
proof -
  have id: "no_blank s \<Longrightarrow> dropWhile is_whitespace s = s" for s
    by (cases s) (auto simp: no_blank_def)
  assume "no_blank s"
  moreover then have "no_blank (rev s)" by (auto simp: no_blank_def list_all_iff)
  ultimately show ?thesis by (simp add: trim_def id)
qed

lemma digit_not_blank: "is_ascii_digit c \<Longrightarrow> \<not> is_whitespace c"
  by (auto simp: is_whitespace_def is_ascii_digit_def char_le_iff)

lemma no_blank_decimal [simp]: "no_blank (decimal n)"
  using decimal_set digit_not_blank by (simp add: no_blank_def list_all_iff)

lemma contains_iff: "contains p s \<longleftrightarrow> (\<exists>a b. s = a @ p @ b)"
proof (induction s)
  case (Cons x xs)
  have "(\<exists>a b. x # xs = a @ p @ b) \<longleftrightarrow> (\<exists>b. x # xs = p @ b) \<or> (\<exists>a b. xs = a @ p @ b)"
  proof
    assume "\<exists>a b. x # xs = a @ p @ b"
    then obtain a b where "x # xs = a @ p @ b" by blast
    then show "(\<exists>b. x # xs = p @ b) \<or> (\<exists>a b. xs = a @ p @ b)" by (cases a) auto
  next
    assume "(\<exists>b. x # xs = p @ b) \<or> (\<exists>a b. xs = a @ p @ b)"
    then consider b where "x # xs = [] @ p @ b" | a b where "x # xs = (x # a) @ p @ b" by auto
    then show "\<exists>a b. x # xs = a @ p @ b" by cases blast+
  qed
  with Cons show ?case by (simp add: starts_with_iff)
qed simp

lemma rsplit_once_str_None: "sep \<noteq> [] \<Longrightarrow> hd sep \<notin> set s \<Longrightarrow> rsplit_once_str sep s = None"
proof (induction s)
  case (Cons x xs)
  then have "\<not> starts_with sep (x # xs)" by (cases sep) (auto simp: starts_with_iff)
  with Cons show ?case by simp
qed simp

lemma rsplit_once_str_append:
  assumes "hd sep \<notin> set (tl sep)" and "hd sep \<notin> set t" and "sep \<noteq> []"
  shows "rsplit_once_str sep (p @ sep @ t) = Some (p, t)"
proof (induction p)
  case Nil
  obtain x xs where sep: "sep = x # xs" using assms(3) by (cases sep) auto
  have "rsplit_once_str sep (xs @ t) = None"
    using assms sep by (intro rsplit_once_str_None) auto
  then show ?case using starts_with_append[of sep t] sep by simp
qed simp

subsection \<open>Printers and parsers\<close>

text \<open>
  The contract between a printer and the parser that reads its output back: on the values in
  use, parsing what was printed gives the value again. \<open>canonical_codec\<close> adds that the parser
  only ever returns such values, so re-printing a parsed value is stable.
\<close>

locale codec =
  fixes enc :: "'a \<Rightarrow> 'b"
    and dec :: "'b \<Rightarrow> 'a option"
    and valid :: "'a \<Rightarrow> bool"
  assumes dec_enc: "valid x \<Longrightarrow> dec (enc x) = Some x"
begin

lemma enc_inj: "valid x \<Longrightarrow> valid y \<Longrightarrow> enc x = enc y \<Longrightarrow> x = y"
  by (metis dec_enc option.inject)

lemma enc_inj_on: "inj_on enc {x. valid x}"
  by (rule inj_onI) (auto intro: enc_inj)

lemma enc_distinct: "distinct xs \<Longrightarrow> \<forall>x \<in> set xs. valid x \<Longrightarrow> distinct (map enc xs)"
  by (simp add: distinct_map inj_on_def enc_inj)

end

locale canonical_codec = codec +
  assumes dec_valid: "dec s = Some x \<Longrightarrow> valid x"
begin

lemma dec_stable: "dec s = Some x \<Longrightarrow> dec (enc x) = Some x"
  by (rule dec_enc) (rule dec_valid)

lemma reprint_stable: "dec s = Some x \<Longrightarrow> map_option enc (dec (enc x)) = Some (enc x)"
  by (simp add: dec_stable)

lemma dec_eq_iff_valid: "(\<exists>s. dec s = Some x) \<longleftrightarrow> valid x"
  using dec_enc dec_valid by blast

end

text \<open>The decimal printer and parser of every machine word keep the contract.\<close>

interpretation word_text: canonical_codec "show_word :: 'a::len word \<Rightarrow> string" parse_word "\<lambda>_. True"
  by unfold_locales simp_all

end
