(* ===== verification/Proto.thy ===== *)
theory Proto
  imports
    Prelude
begin

section \<open>Wire types\<close>

text \<open>
  The request and response bodies the CLI and the Node agent exchange
  (\<open>crates/cirro-proto/src/lib.rs\<close>): one record per struct and one datatype per enum, with the
  fields in the source's order, and the bounds both sides enforce.
\<close>

type_synonym ipv4 = u32
type_synonym path = string

definition LOG_CHUNK :: nat where
  "LOG_CHUNK = 2 ^ 20"

definition MIN_MEM_MIB :: u32 where
  "MIN_MEM_MIB = 128"

definition MAX_MEM_MIB :: u32 where
  "MAX_MEM_MIB = 65536"

definition MIN_VCPUS :: u8 where
  "MIN_VCPUS = 1"

definition MAX_VCPUS :: u8 where
  "MAX_VCPUS = 32"

lemmas bound_defs = MIN_MEM_MIB_def MAX_MEM_MIB_def MIN_VCPUS_def MAX_VCPUS_def

record user =
  user_uid :: u32
  user_gid :: u32

record route =
  route_host :: string
  route_port :: u16
  idle_park_secs :: "u32 option"

record run_request =
  rr_name :: string
  rr_rootfs :: path
  rr_mem_mib :: u32
  rr_vcpus :: u8
  rr_command :: "string list"
  rr_env :: "string list"
  rr_workdir :: "string option"
  rr_user :: "user option"
  rr_route :: "route option"

datatype end_reason = Graceful | Forced | Exited | Crashed | Parked | AgentDown

record ended =
  ended_at :: u64
  ended_reason :: end_reason

record vm_info =
  vi_name :: string
  vi_vm_address :: "ipv4 option"
  vi_mem_mib :: u32
  vi_vcpus :: u8
  vi_started_at :: u64
  vi_ended :: "ended option"
  vi_route :: "route option"

fun end_reason_as_str :: "end_reason \<Rightarrow> string" where
  "end_reason_as_str Graceful = ''graceful''"
| "end_reason_as_str Forced = ''forced''"
| "end_reason_as_str Exited = ''exited''"
| "end_reason_as_str Crashed = ''crashed''"
| "end_reason_as_str Parked = ''parked''"
| "end_reason_as_str AgentDown = ''died while the agent was down''"

text \<open>
  The wire spelling serde derives for an end reason: the variant's name in lower case, except
  for the one that is renamed.
\<close>

fun end_reason_wire :: "end_reason \<Rightarrow> string" where
  "end_reason_wire Graceful = ''graceful''"
| "end_reason_wire Forced = ''forced''"
| "end_reason_wire Exited = ''exited''"
| "end_reason_wire Crashed = ''crashed''"
| "end_reason_wire Parked = ''parked''"
| "end_reason_wire AgentDown = ''agent_down''"

definition end_reasons :: "end_reason list" where
  "end_reasons = [Graceful, Forced, Exited, Crashed, Parked, AgentDown]"

definition end_reason_from_wire :: "string \<Rightarrow> end_reason option" where
  "end_reason_from_wire s = find (\<lambda>r. end_reason_wire r = s) end_reasons"

record stop_request =
  sr_force :: bool
  sr_timeout_secs :: "u64 option"

record add_machine =
  am_name :: string
  am_ssh :: string
  am_host_key :: string

datatype machine_status = Up | Unreachable

fun machine_status_as_str :: "machine_status \<Rightarrow> string" where
  "machine_status_as_str Up = ''up''"
| "machine_status_as_str Unreachable = ''unreachable''"

record machine_info =
  mi_name :: string
  mi_ssh :: string
  mi_host_key :: string
  mi_status :: machine_status
  mi_last_error :: "string option"

record machine_app_request =
  mar_name :: string
  mar_machine :: string
  mar_route :: route

record machine_app_info =
  mai_name :: string
  mai_machine :: string
  mai_route :: route
  mai_status :: machine_status

text \<open>Reading back the wire spelling gives the reason that was written.\<close>

interpretation end_reason_wire: canonical_codec end_reason_wire end_reason_from_wire "\<lambda>_. True"
proof unfold_locales
  show "end_reason_from_wire (end_reason_wire r) = Some r" for r
    by (cases r) (simp_all add: end_reason_from_wire_def end_reasons_def)
qed simp

lemma end_reasons_all [simp]: "r \<in> set end_reasons"
  by (cases r) (simp_all add: end_reasons_def)

lemma end_reason_from_wire_iff: "end_reason_from_wire s = Some r \<longleftrightarrow> s = end_reason_wire r"
proof
  assume "end_reason_from_wire s = Some r"
  then show "s = end_reason_wire r"
    by (auto simp: end_reason_from_wire_def find_Some_iff)
next
  assume "s = end_reason_wire r"
  then show "end_reason_from_wire s = Some r"
    by (simp add: end_reason_wire.dec_enc)
qed

end
