(* ===== verification/Launch.thy ===== *)
theory Launch
  imports
    Proto
begin

section \<open>What runs in the guest\<close>

text \<open>
  How the command of a VM is put together and found: \<open>crates/cirro-image/src/run_config.rs\<close> (an
  image's entrypoint, environment and user, with Docker's rules) and
  \<open>crates/guest-init/src/launch.rs\<close> (the environment and the file guest-init runs). The lemmas say
  that merging environments replaces and adds keys without ever duplicating one, that the guest
  always has a \<open>PATH\<close>, and that the file run is the first executable one on it.
\<close>

subsection \<open>The image's configuration\<close>

record run_config =
  rc_entrypoint :: "string list"
  rc_cmd :: "string list"
  rc_env :: "string list"
  rc_workdir :: "string option"
  rc_user :: "(u32 \<times> u32) option"

definition run_command :: "run_config \<Rightarrow> string list \<Rightarrow> string list" where
  "run_command c args = rc_entrypoint c @ (if args = [] then rc_cmd c else args)"

definition env_key :: "string \<Rightarrow> string" where
  "env_key entry = (case split_once CHR ''='' entry of Some (k, _) \<Rightarrow> k | None \<Rightarrow> entry)"

fun set_env :: "string \<Rightarrow> string list \<Rightarrow> string list" where
  "set_env entry [] = [entry]"
| "set_env entry (e # es) = (if env_key e = env_key entry then entry # es else e # set_env entry es)"

definition merge_env :: "string list \<Rightarrow> string list \<Rightarrow> string list" where
  "merge_env env overrides = fold set_env overrides env"

datatype user_error = NoSuchUser string | NoSuchGroup string

definition passwd_entry :: "string option \<Rightarrow> (string list \<Rightarrow> bool) \<Rightarrow> (u32 \<times> u32) option" where
  "passwd_entry passwd matches =
     Option.bind passwd (\<lambda>text.
     Option.bind (find (\<lambda>f. length f \<ge> 4 \<and> matches f) (map (split_on CHR '':'') (lines text))) (\<lambda>f.
     Option.bind (parse_word (f ! 2)) (\<lambda>uid.
     Option.bind (parse_word (f ! 3)) (\<lambda>gid. Some (uid, gid)))))"

definition group_entry :: "string option \<Rightarrow> string \<Rightarrow> u32 option" where
  "group_entry group_file g =
     Option.bind group_file (\<lambda>text.
     Option.bind (find (\<lambda>f. length f \<ge> 3 \<and> f ! 0 = g) (map (split_on CHR '':'') (lines text))) (\<lambda>f.
     parse_word (f ! 2)))"

definition resolve_user ::
  "string \<Rightarrow> string option \<Rightarrow> string option \<Rightarrow> user_error + (u32 \<times> u32) option" where
  "resolve_user user passwd group_file =
     (if user = [] then Inr None
      else
        let (user_part, group_part) =
              (case split_once CHR '':'' user of Some (u, g) \<Rightarrow> (u, Some g) | None \<Rightarrow> (user, None))
        in bindr
             (case parse_word user_part of
                Some uid \<Rightarrow>
                  Inr (uid, case passwd_entry passwd (\<lambda>f. f ! 2 = user_part) of Some (_, gid) \<Rightarrow> gid | None \<Rightarrow> 0)
              | None \<Rightarrow> ok_or (NoSuchUser user_part) (passwd_entry passwd (\<lambda>f. f ! 0 = user_part)))
             (\<lambda>(uid, primary_gid).
           bindr
             (case group_part of
                None \<Rightarrow> Inr primary_gid
              | Some g \<Rightarrow>
                  if g = [] then Inr primary_gid
                  else (case parse_word g of
                          Some gid \<Rightarrow> Inr gid
                        | None \<Rightarrow> ok_or (NoSuchGroup g) (group_entry group_file g)))
             (\<lambda>gid. Inr (Some (uid, gid)))))"

subsection \<open>guest-init\<close>

definition DEFAULT_PATH :: string where
  "DEFAULT_PATH = ''/usr/local/sbin:/usr/local/bin:/usr/sbin:/usr/bin:/sbin:/bin''"

definition env_has :: "string list \<Rightarrow> string \<Rightarrow> bool" where
  "env_has env key \<longleftrightarrow>
     list_ex (\<lambda>e. case split_once CHR ''='' e of Some (k, _) \<Rightarrow> k = key | None \<Rightarrow> False) env"

definition app_env :: "string list \<Rightarrow> string list" where
  "app_env env =
     env @ (if env_has env ''PATH'' then [] else [''PATH='' @ DEFAULT_PATH])
         @ (if env_has env ''HOME'' then [] else [''HOME=/''])"

definition env_value :: "string \<Rightarrow> string \<Rightarrow> string option" where
  "env_value key e =
     (case split_once CHR ''='' e of Some (k, v) \<Rightarrow> if k = key then Some v else None | None \<Rightarrow> None)"

definition lookup :: "string list \<Rightarrow> string \<Rightarrow> string option" where
  "lookup env key = find_map (env_value key) (rev env)"

definition resolve_exec :: "string \<Rightarrow> string \<Rightarrow> (string \<Rightarrow> bool) \<Rightarrow> string option" where
  "resolve_exec exec path is_executable =
     (if CHR ''/'' \<in> set exec then Some exec
      else find is_executable
             (map (\<lambda>dir. path_join dir exec) (filter (\<lambda>dir. dir \<noteq> []) (split_on CHR '':'' path))))"

subsection \<open>Merging environments\<close>

text \<open>\<open>getenv\<close> is what glibc does: the first entry for a key.\<close>

definition getenv :: "string list \<Rightarrow> string \<Rightarrow> string option" where
  "getenv env k = find (\<lambda>e. env_key e = k) env"

lemma getenv_set_env: "getenv (set_env entry env) k = (if k = env_key entry then Some entry else getenv env k)"
  by (induction entry env rule: set_env.induct) (auto simp: getenv_def)

lemma keys_set_env:
  "map env_key (set_env entry env) =
   map env_key env @ (if env_key entry \<in> env_key ` set env then [] else [env_key entry])"
  by (induction entry env rule: set_env.induct) auto

lemma distinct_set_env: "distinct (map env_key env) \<Longrightarrow> distinct (map env_key (set_env entry env))"
  by (simp only: keys_set_env) (auto simp: distinct_map)

lemma distinct_merge_env: "distinct (map env_key env) \<Longrightarrow> distinct (map env_key (merge_env env overrides))"
  unfolding merge_env_def
  by (induction overrides arbitrary: env) (simp_all add: distinct_set_env)

lemma getenv_merge_env:
  "getenv (merge_env env overrides) k =
   (case getenv (rev overrides) k of Some e \<Rightarrow> Some e | None \<Rightarrow> getenv env k)"
proof (induction overrides rule: rev_induct)
  case Nil
  then show ?case by (simp add: merge_env_def getenv_def)
next
  case (snoc x xs)
  have "merge_env env (xs @ [x]) = set_env x (merge_env env xs)"
    by (simp add: merge_env_def)
  then show ?case
    using snoc by (simp add: getenv_set_env) (auto simp: getenv_def)
qed

lemma merge_env_keys_prefix: "\<exists>added. map env_key (merge_env env overrides) = map env_key env @ added"
proof (induction overrides rule: rev_induct)
  case Nil
  then show ?case by (simp add: merge_env_def)
next
  case (snoc x xs)
  then obtain added where "map env_key (merge_env env xs) = map env_key env @ added" by blast
  then show ?case
    by (simp add: merge_env_def keys_set_env[of x])
qed

subsection \<open>The guest's environment and command\<close>

lemma env_has_lookup: "env_has env key \<longleftrightarrow> lookup env key \<noteq> None"
  by (auto simp: env_has_def lookup_def find_map_None env_value_def list_ex_iff split: option.splits prod.splits if_splits)

lemma lookup_snoc: "lookup (env @ [e]) key = (case env_value key e of Some v \<Rightarrow> Some v | None \<Rightarrow> lookup env key)"
  by (simp add: lookup_def split: option.splits)

lemma env_value_entry: "CHR ''='' \<notin> set k \<Longrightarrow> env_value key (k @ CHR ''='' # v) = (if key = k then Some v else None)"
  by (simp add: env_value_def)

lemma lookup_add_default:
  assumes "CHR ''='' \<notin> set k"
  shows "lookup (env @ (if env_has env k then [] else [k @ ''='' @ v])) key =
         (case lookup env key of Some x \<Rightarrow> Some x | None \<Rightarrow> if key = k then Some v else None)"
proof (cases "lookup env k")
  case None
  then have "\<not> env_has env k" by (simp add: env_has_lookup)
  with None show ?thesis
    by (cases "key = k"; cases "lookup env key") (simp_all add: lookup_snoc env_value_entry[OF assms])
next
  case (Some x)
  then have "env_has env k" by (simp add: env_has_lookup)
  with Some show ?thesis by (cases "lookup env key") auto
qed

lemma lookup_app_env:
  "lookup (app_env env) key =
   (case lookup env key of
      Some v \<Rightarrow> Some v
    | None \<Rightarrow> if key = ''PATH'' then Some DEFAULT_PATH else if key = ''HOME'' then Some ''/'' else None)"
proof -
  define env1 where "env1 = env @ (if env_has env ''PATH'' then [] else [''PATH'' @ ''='' @ DEFAULT_PATH])"
  have l1: "lookup env1 k = (case lookup env k of Some x \<Rightarrow> Some x
              | None \<Rightarrow> if k = ''PATH'' then Some DEFAULT_PATH else None)" for k
    unfolding env1_def by (rule lookup_add_default) simp
  have "env_has env1 ''HOME'' = env_has env ''HOME''"
    by (simp add: env_has_lookup l1 split: option.splits)
  then have "app_env env = env1 @ (if env_has env1 ''HOME'' then [] else [''HOME'' @ ''='' @ ''/''])"
    by (simp add: app_env_def env1_def)
  then have "lookup (app_env env) key = (case lookup env1 key of Some x \<Rightarrow> Some x
              | None \<Rightarrow> if key = ''HOME'' then Some ''/'' else None)"
    by (simp only:) (rule lookup_add_default, simp)
  then show ?thesis by (simp add: l1 split: option.splits)
qed

lemma resolve_exec_bare:
  assumes "CHR ''/'' \<notin> set exec" and "resolve_exec exec path is_executable = Some file"
  shows "is_executable file"
    and "\<exists>dir \<in> set (split_on CHR '':'' path). dir \<noteq> [] \<and> file = path_join dir exec"
proof -
  let ?dirs = "filter (\<lambda>dir. dir \<noteq> []) (split_on CHR '':'' path)"
  from assms obtain i where i: "i < length ?dirs" "file = path_join (?dirs ! i) exec" "is_executable file"
    by (auto simp: resolve_exec_def find_Some_iff)
  then show "is_executable file" by simp
  have "?dirs ! i \<in> set ?dirs" using i(1) by (rule nth_mem)
  with i(2) show "\<exists>dir \<in> set (split_on CHR '':'' path). dir \<noteq> [] \<and> file = path_join dir exec"
    by auto
qed

end
