(* ===== verification/Api.thy ===== *)
theory Api
  imports
    Proto
begin

section \<open>Requests and their validation\<close>

text \<open>
  The parts of \<open>crates/cirro-node/src/agent.rs\<close> that look at a request alone: the checks of names,
  routes, bounds and guest configurations, query parameters, console log numbering and reading. An
  \<open>ApiError\<close> is its HTTP status with its message; a message is a constructor per message the source
  formats, carrying the values it shows.
\<close>

datatype status =
    OK | CREATED | NO_CONTENT | BAD_REQUEST | FORBIDDEN | NOT_FOUND | CONFLICT
  | UNPROCESSABLE_ENTITY | INTERNAL_SERVER_ERROR | BAD_GATEWAY | SERVICE_UNAVAILABLE

datatype request_problem =
    InvalidName string string
  | NotAHostname string
  | RoutePortZero
  | NoCommand
  | BadCommand
  | BadEnvEntry string
  | BadWorkdir string
  | OutOfBounds string nat nat nat
  | RootfsNotAbsolute
  | RootfsDenied string
  | RootfsFailed string
  | CannotIdlePark
  | BadOffset
  | BadBody string
  | NoSuchEndpoint string string

datatype start_problem =
    VmExists
  | ParkedNameInUse
  | MachineAppExists
  | FailedToStart string
  | StartedNotRecorded
  | SnapshotGone
  | NotParkedEnded
  | NotParkedRunning
  | FailedToWake string
  | WokeNotRecorded

datatype vm_problem =
    NoSuchVm
  | StillStarting
  | ParkedWakeFirst
  | AlreadyEnded
  | AlreadyParking
  | StartedWhileParking
  | EndedBeforePark
  | CouldNotPark string
  | RecordGone
  | VmNameTaken
  | SnapshotNotRemoved string
  | RecordNotRemoved
  | StillRunning
  | MachineBackedHasNoLog
  | MachineBackedCannot string

datatype machine_problem =
    NoSuchMachine string
  | MachineExists string
  | AppExists string
  | MachineHasApps string "string list"
  | NotRecorded string
  | NotRemoved string
  | BadTarget string
  | WrongHostKey string string
  | SshTrouble string

datatype api_message =
    Request request_problem
  | Starting_VM string start_problem
  | About_VM string vm_problem
  | About_Machine machine_problem
  | HostnameTaken string string bool
  | ShuttingDown
  | NoFreeAddresses
  | ReadLogFailed string
  | NoCa

datatype api_error = ApiError (err_status: status) (err_message: api_message)

definition bad_request :: "api_message \<Rightarrow> api_error" where
  "bad_request m = ApiError BAD_REQUEST m"

definition internal :: "api_message \<Rightarrow> api_error" where
  "internal m = ApiError INTERNAL_SERVER_ERROR m"

definition no_such_vm :: "string \<Rightarrow> api_error" where
  "no_such_vm name = ApiError NOT_FOUND (About_VM name NoSuchVm)"

definition hostname_taken :: "string \<Rightarrow> string \<Rightarrow> bool \<Rightarrow> api_error" where
  "hostname_taken host owner vm_backed = ApiError CONFLICT (HostnameTaken host owner vm_backed)"

subsection \<open>Names and routes\<close>

definition name_char :: "char \<Rightarrow> bool" where
  "name_char b \<longleftrightarrow> is_ascii_lowercase b \<or> is_ascii_digit b \<or> b = CHR ''-''"

definition valid_name :: "string \<Rightarrow> bool" where
  "valid_name name \<longleftrightarrow> 1 \<le> length name \<and> length name \<le> 32 \<and> list_all name_char name"

definition validate_name :: "string \<Rightarrow> string \<Rightarrow> api_error + unit" where
  "validate_name kind name = check (valid_name name) (bad_request (Request (InvalidName kind name)))"

definition label_ok :: "string \<Rightarrow> bool" where
  "label_ok label \<longleftrightarrow>
     1 \<le> length label \<and> length label \<le> 63 \<and> list_all name_char label \<and>
     \<not> starts_with ''-'' label \<and> \<not> ends_with ''-'' label"

definition validate_route :: "route \<Rightarrow> api_error + unit" where
  "validate_route r =
     (let host = route_host r
      in if length host > 253 \<or> \<not> list_all label_ok (split_on CHR ''.'' host)
         then Inl (bad_request (Request (NotAHostname host)))
         else if route_port r = 0 then Inl (bad_request (Request RoutePortZero))
         else Inr ())"

subsection \<open>Bounds and the guest's configuration\<close>

definition in_bounds :: "string \<Rightarrow> 'a::len word \<Rightarrow> 'a word \<Rightarrow> 'a word \<Rightarrow> api_error + unit" where
  "in_bounds field value lo hi =
     (if lo \<le> value \<and> value \<le> hi then Inr ()
      else Inl (bad_request (Request (OutOfBounds field (unat lo) (unat hi) (unat value)))))"

record guest_config =
  gc_exec :: string
  gc_args :: "string list"
  gc_env :: "string list"
  gc_workdir :: "string option"
  gc_user :: "user option"

definition has_nul :: "string \<Rightarrow> bool" where
  "has_nul s \<longleftrightarrow> CHR 0x00 \<in> set s"

definition env_entry_ok :: "string \<Rightarrow> bool" where
  "env_entry_ok entry \<longleftrightarrow>
     (case split_once CHR ''='' entry of Some (key, _) \<Rightarrow> key \<noteq> [] | None \<Rightarrow> False) \<and> \<not> has_nul entry"

definition guest_config_of :: "run_request \<Rightarrow> api_error + guest_config" where
  "guest_config_of run =
     (case rr_command run of
        [] \<Rightarrow> Inl (bad_request (Request NoCommand))
      | exec # args \<Rightarrow>
          if exec = [] \<or> list_ex has_nul (rr_command run) then Inl (bad_request (Request BadCommand))
          else (case find (\<lambda>e. \<not> env_entry_ok e) (rr_env run) of
                  Some entry \<Rightarrow> Inl (bad_request (Request (BadEnvEntry entry)))
                | None \<Rightarrow>
                    (case rr_workdir run of
                       Some dir \<Rightarrow>
                         if \<not> starts_with ''/'' dir \<or> has_nul dir then Inl (bad_request (Request (BadWorkdir dir)))
                         else Inr \<lparr>gc_exec = exec, gc_args = args, gc_env = rr_env run,
                                   gc_workdir = Some dir, gc_user = rr_user run\<rparr>
                     | None \<Rightarrow> Inr \<lparr>gc_exec = exec, gc_args = args, gc_env = rr_env run,
                                    gc_workdir = None, gc_user = rr_user run\<rparr>)))"

text \<open>The checks \<open>run_vm\<close> makes of a request before it touches anything.\<close>

definition validate_run :: "run_request \<Rightarrow> api_error + guest_config" where
  "validate_run run =
     bindr (validate_name ''VM'' (rr_name run)) (\<lambda>_.
     bindr (guest_config_of run) (\<lambda>guest.
     bindr (check (starts_with ''/'' (rr_rootfs run)) (bad_request (Request RootfsNotAbsolute))) (\<lambda>_.
     bindr (in_bounds ''vcpus'' (rr_vcpus run) MIN_VCPUS MAX_VCPUS) (\<lambda>_.
     bindr (in_bounds ''mem_mib'' (rr_mem_mib run) MIN_MEM_MIB MAX_MEM_MIB) (\<lambda>_.
     bindr (case rr_route run of None \<Rightarrow> Inr () | Some r \<Rightarrow> validate_route r) (\<lambda>_.
     Inr guest))))))"

subsection \<open>Ended VMs\<close>

definition is_parked :: "vm_info \<Rightarrow> bool" where
  "is_parked info \<longleftrightarrow> (case vi_ended info of Some e \<Rightarrow> ended_reason e = Parked | None \<Rightarrow> False)"

definition ended_info :: "vm_info \<Rightarrow> ended \<Rightarrow> vm_info" where
  "ended_info info e = info\<lparr>vi_vm_address := None, vi_ended := Some e\<rparr>"

subsection \<open>Queries and console logs\<close>

definition query_param :: "string \<Rightarrow> string \<Rightarrow> string option" where
  "query_param query key =
     map_option snd (find (\<lambda>(k, _). k = key)
       (List.map_filter (split_once CHR ''='') (split_on CHR ''&'' query)))"

definition log_number :: "string \<Rightarrow> u64 option" where
  "log_number name =
     Option.bind (strip_suffix ''.log'' name) (\<lambda>stem.
     Option.bind (rsplit_once CHR ''.'' stem) (\<lambda>(_, number).
     parse_word number))"

definition next_log_number :: "string list \<Rightarrow> u64" where
  "next_log_number files =
     (case List.map_filter log_number files of
        [] \<Rightarrow> 0
      | n # ns \<Rightarrow> fold max ns n + 1)"

definition log_file_name :: "string \<Rightarrow> u64 \<Rightarrow> string" where
  "log_file_name name n = name @ ''.'' @ show_word n @ ''.log''"

text \<open>\<open>log\<close> is the file's content, \<open>None\<close> when it can't be opened.\<close>

definition read_log :: "string option \<Rightarrow> u64 \<Rightarrow> string" where
  "read_log log offset =
     (case log of None \<Rightarrow> [] | Some bytes \<Rightarrow> take LOG_CHUNK (drop (unat offset) bytes))"

subsection \<open>Lemmas\<close>

lemma name_char_plain:
  "name_char c \<Longrightarrow> c \<noteq> CHR ''/'' \<and> c \<noteq> CHR ''.'' \<and> c \<noteq> CHR 0x00 \<and> c \<noteq> CHR ''?''"
  by (auto simp: name_char_def char_class_defs char_le_iff)

lemma name_char_lower: "name_char c \<Longrightarrow> ascii_lower c = c"
  by (rule ascii_lower_id) (auto simp: name_char_def char_class_defs char_le_iff)

lemma valid_name_file_safe:
  assumes "valid_name name"
  shows "name \<noteq> []" "CHR ''/'' \<notin> set name" "CHR ''.'' \<notin> set name" "CHR 0x00 \<notin> set name"
  using assms name_char_plain by (auto simp: valid_name_def list_all_iff)

lemma validate_name_iff [simp]: "validate_name kind name = Inr u \<longleftrightarrow> valid_name name"
  by (simp add: validate_name_def)

lemma validate_route_iff:
  "validate_route r = Inr u \<longleftrightarrow>
   length (route_host r) \<le> 253 \<and> (\<forall>l \<in> set (split_on CHR ''.'' (route_host r)). label_ok l) \<and>
   route_port r \<noteq> 0"
  by (auto simp: validate_route_def Let_def list_all_iff)

lemma validated_host_lower:
  assumes "validate_route r = Inr u"
  shows "to_ascii_lowercase (route_host r) = route_host r"
proof -
  let ?parts = "split_on CHR ''.'' (route_host r)"
  have parts: "\<forall>l \<in> set ?parts. to_ascii_lowercase l = l"
  proof
    fix l
    assume "l \<in> set ?parts"
    then have "list_all name_char l"
      using assms by (simp add: validate_route_iff label_ok_def)
    then show "to_ascii_lowercase l = l"
      by (induction l) (auto simp: to_ascii_lowercase_def name_char_lower)
  qed
  have "to_ascii_lowercase (join_with ''.'' ps) = join_with ''.'' ps"
    if "\<forall>l \<in> set ps. to_ascii_lowercase l = l" for ps
    using that
    by (induction "''.''" ps rule: join_with.induct)
      (auto simp: to_ascii_lowercase_def ascii_lower_def is_ascii_uppercase_def char_le_iff)
  with parts show ?thesis
    by (metis join_split_on)
qed

lemma validated_host_no_trailing_dot:
  assumes "validate_route r = Inr u"
  shows "route_host r \<noteq> []" "last (route_host r) \<noteq> CHR ''.''"
proof -
  have "[] \<notin> set (split_on CHR ''.'' (route_host r))"
    using assms by (auto simp: validate_route_iff label_ok_def)
  then show ne: "route_host r \<noteq> []" by auto
  show "last (route_host r) \<noteq> CHR ''.''"
  proof
    assume "last (route_host r) = CHR ''.''"
    with ne have "route_host r = butlast (route_host r) @ [CHR ''.'']"
      by (metis append_butlast_last_id)
    with \<open>[] \<notin> set (split_on CHR ''.'' (route_host r))\<close> show False
      by (metis in_set_conv_decomp split_on_snoc)
  qed
qed

lemma in_bounds_iff [simp]: "in_bounds field v lo hi = Inr u \<longleftrightarrow> lo \<le> v \<and> v \<le> hi"
  by (simp add: in_bounds_def)

lemma guest_config_ok:
  assumes "guest_config_of run = Inr g"
  shows "rr_command run = gc_exec g # gc_args g" "gc_exec g \<noteq> []"
    "\<forall>a \<in> set (gc_exec g # gc_args g). \<not> has_nul a"
    "gc_env g = rr_env run" "\<forall>e \<in> set (gc_env g). env_entry_ok e"
    "gc_workdir g = rr_workdir run" "\<forall>d. gc_workdir g = Some d \<longrightarrow> starts_with ''/'' d \<and> \<not> has_nul d"
    "gc_user g = rr_user run"
  using assms
  by (auto simp: guest_config_of_def find_None_iff list_ex_iff split: list.splits option.splits if_splits)

lemma is_parked_ended_info [simp]: "is_parked (ended_info info e) \<longleftrightarrow> ended_reason e = Parked"
  by (simp add: is_parked_def ended_info_def)

lemma log_number_log_file_name [simp]: "log_number (log_file_name name n) = Some n"
proof -
  have suffix: "strip_suffix ''.log'' (s @ ''.log'') = Some s" for s
    by (simp add: strip_suffix_def ends_with_def starts_with_def)
  have "CHR ''.'' \<notin> set (show_word n)"
    by (simp add: show_word_def is_ascii_digit_def char_le_iff)
  then have "rsplit_once CHR ''.'' (name @ CHR ''.'' # show_word n) = Some (name, show_word n)"
    by (simp add: rsplit_once_eq_Some)
  then show ?thesis
    using suffix[of "name @ ''.'' @ show_word n"] by (simp add: log_number_def log_file_name_def)
qed

lemma fold_max_ge:
  fixes n :: "'a::linorder"
  assumes "x \<in> set (n # ns)"
  shows "x \<le> fold max ns n"
proof -
  have "fold max ns n = Max (set (n # ns))"
    by (simp add: Max.set_eq_fold[symmetric])
  with assms show ?thesis by simp
qed

end
