(* ===== verification/Guest.thy ===== *)
theory Guest
  imports
    Launch
    Api
begin

section \<open>guest-init, the guest's first process\<close>

text \<open>
  \<open>guest-init/src/main.rs\<close>: \<open>exec_app\<close> in the forked child, and the parent's \<open>main\<close> as a transition
  system. The parent is single-threaded, so the handler of the host's shutdown request (\<open>SIGINT\<close>) runs
  whole between two of its steps; a step of \<open>guest_step\<close> is one such step, a signal, or what the guest's
  processes do. Process ids are reused once their process is reaped.
\<close>

subsection \<open>Running the command\<close>

datatype exec_error =
    ChdirFailed string
  | SwitchFailed user
  | NotOnPath string
  | NulByte string
  | ExecFailed

text \<open>What the kernel does for the child: \<open>ko_chdir\<close>, \<open>ko_switch\<close> and \<open>ko_exec\<close> say whether the calls work.\<close>

record kernel =
  ko_chdir :: "string \<Rightarrow> bool"
  ko_switch :: "user \<Rightarrow> bool"
  ko_executable :: "string \<Rightarrow> bool"
  ko_exec :: "string \<Rightarrow> string list \<Rightarrow> string list \<Rightarrow> bool"

definition to_cstrings :: "string list \<Rightarrow> exec_error + string list" where
  "to_cstrings items =
     (case find has_nul items of Some s \<Rightarrow> Inl (NulByte s) | None \<Rightarrow> Inr items)"

definition exec_app :: "kernel \<Rightarrow> guest_config \<Rightarrow> exec_error + (string \<times> string list \<times> string list)" where
  "exec_app k config =
     (let env = app_env (gc_env config)
      in bindr (case gc_workdir config of
                  Some dir \<Rightarrow> check (ko_chdir k dir) (ChdirFailed dir)
                | None \<Rightarrow> Inr ()) (\<lambda>_.
         bindr (case gc_user config of
                  Some u \<Rightarrow> check (ko_switch k u) (SwitchFailed u)
                | None \<Rightarrow> Inr ()) (\<lambda>_.
         let path = (case lookup env ''PATH'' of Some p \<Rightarrow> p | None \<Rightarrow> [])
         in bindr (ok_or (NotOnPath path) (resolve_exec (gc_exec config) path (ko_executable k))) (\<lambda>file.
            bindr (to_cstrings (gc_exec config # gc_args config)) (\<lambda>argv.
            bindr (to_cstrings env) (\<lambda>envp.
            bindr (check (\<not> has_nul file) (NulByte file)) (\<lambda>_.
            if ko_exec k file argv envp then Inr (file, argv, envp) else Inl ExecFailed)))))))"

lemma to_cstrings_ok: "\<forall>s \<in> set items. \<not> has_nul s \<Longrightarrow> to_cstrings items = Inr items"
  by (auto simp: to_cstrings_def find_None_iff split: option.splits)

lemma app_env_no_nul: "\<forall>e \<in> set env. \<not> has_nul e \<Longrightarrow> \<forall>e \<in> set (app_env env). \<not> has_nul e"
  by (auto simp: app_env_def has_nul_def DEFAULT_PATH_def)

lemma lookup_no_nul:
  assumes "lookup env key = Some v" and "\<forall>e \<in> set env. \<not> has_nul e"
  shows "\<not> has_nul v"
proof -
  from assms(1) obtain e where "e \<in> set env" "env_value key e = Some v"
    by (auto simp: lookup_def dest: find_map_SomeD)
  then have "e \<in> set env" "e = key @ CHR ''='' # v"
    by (auto simp: env_value_def split: option.splits if_splits dest: split_once_SomeD)
  with assms(2) show ?thesis by (auto simp: has_nul_def)
qed

lemma split_on_chars: "p \<in> set (split_on c s) \<Longrightarrow> set p \<subseteq> set s"
  by (induction c s arbitrary: p rule: split_on.induct) (fastforce split: if_splits list.splits)+

lemma resolve_exec_no_nul:
  assumes "resolve_exec exec path ex = Some file" and "\<not> has_nul exec" and "\<not> has_nul path"
  shows "\<not> has_nul file"
proof (cases "CHR ''/'' \<in> set exec")
  case True
  with assms show ?thesis by (simp add: resolve_exec_def)
next
  case False
  from resolve_exec_bare(2)[OF this assms(1)] obtain dir
    where "dir \<in> set (split_on CHR '':'' path)" "file = path_join dir exec" by blast
  with split_on_chars[of dir "CHR '':''" path] assms(2,3) show ?thesis
    by (auto simp: has_nul_def path_join_def)
qed

lemma exec_app_Inr:
  assumes "exec_app k config = Inr (file, argv, envp)"
  shows "argv = gc_exec config # gc_args config" and "envp = app_env (gc_env config)"
    and "resolve_exec (gc_exec config) (case lookup (app_env (gc_env config)) ''PATH'' of Some p \<Rightarrow> p | None \<Rightarrow> [])
           (ko_executable k) = Some file"
  using assms
  by (auto simp: exec_app_def to_cstrings_def Let_def ok_or_def bindr_def split: option.splits if_splits sum.splits)

lemma exec_app_no_nul:
  assumes cmd: "\<forall>a \<in> set (gc_exec config # gc_args config). \<not> has_nul a" and env: "\<forall>e \<in> set (gc_env config). \<not> has_nul e"
  shows "exec_app k config \<noteq> Inl (NulByte s)"
proof -
  let ?env = "app_env (gc_env config)"
  let ?path = "case lookup ?env ''PATH'' of Some p \<Rightarrow> p | None \<Rightarrow> []"
  have env': "\<forall>e \<in> set ?env. \<not> has_nul e" using env by (rule app_env_no_nul)
  then have path: "\<not> has_nul ?path"
    using lookup_no_nul[of ?env "''PATH''"] by (auto simp: has_nul_def split: option.splits)
  have "\<not> has_nul f" if "resolve_exec (gc_exec config) ?path (ko_executable k) = Some f" for f
    using resolve_exec_no_nul[OF that] cmd path by simp
  then show ?thesis
    using to_cstrings_ok[OF cmd] to_cstrings_ok[OF env']
    by (auto simp: exec_app_def Let_def ok_or_def bindr_def check_def split: option.splits if_splits sum.splits)
qed

subsection \<open>The parent\<close>

datatype phase =
    Starting_up
  | Configured
  | Forked nat
  | Stored nat
  | Reaping nat
  | Reaped nat
  | Shutting_down

datatype proc = App | Orphan

record guest =
  g_phase :: phase
  g_app_pid :: nat
  g_pending :: bool
  g_running :: "nat \<rightharpoonup> proc"
  g_zombies :: "nat \<rightharpoonup> proc"
  g_terms :: "proc option list"
  g_requested :: bool

definition guest_boot :: guest where
  "guest_boot = \<lparr>g_phase = Starting_up, g_app_pid = 0, g_pending = False, g_running = Map.empty,
                 g_zombies = Map.empty, g_terms = [], g_requested = False\<rparr>"

text \<open>\<open>SIGTERM\<close> to whatever process has the id by then.\<close>

definition forward_shutdown :: "nat \<Rightarrow> guest \<Rightarrow> guest" where
  "forward_shutdown pid g = g\<lparr>g_terms := g_running g pid # g_terms g\<rparr>"

definition handle_sigint :: "guest \<Rightarrow> guest" where
  "handle_sigint g =
     (let g = g\<lparr>g_requested := True\<rparr>
      in if g_app_pid g > 0 then forward_shutdown (g_app_pid g) g else g\<lparr>g_pending := True\<rparr>)"

definition store_pid :: "nat \<Rightarrow> guest \<Rightarrow> guest" where
  "store_pid pid g = g\<lparr>g_phase := Stored pid, g_app_pid := pid\<rparr>"

definition check_pending :: "nat \<Rightarrow> guest \<Rightarrow> guest" where
  "check_pending pid g =
     (let g = g\<lparr>g_phase := Reaping pid\<rparr> in if g_pending g then forward_shutdown pid g else g)"

text \<open>\<open>waitpid\<close> returns a zombie, whose id is free again; the app's id is cleared in a step of its own.\<close>

definition reap :: "nat \<Rightarrow> nat \<Rightarrow> guest \<Rightarrow> guest" where
  "reap app pid g =
     g\<lparr>g_zombies := (g_zombies g)(pid := None), g_phase := (if pid = app then Reaped app else Reaping app)\<rparr>"

definition clear_pid :: "nat \<Rightarrow> guest \<Rightarrow> guest" where
  "clear_pid app g = g\<lparr>g_app_pid := 0, g_phase := Reaping app\<rparr>"

definition unused_pid :: "nat \<Rightarrow> guest \<Rightarrow> bool" where
  "unused_pid pid g \<longleftrightarrow> 1 < pid \<and> g_running g pid = None \<and> g_zombies g pid = None"

inductive guest_step :: "guest \<Rightarrow> guest \<Rightarrow> bool" where
  read_config: "g_phase g = Starting_up \<Longrightarrow> guest_step g (g\<lparr>g_phase := Configured\<rparr>)"
| fork: "g_phase g = Configured \<Longrightarrow> unused_pid pid g \<Longrightarrow>
    guest_step g (g\<lparr>g_phase := Forked pid, g_running := (g_running g)(pid \<mapsto> App)\<rparr>)"
| store: "g_phase g = Forked pid \<Longrightarrow> guest_step g (store_pid pid g)"
| pending: "g_phase g = Stored pid \<Longrightarrow> guest_step g (check_pending pid g)"
| reaps: "g_phase g = Reaping app \<Longrightarrow> g_zombies g pid \<noteq> None \<Longrightarrow> guest_step g (reap app pid g)"
| clears: "g_phase g = Reaped app \<Longrightarrow> guest_step g (clear_pid app g)"
| no_children: "g_phase g = Reaping app \<Longrightarrow> g_zombies g = Map.empty \<Longrightarrow> g_running g = Map.empty \<Longrightarrow>
    guest_step g (g\<lparr>g_phase := Shutting_down\<rparr>)"
| sigint: "g_phase g \<noteq> Shutting_down \<Longrightarrow> guest_step g (handle_sigint g)"
| exits: "g_running g pid = Some p \<Longrightarrow>
    guest_step g (g\<lparr>g_running := (g_running g)(pid := None), g_zombies := (g_zombies g)(pid \<mapsto> p)\<rparr>)"
| orphaned: "g_running g \<noteq> Map.empty \<Longrightarrow> unused_pid pid g \<Longrightarrow>
    guest_step g (g\<lparr>g_running := (g_running g)(pid \<mapsto> Orphan)\<rparr>)"

inductive_cases guest_stepE: "guest_step g g'"


subsection \<open>What the parent keeps\<close>

definition app_at :: "guest \<Rightarrow> nat \<Rightarrow> bool" where
  "app_at g q \<longleftrightarrow> g_running g q = Some App \<or> g_zombies g q = Some App"

definition no_app :: "guest \<Rightarrow> bool" where
  "no_app g \<longleftrightarrow> app_at g = (\<lambda>_. False)"

definition only_app :: "nat \<Rightarrow> guest \<Rightarrow> bool" where
  "only_app pid g \<longleftrightarrow> app_at g = (\<lambda>q. q = pid)"

definition disjoint_procs :: "guest \<Rightarrow> bool" where
  "disjoint_procs g \<longleftrightarrow> dom (g_running g) \<inter> dom (g_zombies g) = {}"

lemma app_frame [simp]:
  "app_at (g\<lparr>g_phase := ph\<rparr>) = app_at g" "app_at (g\<lparr>g_app_pid := p\<rparr>) = app_at g"
  "app_at (g\<lparr>g_pending := b\<rparr>) = app_at g" "app_at (g\<lparr>g_requested := b\<rparr>) = app_at g"
  "app_at (g\<lparr>g_terms := ts\<rparr>) = app_at g"
  "disjoint_procs (g\<lparr>g_phase := ph\<rparr>) = disjoint_procs g" "disjoint_procs (g\<lparr>g_app_pid := p\<rparr>) = disjoint_procs g"
  "disjoint_procs (g\<lparr>g_pending := b\<rparr>) = disjoint_procs g" "disjoint_procs (g\<lparr>g_requested := b\<rparr>) = disjoint_procs g"
  "disjoint_procs (g\<lparr>g_terms := ts\<rparr>) = disjoint_procs g"
  by (simp_all add: app_at_def fun_eq_iff disjoint_procs_def)

lemma app_at_running: "g_running g q = Some App \<Longrightarrow> app_at g q"
  by (simp add: app_at_def)

definition guest_inv :: "guest \<Rightarrow> bool" where
  "guest_inv g \<longleftrightarrow>
     disjoint_procs g \<and>
     (case g_phase g of
        Starting_up \<Rightarrow> g_app_pid g = 0 \<and> g_running g = Map.empty \<and> g_zombies g = Map.empty \<and> (g_requested g \<longrightarrow> g_pending g)
      | Configured \<Rightarrow> g_app_pid g = 0 \<and> g_running g = Map.empty \<and> g_zombies g = Map.empty \<and> (g_requested g \<longrightarrow> g_pending g)
      | Forked pid \<Rightarrow> 0 < pid \<and> g_app_pid g = 0 \<and> only_app pid g \<and> (g_requested g \<longrightarrow> g_pending g)
      | Stored pid \<Rightarrow> 0 < pid \<and> g_app_pid g = pid \<and> only_app pid g \<and>
          (g_requested g \<longrightarrow> g_running g pid = Some App \<longrightarrow> g_pending g \<or> Some App \<in> set (g_terms g))
      | Reaping app \<Rightarrow>
          (g_app_pid g = 0 \<and> no_app g \<or> g_app_pid g = app \<and> 0 < app \<and> only_app app g) \<and>
          (g_requested g \<longrightarrow> g_running g app = Some App \<longrightarrow> Some App \<in> set (g_terms g))
      | Reaped app \<Rightarrow> no_app g
      | Shutting_down \<Rightarrow> g_running g = Map.empty \<and> g_zombies g = Map.empty)"

lemma guest_inv_boot: "guest_inv guest_boot"
  by (simp add: guest_inv_def guest_boot_def disjoint_procs_def)

lemma app_at_fork:
  "g_running g = Map.empty \<Longrightarrow> g_zombies g = Map.empty \<Longrightarrow>
   app_at (g\<lparr>g_phase := ph, g_running := [pid \<mapsto> App]\<rparr>) = (\<lambda>q. q = pid)"
  by (simp add: app_at_def fun_eq_iff)

lemma reap_frame [simp]:
  "g_app_pid (reap app pid g) = g_app_pid g" "g_running (reap app pid g) = g_running g"
  "g_terms (reap app pid g) = g_terms g" "g_requested (reap app pid g) = g_requested g"
  "g_phase (reap app pid g) = (if pid = app then Reaped app else Reaping app)"
  by (simp_all add: reap_def)

lemma app_at_reap: "g_running g pid = None \<Longrightarrow> app_at (reap app pid g) = (app_at g)(pid := False)"
  by (simp add: app_at_def reap_def fun_eq_iff)

lemma app_at_exits:
  "g_running g pid = Some p \<Longrightarrow> g_zombies g pid = None \<Longrightarrow>
   app_at (g\<lparr>g_running := (g_running g)(pid := None), g_zombies := (g_zombies g)(pid \<mapsto> p)\<rparr>) = app_at g"
  by (simp add: app_at_def fun_eq_iff)

lemma app_at_orphaned: "unused_pid pid g \<Longrightarrow> app_at (g\<lparr>g_running := (g_running g)(pid \<mapsto> Orphan)\<rparr>) = app_at g"
  by (simp add: app_at_def fun_eq_iff unused_pid_def)

lemma disjoint_procs_changes:
  assumes "disjoint_procs g"
  shows "disjoint_procs (reap app pid g)"
    and "disjoint_procs (g\<lparr>g_running := (g_running g)(pid := None), g_zombies := (g_zombies g)(pid \<mapsto> p)\<rparr>)"
    and "unused_pid pid g \<Longrightarrow> disjoint_procs (g\<lparr>g_running := (g_running g)(pid \<mapsto> x)\<rparr>)"
    and "g_running g pid = Some y \<Longrightarrow> g_zombies g pid = None"
    and "g_zombies g pid \<noteq> None \<Longrightarrow> g_running g pid = None"
  using assms by (auto simp: disjoint_procs_def reap_def unused_pid_def)

lemma guest_inv_main:
  assumes "guest_inv g"
  shows "g_phase g = Starting_up \<Longrightarrow> guest_inv (g\<lparr>g_phase := Configured\<rparr>)"
    and "g_phase g = Configured \<Longrightarrow> unused_pid pid g \<Longrightarrow>
      guest_inv (g\<lparr>g_phase := Forked pid, g_running := (g_running g)(pid \<mapsto> App)\<rparr>)"
    and "g_phase g = Forked pid \<Longrightarrow> guest_inv (store_pid pid g)"
    and "g_phase g = Stored pid \<Longrightarrow> guest_inv (check_pending pid g)"
    and "g_phase g = Reaped app \<Longrightarrow> guest_inv (clear_pid app g)"
    and "g_phase g = Reaping app \<Longrightarrow> g_zombies g = Map.empty \<Longrightarrow> g_running g = Map.empty \<Longrightarrow>
      guest_inv (g\<lparr>g_phase := Shutting_down\<rparr>)"
proof -
  show "g_phase g = Starting_up \<Longrightarrow> guest_inv (g\<lparr>g_phase := Configured\<rparr>)"
    using assms by (simp add: guest_inv_def)
  show "guest_inv (g\<lparr>g_phase := Forked pid, g_running := (g_running g)(pid \<mapsto> App)\<rparr>)"
    if "g_phase g = Configured" "unused_pid pid g"
    using assms that by (simp add: guest_inv_def only_app_def app_at_fork unused_pid_def disjoint_procs_def)
  show "g_phase g = Forked pid \<Longrightarrow> guest_inv (store_pid pid g)"
    using assms by (simp add: guest_inv_def store_pid_def only_app_def)
  show "g_phase g = Stored pid \<Longrightarrow> guest_inv (check_pending pid g)"
    using assms by (auto simp: guest_inv_def check_pending_def forward_shutdown_def Let_def only_app_def)
  show "g_phase g = Reaped app \<Longrightarrow> guest_inv (clear_pid app g)"
    using assms app_at_running[of g app] by (auto simp: guest_inv_def clear_pid_def no_app_def)
  show "guest_inv (g\<lparr>g_phase := Shutting_down\<rparr>)"
    if "g_phase g = Reaping app" "g_zombies g = Map.empty" "g_running g = Map.empty"
    using assms that by (simp add: guest_inv_def)
qed

lemma guest_inv_reap:
  assumes inv: "guest_inv g" and ph: "g_phase g = Reaping app" and z: "g_zombies g pid \<noteq> None"
  shows "guest_inv (reap app pid g)"
proof -
  have disj: "disjoint_procs g" using inv by (simp add: guest_inv_def)
  note at = app_at_reap[OF disjoint_procs_changes(5)[OF disj z]]
  show ?thesis
    using inv ph disjoint_procs_changes(1)[OF disj, of app pid] at[of app]
    by (cases "pid = app") (auto simp: guest_inv_def only_app_def no_app_def fun_eq_iff)
qed

lemma sigint_frame [simp]:
  "app_at (handle_sigint g) = app_at g" "disjoint_procs (handle_sigint g) = disjoint_procs g"
  "g_phase (handle_sigint g) = g_phase g" "g_app_pid (handle_sigint g) = g_app_pid g"
  "g_running (handle_sigint g) = g_running g" "g_zombies (handle_sigint g) = g_zombies g"
  by (simp_all add: handle_sigint_def forward_shutdown_def Let_def)

lemma sigint_forwards:
  "g_app_pid g = 0 \<Longrightarrow> g_pending (handle_sigint g)"
  "0 < g_app_pid g \<Longrightarrow> g_running g (g_app_pid g) = Some App \<Longrightarrow> Some App \<in> set (g_terms (handle_sigint g))"
  by (simp_all add: handle_sigint_def forward_shutdown_def Let_def)

lemma no_app_running: "no_app g \<Longrightarrow> g_running g q \<noteq> Some App"
  by (simp add: no_app_def app_at_def fun_eq_iff)

lemma guest_inv_sigint:
  assumes "guest_inv g"
  shows "guest_inv (handle_sigint g)"
  using assms sigint_forwards[of g]
  by (cases "g_phase g") (auto simp: guest_inv_def no_app_running no_app_def only_app_def dest: no_app_running)

lemma guest_inv_exits:
  assumes inv: "guest_inv g" and p: "g_running g pid = Some p"
  shows "guest_inv (g\<lparr>g_running := (g_running g)(pid := None), g_zombies := (g_zombies g)(pid \<mapsto> p)\<rparr>)"
proof -
  have disj: "disjoint_procs g" using inv by (simp add: guest_inv_def)
  note at = app_at_exits[OF p disjoint_procs_changes(4)[OF disj p]]
  show ?thesis
    using inv p disjoint_procs_changes(2)[OF disj, of pid p]
    by (cases "g_phase g") (auto simp: guest_inv_def only_app_def no_app_def at)
qed

lemma guest_inv_orphaned:
  assumes inv: "guest_inv g" and some: "g_running g \<noteq> Map.empty" and new: "unused_pid pid g"
  shows "guest_inv (g\<lparr>g_running := (g_running g)(pid \<mapsto> Orphan)\<rparr>)"
proof -
  have disj: "disjoint_procs g" using inv by (simp add: guest_inv_def)
  show ?thesis
    using inv some disjoint_procs_changes(3)[OF disj new, of Orphan]
    by (cases "g_phase g") (auto simp: guest_inv_def only_app_def no_app_def app_at_orphaned[OF new])
qed

lemma guest_inv_step: "guest_step g g' \<Longrightarrow> guest_inv g \<Longrightarrow> guest_inv g'"
  by (induction rule: guest_step.induct)
    (blast intro: guest_inv_main guest_inv_reap guest_inv_sigint guest_inv_exits guest_inv_orphaned)+

lemma guest_inv_steps: "guest_step\<^sup>*\<^sup>* guest_boot g \<Longrightarrow> guest_inv g"
  by (induction rule: rtranclp_induct) (auto intro: guest_inv_step guest_inv_boot)


lemma finite_procs_step:
  assumes "guest_step g g'" and "finite (dom (g_running g)) \<and> finite (dom (g_zombies g))"
  shows "finite (dom (g_running g')) \<and> finite (dom (g_zombies g'))"
  using assms
  by (induction rule: guest_step.induct)
    (simp_all add: reap_def clear_pid_def check_pending_def store_pid_def forward_shutdown_def Let_def)

lemma finite_procs: "guest_step\<^sup>*\<^sup>* guest_boot g \<Longrightarrow> finite (dom (g_running g)) \<and> finite (dom (g_zombies g))"
proof (induction rule: rtranclp_induct)
  case base
  then show ?case by (simp add: guest_boot_def)
next
  case (step y z)
  from finite_procs_step[OF step(2,3)] show ?case .
qed

text \<open>Steps in which the parent waits and the processes of the guest end, one after the other.\<close>

lemma reaping_ends:
  assumes "g_phase g = Reaping app" and "finite (dom (g_running g))" and "finite (dom (g_zombies g))"
  shows "\<exists>g'. guest_step\<^sup>*\<^sup>* g g' \<and> g_phase g' = Shutting_down"
  using assms
proof (induction "2 * card (dom (g_running g)) + card (dom (g_zombies g))" arbitrary: g rule: less_induct)
  case less
  consider (zombie) pid where "g_zombies g pid \<noteq> None" | (running) pid p where "g_running g pid = Some p" "g_zombies g = Map.empty"
    | (none) "g_running g = Map.empty" "g_zombies g = Map.empty"
    by (metis not_None_eq ext)
  then show ?case
  proof cases
    case zombie
    let ?g = "if pid = app then clear_pid app (reap app pid g) else reap app pid g"
    have steps: "guest_step\<^sup>*\<^sup>* g ?g"
      using guest_step.reaps[OF less(2) zombie] guest_step.clears[of "reap app pid g" app] by auto
    have "card (dom (g_zombies g) - {pid}) < card (dom (g_zombies g))"
      using zombie less(4) by (intro psubset_card_mono) auto
    then have "\<exists>g'. guest_step\<^sup>*\<^sup>* ?g g' \<and> g_phase g' = Shutting_down"
      using less(3,4) by (intro less(1)) (auto simp: clear_pid_def reap_def)
    with steps show ?thesis by (meson rtranclp_trans)
  next
    case running
    let ?g = "g\<lparr>g_running := (g_running g)(pid := None), g_zombies := (g_zombies g)(pid \<mapsto> p)\<rparr>"
    have "card (dom (g_running g) - {pid}) < card (dom (g_running g))"
      using running less(3) by (intro psubset_card_mono) auto
    then have "\<exists>g'. guest_step\<^sup>*\<^sup>* ?g g' \<and> g_phase g' = Shutting_down"
      using less(2,3) running(2) by (intro less(1)) auto
    with guest_step.exits[OF running(1)] show ?thesis by (meson converse_rtranclp_into_rtranclp)
  next
    case none
    from guest_step.no_children[OF less(2) none(2,1)] show ?thesis
      by (intro exI[of _ "g\<lparr>g_phase := Shutting_down\<rparr>"]) (simp add: r_into_rtranclp)
  qed
qed

text \<open>Every phase leads to waiting.\<close>

lemma waits_in_the_end:
  assumes "g_phase g \<noteq> Shutting_down" and inv: "guest_inv g" and fin: "finite (dom (g_running g))" "finite (dom (g_zombies g))"
  shows "\<exists>g' app. guest_step\<^sup>*\<^sup>* g g' \<and> g_phase g' = Reaping app \<and> finite (dom (g_running g')) \<and> finite (dom (g_zombies g'))"
proof -
  let ?W = "\<lambda>g. \<exists>g' app. guest_step\<^sup>*\<^sup>* g g' \<and> g_phase g' = Reaping app \<and> finite (dom (g_running g')) \<and> finite (dom (g_zombies g'))"
  have fwd: "guest_step h h' \<Longrightarrow> ?W h' \<Longrightarrow> ?W h" for h h' by (meson converse_rtranclp_into_rtranclp)
  have done': "?W h" if "g_phase h = Reaping app" "finite (dom (g_running h))" "finite (dom (g_zombies h))" for h app
    using that by blast
  have stored: "?W h" if "g_phase h = Stored pid" "finite (dom (g_running h))" "finite (dom (g_zombies h))" for h pid
    by (rule fwd[OF guest_step.pending[OF that(1)]], rule done') (use that in \<open>simp_all add: check_pending_def forward_shutdown_def Let_def\<close>)
  have forked: "?W h" if "g_phase h = Forked pid" "finite (dom (g_running h))" "finite (dom (g_zombies h))" for h pid
    by (rule fwd[OF guest_step.store[OF that(1)]], rule stored) (use that in \<open>simp_all add: store_pid_def\<close>)
  have configured: "?W h" if "g_phase h = Configured" "g_running h = Map.empty" "g_zombies h = Map.empty" for h
    by (rule fwd[OF guest_step.fork[OF that(1), of 2]], use that in \<open>simp add: unused_pid_def\<close>, rule forked) (use that in simp_all)
  have starting: "?W h" if "g_phase h = Starting_up" "g_running h = Map.empty" "g_zombies h = Map.empty" for h
    by (rule fwd[OF guest_step.read_config[OF that(1)]], rule configured) (use that in simp_all)
  have reaped: "?W h" if "g_phase h = Reaped app" "finite (dom (g_running h))" "finite (dom (g_zombies h))" for h app
    by (rule fwd[OF guest_step.clears[OF that(1)]], rule done') (use that in \<open>simp_all add: clear_pid_def\<close>)
  show ?thesis
    using assms starting configured forked stored reaped done' by (cases "g_phase g") (auto simp: guest_inv_def)
qed


subsection \<open>Runs\<close>

lemma guest_go: "guest_step\<^sup>*\<^sup>* a g \<Longrightarrow> guest_step g g' \<Longrightarrow> guest_step\<^sup>*\<^sup>* a g'"
  by (rule rtranclp.rtrancl_into_rtrancl)

text \<open>A boot, up to the parent waiting for an application with id 2.\<close>

definition booted :: "guest \<Rightarrow> guest" where
  "booted g = check_pending 2 (store_pid 2 (g\<lparr>g_phase := Forked 2, g_running := (g_running g)(2 \<mapsto> App)\<rparr>))"

lemma boots:
  assumes "guest_step\<^sup>*\<^sup>* guest_boot g" and "g_phase g = Starting_up"
  shows "guest_step\<^sup>*\<^sup>* guest_boot (booted g)"
proof -
  let ?b = "g\<lparr>g_phase := Configured\<rparr>"
  let ?c = "?b\<lparr>g_phase := Forked 2, g_running := (g_running ?b)(2 \<mapsto> App)\<rparr>"
  have "guest_inv g" using assms(1) by (rule guest_inv_steps)
  with assms(2) have "unused_pid 2 ?b" by (simp add: guest_inv_def unused_pid_def)
  with assms have c: "guest_step\<^sup>*\<^sup>* guest_boot ?c"
    by (intro guest_go[OF guest_go[OF assms(1) guest_step.read_config] guest_step.fork]) simp_all
  have "guest_step\<^sup>*\<^sup>* guest_boot (check_pending 2 (store_pid 2 ?c))"
    by (intro guest_go[OF guest_go[OF c guest_step.store] guest_step.pending]) (simp_all add: store_pid_def)
  then show ?thesis by (simp add: booted_def)
qed

lemma demo_early_reached: "guest_step\<^sup>*\<^sup>* guest_boot (booted (handle_sigint guest_boot))"
  by (rule boots, rule guest_go[OF rtranclp.rtrancl_refl guest_step.sigint]) (simp_all add: guest_boot_def)

lemmas guest_eval =
  booted_def check_pending_def store_pid_def forward_shutdown_def handle_sigint_def guest_boot_def reap_def Let_def unused_pid_def



text \<open>C38: the id of the application is cleared only after \<open>waitpid\<close> has freed it, so a shutdown request that arrives between
  the two can send \<open>SIGTERM\<close> to another process of the guest that was given the same id.\<close>

theorem sigterm_may_hit_reused_pid:
  "\<exists>g pid. guest_step\<^sup>*\<^sup>* guest_boot g \<and> g_running g pid = Some Orphan \<and> guest_step\<^sup>*\<^sup>* guest_boot (handle_sigint g) \<and>
     hd (g_terms (handle_sigint g)) = Some Orphan"
proof -
  let ?a = "booted guest_boot"
  let ?b = "?a\<lparr>g_running := (g_running ?a)(3 \<mapsto> Orphan)\<rparr>"
  let ?c = "?b\<lparr>g_running := (g_running ?b)(2 := None), g_zombies := (g_zombies ?b)(2 \<mapsto> App)\<rparr>"
  let ?d = "reap 2 2 ?c"
  let ?e = "?d\<lparr>g_running := (g_running ?d)(2 \<mapsto> Orphan)\<rparr>"
  have "guest_step\<^sup>*\<^sup>* guest_boot ?a" by (rule boots) (simp_all add: guest_boot_def)
  then have "guest_step\<^sup>*\<^sup>* guest_boot ?b" by (rule guest_go[OF _ guest_step.orphaned]) (simp_all add: guest_eval)
  then have "guest_step\<^sup>*\<^sup>* guest_boot ?c" by (rule guest_go[OF _ guest_step.exits]) (simp add: guest_eval)
  then have "guest_step\<^sup>*\<^sup>* guest_boot ?d" by (rule guest_go[OF _ guest_step.reaps]) (simp_all add: guest_eval)
  then have e: "guest_step\<^sup>*\<^sup>* guest_boot ?e" by (rule guest_go[OF _ guest_step.orphaned]) (simp_all add: guest_eval)
  then have "guest_step\<^sup>*\<^sup>* guest_boot (handle_sigint ?e)" by (rule guest_go[OF _ guest_step.sigint]) (simp add: guest_eval)
  moreover have "g_running ?e 2 = Some Orphan" "hd (g_terms (handle_sigint ?e)) = Some Orphan" by (simp_all add: guest_eval)
  ultimately show ?thesis using e by blast
qed

text \<open>C39: what the agent accepts, guest-init can hand to the kernel: a command, environment and workdir that passed the
  agent's checks never make \<open>exec_app\<close> fail for a NUL byte, and when it runs a file, that file is the one found on the
  guest's \<open>PATH\<close>, with the command asked for and the environment asked for extended by \<open>PATH\<close> and \<open>HOME\<close>.\<close>

theorem accepted_command_runs:
  assumes "validate_run run = Inr config"
  shows "exec_app k config \<noteq> Inl (NulByte s) \<and>
    (exec_app k config = Inr (f, argv, envp) \<longrightarrow>
       argv = rr_command run \<and> envp = app_env (rr_env run) \<and>
       (\<exists>path. lookup envp ''PATH'' = Some path \<and> resolve_exec (hd argv) path (ko_executable k) = Some f))"
proof
  from assms have g: "guest_config_of run = Inr config"
    by (auto simp: validate_run_def bindr_def check_def split: sum.splits if_splits option.splits)
  note ok = guest_config_ok[OF g]
  show "exec_app k config \<noteq> Inl (NulByte s)"
    using ok(3,5) by (intro exec_app_no_nul) (auto simp: env_entry_ok_def)
  obtain p where p: "lookup (app_env (rr_env run)) ''PATH'' = Some p"
    by (cases "lookup (rr_env run) ''PATH''") (simp_all add: lookup_app_env)
  show "exec_app k config = Inr (f, argv, envp) \<longrightarrow> argv = rr_command run \<and> envp = app_env (rr_env run) \<and>
    (\<exists>path. lookup envp ''PATH'' = Some path \<and> resolve_exec (hd argv) path (ko_executable k) = Some f)"
    using ok(1,4) p exec_app_Inr[of k config f argv envp] by auto
qed

definition demo_run :: run_request where
  "demo_run = \<lparr>rr_name = ''a'', rr_rootfs = ''/r'', rr_mem_mib = 256, rr_vcpus = 1, rr_command = [''app'', ''-x''],
     rr_env = [''K=v''], rr_workdir = None, rr_user = None, rr_route = None\<rparr>"

definition demo_config :: guest_config where
  "demo_config = \<lparr>gc_exec = ''app'', gc_args = [''-x''], gc_env = [''K=v''], gc_workdir = None, gc_user = None\<rparr>"

definition demo_kernel :: kernel where
  "demo_kernel = \<lparr>ko_chdir = (\<lambda>_. True), ko_switch = (\<lambda>_. True), ko_executable = (\<lambda>f. f = ''/bin/app''), ko_exec = (\<lambda>_ _ _. True)\<rparr>"

lemma demo_accepted: "validate_run demo_run = Inr demo_config"
  by code_simp

lemma demo_executed:
  "exec_app demo_kernel demo_config =
     Inr (''/bin/app'', [''app'', ''-x''], [''K=v'', ''PATH='' @ DEFAULT_PATH, ''HOME=/''])"
  by code_simp

theorem accepted_command_runs_witness:
  "\<exists>path. lookup [''K=v'', ''PATH='' @ DEFAULT_PATH, ''HOME=/''] ''PATH'' = Some path \<and>
     resolve_exec ''app'' path (ko_executable demo_kernel) = Some ''/bin/app''"
  using accepted_command_runs[OF demo_accepted, of demo_kernel "[]" "''/bin/app''" "[''app'', ''-x'']"] demo_executed by auto

end
