(* ===== verification/Ordered_Map.thy ===== *)
theory Ordered_Map
  imports
    Prelude
begin

section \<open>Ordered maps\<close>

text \<open>
  The agent keeps its registries in \<open>BTreeMap\<close>s and walks them in key order. The model is an
  association list in strictly increasing key order; iteration is the list itself. What the
  components rely on is stated as the locale \<open>ordered_map\<close>, whose lemmas are the facts about
  whole-map searches, and about a resource at most one entry holds, that the registries of VMs,
  Machines and Machine-backed Apps need.
\<close>

type_synonym ('k, 'v) bmap = "('k \<times> 'v) list"

fun bm_insert :: "'k::linorder \<Rightarrow> 'v \<Rightarrow> ('k, 'v) bmap \<Rightarrow> ('k, 'v) bmap" where
  "bm_insert k v [] = [(k, v)]"
| "bm_insert k v ((k', v') # m) =
     (if k < k' then (k, v) # (k', v') # m
      else if k = k' then (k, v) # m
      else (k', v') # bm_insert k v m)"

definition bm_remove :: "'k \<Rightarrow> ('k, 'v) bmap \<Rightarrow> ('k, 'v) bmap" where
  "bm_remove k m = filter (\<lambda>e. fst e \<noteq> k) m"

definition bm_wf :: "('k::linorder, 'v) bmap \<Rightarrow> bool" where
  "bm_wf m \<longleftrightarrow> sorted_wrt (<) (map fst m)"

text \<open>
  \<open>exclusive f m\<close>: the resource \<open>f\<close> reads off an entry (a hostname, a VM address) is held under
  at most one key.
\<close>

definition exclusive :: "('v \<Rightarrow> 'x option) \<Rightarrow> ('k \<rightharpoonup> 'v) \<Rightarrow> bool" where
  "exclusive f m \<longleftrightarrow>
     (\<forall>k k' v v' x. m k = Some v \<longrightarrow> m k' = Some v' \<longrightarrow> f v = Some x \<longrightarrow> f v' = Some x \<longrightarrow> k = k')"

definition free_of :: "('v \<Rightarrow> 'x option) \<Rightarrow> 'x \<Rightarrow> ('k \<rightharpoonup> 'v) \<Rightarrow> bool" where
  "free_of f x m \<longleftrightarrow> (\<forall>k v. m k = Some v \<longrightarrow> f v \<noteq> Some x)"

lemma exclusiveD:
  "exclusive f m \<Longrightarrow> m k = Some v \<Longrightarrow> m k' = Some v' \<Longrightarrow> f v = Some x \<Longrightarrow> f v' = Some x \<Longrightarrow> k = k'"
  unfolding exclusive_def by blast

lemma exclusiveI:
  "(\<And>k k' v v' x. m k = Some v \<Longrightarrow> m k' = Some v' \<Longrightarrow> f v = Some x \<Longrightarrow> f v' = Some x \<Longrightarrow> k = k')
   \<Longrightarrow> exclusive f m"
  unfolding exclusive_def by blast

lemma free_ofD: "free_of f x m \<Longrightarrow> m k = Some v \<Longrightarrow> f v \<noteq> Some x"
  unfolding free_of_def by blast

lemma exclusive_submap:
  assumes "exclusive f m" and "\<And>k v. m' k = Some v \<Longrightarrow> m k = Some v"
  shows "exclusive f m'"
  by (rule exclusiveI) (meson assms exclusiveD)

lemma exclusive_upd_free:
  assumes "exclusive f m" and "\<And>x. f v = Some x \<Longrightarrow> free_of f x m"
  shows "exclusive f (m(k \<mapsto> v))"
proof (rule exclusiveI)
  fix k1 k2 v1 v2 x
  assume "(m(k \<mapsto> v)) k1 = Some v1" "(m(k \<mapsto> v)) k2 = Some v2" "f v1 = Some x" "f v2 = Some x"
  then show "k1 = k2"
    using assms(1) free_ofD[OF assms(2)[of x]]
    by (auto dest: exclusiveD split: if_splits)
qed

lemma exclusive_upd_same:
  assumes "exclusive f m" and "m k = Some u" and "\<And>x. f v = Some x \<Longrightarrow> f u = Some x"
  shows "exclusive f (m(k \<mapsto> v))"
proof (rule exclusiveI)
  fix k1 k2 v1 v2 x
  assume "(m(k \<mapsto> v)) k1 = Some v1" "(m(k \<mapsto> v)) k2 = Some v2" "f v1 = Some x" "f v2 = Some x"
  then show "k1 = k2"
    using assms by (auto dest: exclusiveD split: if_splits)
qed

lemma exclusive_upd_none:
  assumes "exclusive f m" and "f v = None"
  shows "exclusive f (m(k \<mapsto> v))"
  by (rule exclusive_upd_free) (use assms in auto)

subsection \<open>The interface\<close>

locale ordered_map =
  fixes get :: "'m \<Rightarrow> 'k::linorder \<rightharpoonup> 'v"
    and ins :: "'k \<Rightarrow> 'v \<Rightarrow> 'm \<Rightarrow> 'm"
    and rem :: "'k \<Rightarrow> 'm \<Rightarrow> 'm"
    and entries :: "'m \<Rightarrow> ('k \<times> 'v) list"
    and wf :: "'m \<Rightarrow> bool"
  assumes get_ins: "get (ins k v m) = (get m)(k \<mapsto> v)"
    and get_rem: "get (rem k m) = (get m)(k := None)"
    and wf_ins: "wf m \<Longrightarrow> wf (ins k v m)"
    and wf_rem: "wf m \<Longrightarrow> wf (rem k m)"
    and get_entries: "wf m \<Longrightarrow> get m = map_of (entries m)"
    and entries_sorted: "wf m \<Longrightarrow> sorted_wrt (<) (map fst (entries m))"
begin

lemma distinct_keys: "wf m \<Longrightarrow> distinct (map fst (entries m))"
  using entries_sorted strict_sorted_iff by blast

lemma entry_iff: "wf m \<Longrightarrow> (k, v) \<in> set (entries m) \<longleftrightarrow> get m k = Some v"
  by (simp add: get_entries distinct_keys)

lemma search_all:
  "wf m \<Longrightarrow> (\<exists>e \<in> set (entries m). P (fst e) (snd e)) \<longleftrightarrow> (\<exists>k v. get m k = Some v \<and> P k v)"
  by (force simp: entry_iff[symmetric])

lemma free_of_entries:
  "wf m \<Longrightarrow> free_of f x (get m) \<longleftrightarrow> (\<forall>e \<in> set (entries m). f (snd e) \<noteq> Some x)"
  by (force simp: free_of_def entry_iff[symmetric])

lemma find_unique:
  assumes "wf m" and "exclusive f (get m)" and "get m k = Some v" and "f v = Some x"
  shows "find (\<lambda>e. f (snd e) = Some x) (entries m) = Some (k, v)"
proof -
  have mem: "(k, v) \<in> set (entries m)"
    using assms by (simp add: entry_iff)
  then obtain e where e: "find (\<lambda>e. f (snd e) = Some x) (entries m) = Some e"
    using assms(4) by (cases "find (\<lambda>e. f (snd e) = Some x) (entries m)") (auto simp: find_None_iff)
  then have "e \<in> set (entries m)" and "f (snd e) = Some x"
    by (auto simp: find_Some_iff)
  then have "get m (fst e) = Some (snd e)"
    using assms(1) by (simp add: entry_iff[symmetric])
  with assms \<open>f (snd e) = Some x\<close> have "fst e = k"
    by (meson exclusiveD)
  with \<open>get m (fst e) = Some (snd e)\<close> assms(3) have "e = (k, v)"
    by (cases e) simp
  with e show ?thesis by simp
qed

lemma exclusive_ins_free:
  "exclusive f (get m) \<Longrightarrow> (\<And>x. f v = Some x \<Longrightarrow> free_of f x (get m)) \<Longrightarrow> exclusive f (get (ins k v m))"
  by (simp add: get_ins exclusive_upd_free)

lemma exclusive_ins_same:
  "exclusive f (get m) \<Longrightarrow> get m k = Some u \<Longrightarrow> (\<And>x. f v = Some x \<Longrightarrow> f u = Some x)
   \<Longrightarrow> exclusive f (get (ins k v m))"
  unfolding get_ins by (rule exclusive_upd_same)

lemma exclusive_rem: "exclusive f (get m) \<Longrightarrow> exclusive f (get (rem k m))"
  unfolding get_rem by (erule exclusive_submap) (auto split: if_splits)

lemma rem_ins_fresh: "get m k = None \<Longrightarrow> get (rem k (ins k v m)) = get m"
  by (auto simp: get_ins get_rem)

lemma held_distinct:
  assumes "wf m" and "exclusive f (get m)"
  shows "distinct (List.map_filter (\<lambda>e. f (snd e)) (entries m))"
proof -
  have "distinct xs \<Longrightarrow> set xs \<subseteq> set (entries m) \<Longrightarrow>
        distinct (List.map_filter (\<lambda>e. f (snd e)) xs)" for xs
  proof (induction xs)
    case (Cons e es)
    have "e' = e" if "e' \<in> set es" "f (snd e') = Some x" "f (snd e) = Some x" for e' x
    proof -
      have "get m (fst e') = Some (snd e')" and "get m (fst e) = Some (snd e)"
        using that(1) Cons.prems(2) assms(1) by (auto simp: entry_iff[symmetric])
      with that assms(2) show ?thesis
        by (metis exclusiveD option.inject prod.collapse)
    qed
    then have "x \<notin> set (List.map_filter (\<lambda>e. f (snd e)) es)" if "f (snd e) = Some x" for x
      using that Cons.prems(1) by (auto simp: List.map_filter_def)
    with Cons show ?case
      by (simp add: List.map_filter_simps split: option.splits)
  qed (simp add: List.map_filter_def)
  moreover have "distinct (entries m)"
    using distinct_keys[OF assms(1)] by (simp add: distinct_map)
  ultimately show ?thesis by blast
qed

end

subsection \<open>The association list keeps the interface\<close>

lemma map_of_bm_insert [simp]: "map_of (bm_insert k v m) = (map_of m)(k \<mapsto> v)"
  by (induction k v m rule: bm_insert.induct) auto

lemma map_of_bm_remove [simp]: "map_of (bm_remove k m) = (map_of m)(k := None)"
  by (induction m) (auto simp: bm_remove_def)

lemma fst_set_bm_insert: "fst ` set (bm_insert k v m) = insert k (fst ` set m)"
  by (induction k v m rule: bm_insert.induct) auto

lemma bm_wf_insert [intro]: "bm_wf m \<Longrightarrow> bm_wf (bm_insert k v m)"
proof (induction k v m rule: bm_insert.induct)
  case (2 k v k' v' m)
  moreover have "\<forall>y \<in> fst ` set (bm_insert k v m). k' < y"
    if "k' < k" "\<forall>y \<in> fst ` set m. k' < y"
    using that by (simp add: fst_set_bm_insert)
  ultimately show ?case
    by (auto simp: bm_wf_def)
qed (simp add: bm_wf_def)

lemma bm_wf_remove [intro]: "bm_wf m \<Longrightarrow> bm_wf (bm_remove k m)"
  unfolding bm_wf_def bm_remove_def
  by (induction m) auto

lemma bm_wf_Nil [simp]: "bm_wf []"
  by (simp add: bm_wf_def)

interpretation bm: ordered_map map_of bm_insert bm_remove "\<lambda>m. m" bm_wf
proof unfold_locales
  show "bm_wf m \<Longrightarrow> sorted_wrt (<) (map fst m)" for m :: "('a, 'b) bmap"
    by (simp add: bm_wf_def)
qed (simp_all add: bm_wf_insert bm_wf_remove)

lemma bm_insert_absorb: "bm_wf m \<Longrightarrow> map_of m k = Some v \<Longrightarrow> bm_insert k v m = m"
proof (induction k v m rule: bm_insert.induct)
  case (2 k v k' v' m)
  have "k' < k" if "map_of m k = Some v"
    using that "2.prems"(1) map_of_SomeD[OF that] by (auto simp: bm_wf_def)
  with 2 show ?case
    by (auto simp: bm_wf_def split: if_splits)
qed simp

text \<open>Ordered maps with the same entries are the same list, so states compare by lookup.\<close>

lemma bm_eqI:
  assumes "bm_wf m" and "bm_wf n" and "map_of m = map_of n"
  shows "m = n"
proof -
  have "set m = set n"
    using assms by (auto simp: bm.entry_iff)
  moreover have "sorted (map fst m)" "sorted (map fst n)"
    using assms unfolding bm_wf_def by (simp_all add: strict_sorted_imp_sorted)
  moreover have "distinct (map fst m)" "distinct (map fst n)"
    using assms by (simp_all add: bm.distinct_keys)
  moreover from this have "inj_on fst (set m \<union> set n)"
    using \<open>set m = set n\<close> by (simp add: distinct_map)
  ultimately show ?thesis
    by (metis map_sorted_distinct_set_unique)
qed

end
