(* ===== verification/Image.thy ===== *)
theory Image
  imports
    Ordered_Map
begin

section \<open>Flattening an image's layers\<close>

text \<open>
  \<open>crates/cirro-image/src/lib.rs\<close>: the layers of an image, bottom first, become one tree; the tree, with
  the files every guest gets, becomes a tar in the order \<open>mke2fs\<close> unpacks it. A layer is the list of
  its tar entries (or the error of reading it); a tree is an ordered map from paths to entries. The
  lemmas say that \<open>apply\<close> does what the layer rules of the OCI image specification say, as a
  definition on maps that knows nothing of the order of paths, and that a directory is written
  before what is in it.
\<close>

datatype tar_kind =
    TRegular | TContinuous | TDirectory | TSymlink | TLink | TChar | TBlock | TFifo | TOther string

record source =
  src_layer :: nat
  src_kind :: tar_kind
  src_mode :: nat
  src_uid :: nat
  src_gid :: nat
  src_mtime :: nat
  src_data :: string
  src_link :: "string option"

type_synonym tree = "(string, source) bmap"

datatype image_error =
    NotUtf8 string
  | LeavesRoot string
  | Unsupported string tar_kind
  | Unreadable string
  | InLayer nat image_error
  | NotAFile string string

subsection \<open>Paths\<close>

definition continuation :: "char \<Rightarrow> nat \<Rightarrow> nat \<Rightarrow> bool" where
  "continuation c lo hi \<longleftrightarrow> lo \<le> (of_char c :: nat) \<and> (of_char c :: nat) \<le> hi"

text \<open>\<open>str::from_utf8\<close>: shortest encodings only, and no surrogates.\<close>

fun utf8 :: "string \<Rightarrow> bool" where
  "utf8 [] = True"
| "utf8 (a # s) =
     (let b = (of_char a :: nat)
      in if b < 0x80 then utf8 s
         else if 0xC2 \<le> b \<and> b \<le> 0xDF
           then (case s of c # t \<Rightarrow> continuation c 0x80 0xBF \<and> utf8 t | _ \<Rightarrow> False)
         else if 0xE0 \<le> b \<and> b \<le> 0xEF
           then (case s of
                   c # d # t \<Rightarrow>
                     continuation c (if b = 0xE0 then 0xA0 else 0x80) (if b = 0xED then 0x9F else 0xBF) \<and>
                     continuation d 0x80 0xBF \<and> utf8 t
                 | _ \<Rightarrow> False)
         else if 0xF0 \<le> b \<and> b \<le> 0xF4
           then (case s of
                   c # d # e # t \<Rightarrow>
                     continuation c (if b = 0xF0 then 0x90 else 0x80) (if b = 0xF4 then 0x8F else 0xBF) \<and>
                     continuation d 0x80 0xBF \<and> continuation e 0x80 0xBF \<and> utf8 t
                 | _ \<Rightarrow> False)
         else False)"

fun normal_parts :: "string \<Rightarrow> string list \<Rightarrow> image_error + string list" where
  "normal_parts path [] = Inr []"
| "normal_parts path (p # ps) =
     (if p = [] \<or> p = ''.'' then normal_parts path ps
      else if p = ''..'' then Inl (LeavesRoot path)
      else if \<not> utf8 p then Inl (NotUtf8 path)
      else bindr (normal_parts path ps) (\<lambda>qs. Inr (p # qs)))"

definition normalise :: "string \<Rightarrow> image_error + string" where
  "normalise path = bindr (normal_parts path (split_on CHR ''/'' path)) (\<lambda>parts. Inr (join_with ''/'' parts))"

definition split_path :: "string \<Rightarrow> string \<times> string" where
  "split_path path = (case rsplit_once CHR ''/'' path of Some dn \<Rightarrow> dn | None \<Rightarrow> ([], path))"

definition join_path :: "string \<Rightarrow> string \<Rightarrow> string" where
  "join_path dir name = (if dir = [] then name else dir @ ''/'' @ name)"

subsection \<open>The tree\<close>

definition remove_children :: "string \<Rightarrow> tree \<Rightarrow> tree" where
  "remove_children dir t =
     (if dir = [] then []
      else let p = dir @ ''/'';
               children = map fst (takeWhile (\<lambda>e. starts_with p (fst e)) (dropWhile (\<lambda>e. fst e < p) t))
           in fold bm_remove children t)"

definition remove_path :: "string \<Rightarrow> tree \<Rightarrow> tree" where
  "remove_path path t = remove_children path (bm_remove path t)"

definition opaque :: string where
  "opaque = ''.wh..wh..opq''"

definition apply_whiteout :: "string \<Rightarrow> tree \<Rightarrow> tree" where
  "apply_whiteout path t =
     (let (dir, name) = split_path path
      in if name = opaque then remove_children dir t
         else (case strip_prefix ''.wh.'' name of
                 Some hidden \<Rightarrow> remove_path (join_path dir hidden) t
               | None \<Rightarrow> t))"

definition supported :: "tar_kind \<Rightarrow> bool" where
  "supported k = (case k of TOther _ \<Rightarrow> False | _ \<Rightarrow> True)"

definition link_target :: "source \<Rightarrow> string" where
  "link_target s = (case src_link s of Some l \<Rightarrow> l | None \<Rightarrow> [])"

definition is_dir_at :: "tree \<Rightarrow> string \<Rightarrow> bool" where
  "is_dir_at t path = (case map_of t path of Some s \<Rightarrow> src_kind s = TDirectory | None \<Rightarrow> False)"

definition apply_entry :: "string \<Rightarrow> source \<Rightarrow> tree \<Rightarrow> image_error + tree" where
  "apply_entry path s t =
     (if starts_with ''.wh.'' (snd (split_path path)) then Inr t
      else if \<not> supported (src_kind s) then Inl (Unsupported path (src_kind s))
      else bindr (if src_kind s = TLink then bindr (normalise (link_target s)) (\<lambda>_. Inr ()) else Inr ()) (\<lambda>_.
        if path = [] then Inr t
        else Inr (bm_insert path s
                   (if src_kind s \<noteq> TDirectory \<or> \<not> is_dir_at t path then remove_children path t else t))))"

fun apply_entries :: "(string \<times> source) list \<Rightarrow> tree \<Rightarrow> image_error + tree" where
  "apply_entries [] t = Inr t"
| "apply_entries ((path, s) # es) t = bindr (apply_entry path s t) (apply_entries es)"

fun normal_entries :: "(string \<times> source) list \<Rightarrow> image_error + (string \<times> source) list" where
  "normal_entries [] = Inr []"
| "normal_entries ((raw, s) # es) =
     bindr (normalise raw) (\<lambda>path. bindr (normal_entries es) (\<lambda>rest. Inr ((path, s) # rest)))"

definition apply_layer :: "image_error + (string \<times> source) list \<Rightarrow> tree \<Rightarrow> image_error + tree" where
  "apply_layer layer t =
     bindr layer (\<lambda>raw.
     bindr (normal_entries raw) (\<lambda>entries.
     apply_entries entries (fold (\<lambda>(path, _). apply_whiteout path) entries t)))"

fun open_layers :: "nat \<Rightarrow> (image_error + (string \<times> source) list) list \<Rightarrow> tree \<Rightarrow> image_error + tree" where
  "open_layers i [] t = Inr t"
| "open_layers i (l # ls) t = bindr (map_err (InLayer (i + 1)) (apply_layer l t)) (open_layers (i + 1) ls)"

definition flattened_open :: "(image_error + (string \<times> source) list) list \<Rightarrow> image_error + tree" where
  "flattened_open layers = open_layers 0 layers []"

definition read_file :: "string \<Rightarrow> tree \<Rightarrow> string option" where
  "read_file path t =
     (case map_of t (trim_start_matches CHR ''/'' path) of
        Some s \<Rightarrow> if src_kind s = TRegular \<or> src_kind s = TContinuous then Some (src_data s) else None
      | None \<Rightarrow> None)"

subsection \<open>The layer rules\<close>

text \<open>What is below a directory, and what a whiteout of a layer hides, in maps from paths to entries.\<close>

definition below :: "string \<Rightarrow> string \<Rightarrow> bool" where
  "below d q \<longleftrightarrow> d = [] \<or> starts_with (d @ ''/'') q"

definition hidden_by :: "string \<Rightarrow> string \<Rightarrow> bool" where
  "hidden_by path q =
     (let (dir, name) = split_path path
      in if name = opaque then below dir q
         else (case strip_prefix ''.wh.'' name of
                 Some hidden \<Rightarrow> hidden \<noteq> [] \<and> (q = join_path dir hidden \<or> below (join_path dir hidden) q)
               | None \<Rightarrow> False))"

definition spec_entry :: "string \<times> source \<Rightarrow> (string \<rightharpoonup> source) \<Rightarrow> string \<rightharpoonup> source" where
  "spec_entry e m =
     (let (p, s) = e
      in if p = [] \<or> starts_with ''.wh.'' (snd (split_path p)) then m
         else (\<lambda>q. if q = p then Some s
                   else if below p q \<and> \<not> (src_kind s = TDirectory \<and> (\<exists>t. m p = Some t \<and> src_kind t = TDirectory)) then None
                   else m q))"

definition spec_layer :: "(string \<times> source) list \<Rightarrow> (string \<rightharpoonup> source) \<Rightarrow> string \<rightharpoonup> source" where
  "spec_layer entries m =
     fold spec_entry entries (\<lambda>q. if \<exists>e \<in> set entries. hidden_by (fst e) q then None else m q)"

subsection \<open>Removing what is below a directory\<close>

lemma prefix_between:
  fixes x y :: string
  assumes "p \<le> x" and "x \<le> y" and "starts_with p y"
  shows "starts_with p x"
  using assms
proof (induction p arbitrary: x y)
  case (Cons a p)
  then obtain y' where y: "y = a # y'" "starts_with p y'" by (cases y) (auto simp: starts_with_def)
  with Cons(2,3) obtain x' where x: "x = a # x'" "p \<le> x'" "x' \<le> y'"
    by (cases x) auto
  with Cons(1)[OF x(2,3) y(2)] show ?case by (simp add: starts_with_def)
qed (simp add: starts_with_def)

lemma starts_with_le: "starts_with p s \<Longrightarrow> p \<le> (s :: string)"
proof (induction p arbitrary: s)
  case (Cons a p)
  then show ?case by (cases s) (auto simp: starts_with_def)
qed simp

lemma take_prefixed:
  fixes t :: "(string \<times> 'v) list"
  assumes "sorted_wrt (<) (map fst t)" and "\<forall>e \<in> set t. p \<le> fst e"
  shows "takeWhile (\<lambda>e. starts_with p (fst e)) t = filter (\<lambda>e. starts_with p (fst e)) t"
  using assms
proof (induction t)
  case (Cons e t)
  have "filter (\<lambda>e. starts_with p (fst e)) t = []" if "\<not> starts_with p (fst e)"
    using that Cons(2,3) prefix_between[of p "fst e"] by (auto simp: filter_empty_conv dest: less_imp_le)
  with Cons show ?case by simp
qed simp

lemma children_filter:
  assumes "bm_wf t"
  shows "takeWhile (\<lambda>e. starts_with p (fst e)) (dropWhile (\<lambda>e. fst e < p) t) = filter (\<lambda>e. starts_with p (fst e)) t"
  using assms
proof (induction t)
  case (Cons e t)
  then have wf: "bm_wf t" by (simp add: bm_wf_def)
  show ?case
  proof (cases "fst e < p")
    case True
    then have "\<not> starts_with p (fst e)" using starts_with_le[of p "fst e"] by auto
    with True Cons(1)[OF wf] show ?thesis by simp
  next
    case False
    then have "\<forall>x \<in> set (e # t). p \<le> fst x" using Cons(2) by (fastforce simp: bm_wf_def)
    with Cons(2) have "takeWhile (\<lambda>e. starts_with p (fst e)) (e # t) = filter (\<lambda>e. starts_with p (fst e)) (e # t)"
      by (intro take_prefixed) (simp_all add: bm_wf_def)
    with False show ?thesis by simp
  qed
qed simp

lemma map_of_removes: "map_of (fold bm_remove ks t) q = (if q \<in> set ks then None else map_of t q)"
  by (induction ks arbitrary: t) auto

lemma bm_wf_removes: "bm_wf t \<Longrightarrow> bm_wf (fold bm_remove ks t)"
  by (induction ks arbitrary: t) auto

lemma map_of_remove_children:
  assumes "bm_wf t"
  shows "map_of (remove_children d t) = (\<lambda>q. if below d q then None else map_of t q)"
proof
  fix q
  show "map_of (remove_children d t) q = (if below d q then None else map_of t q)"
  proof (cases "d = []")
    case False
    have "q \<in> set (map fst (filter (\<lambda>e. starts_with (d @ ''/'') (fst e)) t)) \<longleftrightarrow> starts_with (d @ ''/'') q \<and> map_of t q \<noteq> None"
      by (force simp: map_of_eq_None_iff)
    with False show ?thesis
      by (auto simp: remove_children_def Let_def children_filter[OF assms] map_of_removes below_def)
  qed (simp add: remove_children_def below_def)
qed

lemma bm_wf_remove_children: "bm_wf t \<Longrightarrow> bm_wf (remove_children d t)"
  by (simp add: remove_children_def Let_def bm_wf_removes)

subsection \<open>Layers\<close>

text \<open>A whiteout that names nothing is none of the specification's.\<close>

definition bare :: "string \<Rightarrow> bool" where
  "bare path \<longleftrightarrow> snd (split_path path) = ''.wh.''"

lemma apply_whiteout_spec:
  assumes "bm_wf t" and "\<not> bare path"
  shows "map_of (apply_whiteout path t) = (\<lambda>q. if hidden_by path q then None else map_of t q)" and "bm_wf (apply_whiteout path t)"
proof -
  obtain dir name where sp: "split_path path = (dir, name)" by (cases "split_path path")
  have named: "strip_prefix ''.wh.'' name \<noteq> Some []"
    using assms(2) sp strip_prefix_eq_Some[of "''.wh.''" name "[]"] by (auto simp: bare_def)
  show "map_of (apply_whiteout path t) = (\<lambda>q. if hidden_by path q then None else map_of t q)" "bm_wf (apply_whiteout path t)"
    using assms(1) named
    by (auto simp: apply_whiteout_def hidden_by_def sp remove_path_def map_of_remove_children bm_wf_remove bm_wf_remove_children
        fun_eq_iff split: option.splits)
qed

lemma whiteouts_spec:
  assumes "bm_wf t" and "list_all (\<lambda>e. \<not> bare (fst e)) es"
  shows "map_of (fold (\<lambda>(path, _). apply_whiteout path) es t) = (\<lambda>q. if \<exists>e \<in> set es. hidden_by (fst e) q then None else map_of t q) \<and>
    bm_wf (fold (\<lambda>(path, _). apply_whiteout path) es t)"
  using assms
proof (induction es arbitrary: t)
  case (Cons e es)
  obtain p s where e: "e = (p, s)" by (cases e)
  with Cons(3) have p: "\<not> bare p" by simp
  from Cons(1)[OF apply_whiteout_spec(2)[OF Cons(2) p]] apply_whiteout_spec(1)[OF Cons(2) p] Cons(3)
  show ?case by (auto simp: e fun_eq_iff)
qed simp

lemma apply_entry_spec:
  assumes "apply_entry p s t = Inr t'" and "bm_wf t"
  shows "map_of t' = spec_entry (p, s) (map_of t) \<and> bm_wf t'"
proof -
  have dir: "is_dir_at t p \<longleftrightarrow> (\<exists>u. map_of t p = Some u \<and> src_kind u = TDirectory)"
    by (auto simp: is_dir_at_def split: option.splits)
  from assms show ?thesis
    by (auto simp: apply_entry_def spec_entry_def dir map_of_remove_children bm_wf_remove_children fun_eq_iff split: if_splits)
qed

lemma apply_entries_spec:
  assumes "apply_entries es t = Inr t'" and "bm_wf t"
  shows "map_of t' = fold spec_entry es (map_of t) \<and> bm_wf t'"
  using assms
proof (induction es arbitrary: t)
  case (Cons e es)
  obtain p s where e: "e = (p, s)" by (cases e)
  with Cons(2) obtain u where u: "apply_entry p s t = Inr u" "apply_entries es u = Inr t'" by auto
  with apply_entry_spec[OF u(1) Cons(3)] Cons(1)[OF u(2)] show ?case by (simp add: e)
qed simp

definition layer_entries :: "image_error + (string \<times> source) list \<Rightarrow> (string \<times> source) list" where
  "layer_entries layer = (case bindr layer normal_entries of Inr es \<Rightarrow> es | Inl _ \<Rightarrow> [])"

lemma apply_layer_spec:
  assumes "apply_layer l t = Inr t'" and "bm_wf t" and "list_all (\<lambda>e. \<not> bare (fst e)) (layer_entries l)"
  shows "map_of t' = spec_layer (layer_entries l) (map_of t) \<and> bm_wf t'"
proof -
  from assms(1) obtain raw es where es: "l = Inr raw" "normal_entries raw = Inr es"
    "apply_entries es (fold (\<lambda>(path, _). apply_whiteout path) es t) = Inr t'" by (auto simp: apply_layer_def)
  then have "layer_entries l = es" by (simp add: layer_entries_def)
  with apply_entries_spec[OF es(3)] whiteouts_spec[OF assms(2), of es] assms(3) show ?thesis by (simp add: spec_layer_def)
qed

lemma open_layers_spec:
  assumes "open_layers i ls t = Inr t'" and "bm_wf t" and "list_all (\<lambda>l. list_all (\<lambda>e. \<not> bare (fst e)) (layer_entries l)) ls"
  shows "map_of t' = fold (\<lambda>l. spec_layer (layer_entries l)) ls (map_of t) \<and> bm_wf t'"
  using assms
proof (induction ls arbitrary: i t)
  case (Cons l ls)
  then obtain u where u: "apply_layer l t = Inr u" "open_layers (i + 1) ls u = Inr t'" by auto
  with Cons apply_layer_spec[OF u(1)] show ?case by auto
qed simp


definition demo_source :: "tar_kind \<Rightarrow> source" where
  "demo_source k = \<lparr>src_layer = 0, src_kind = k, src_mode = 0, src_uid = 0, src_gid = 0, src_mtime = 0, src_data = ''x'', src_link = None\<rparr>"

definition demo_layers :: "(image_error + (string \<times> source) list) list" where
  "demo_layers =
     [Inr [(''./d/'', demo_source TDirectory), (''d/a'', demo_source TRegular), (''d/b'', demo_source TRegular)],
      Inr [(''d/.wh.a'', demo_source TRegular), (''/d/c'', demo_source TRegular)]]"


text \<open>A whiteout without a name, at the root, removes the whole image below its layer.\<close>

lemma bare_whiteout_clears: "apply_layer (Inr [(''.wh.'', s)]) t = Inr []"
  by (simp add: apply_layer_def normalise_def apply_whiteout_def remove_path_def remove_children_def split_path_def rsplit_once_def
      opaque_def strip_prefix_def starts_with_def join_path_def apply_entry_def)


subsection \<open>The tar\<close>

datatype image_entry = Layer source | Guest_file string nat | Dir_entry

definition RESOLV_CONF :: string where
  "RESOLV_CONF = ''nameserver 1.1.1.1'' @ [CHR 0x0A] @ ''nameserver 8.8.8.8'' @ [CHR 0x0A]"

definition HOSTS :: string where
  "HOSTS = ''127.0.0.1'' @ [CHR 0x09] @ ''localhost'' @ [CHR 0x0A] @ ''::1'' @ [CHR 0x09] @ ''localhost'' @ [CHR 0x0A]"

text \<open>\<open>entry(path).or_insert(Dir)\<close>, and the parents a path names: what stands before each of its slashes.\<close>

definition or_dir :: "string \<Rightarrow> (string, image_entry) bmap \<Rightarrow> (string, image_entry) bmap" where
  "or_dir path t = (if map_of t path = None then bm_insert path Dir_entry t else t)"

fun parents_of :: "string \<Rightarrow> string list" where
  "parents_of [] = []"
| "parents_of (c # s) = (if c = CHR ''/'' then [[]] else []) @ map ((#) c) (parents_of s)"

definition with_guest_files :: "string \<Rightarrow> tree \<Rightarrow> (string, image_entry) bmap" where
  "with_guest_files init t =
     (let u = map (\<lambda>(p, s). (p, Layer s)) t;
          u = bm_insert ''init'' (Guest_file init 493) u;
          u = bm_insert ''etc/resolv.conf'' (Guest_file RESOLV_CONF 420) u;
          u = bm_insert ''etc/hosts'' (Guest_file HOSTS 420) u;
          u = fold or_dir [''proc'', ''sys'', ''dev''] u
      in fold or_dir (concat (map (\<lambda>e. parents_of (fst e)) u)) u)"

text \<open>
  What \<open>write_tar\<close> writes, in its order: the owner, mode and time of a hard link are those of what it is linked to,
  and a link to anything but a file is an error.
\<close>

datatype tar_entry = Tar_dir | Tar_guest string nat | Tar_layer source | Tar_link source string

definition is_link :: "image_entry \<Rightarrow> bool" where
  "is_link e = (case e of Layer s \<Rightarrow> src_kind s = TLink | _ \<Rightarrow> False)"

definition tar_of :: "image_entry \<Rightarrow> tar_entry" where
  "tar_of e = (case e of Dir_entry \<Rightarrow> Tar_dir | Guest_file c m \<Rightarrow> Tar_guest c m
   | Layer s \<Rightarrow> Tar_layer (if src_kind s = TRegular \<or> src_kind s = TContinuous then s else s\<lparr>src_data := []\<rparr>))"

definition link_entry :: "(string, image_entry) bmap \<Rightarrow> string \<Rightarrow> source \<Rightarrow> image_error + tar_entry" where
  "link_entry t path s =
     bindr (normalise (link_target s)) (\<lambda>target.
     case map_of t target of
       Some (Layer u) \<Rightarrow> Inr (Tar_link (s\<lparr>src_mode := src_mode u, src_uid := src_uid u, src_gid := src_gid u, src_mtime := src_mtime u\<rparr>) target)
     | Some (Guest_file _ mode) \<Rightarrow> Inr (Tar_link (s\<lparr>src_mode := mode, src_uid := 0, src_gid := 0\<rparr>) target)
     | Some Dir_entry \<Rightarrow> Inl (NotAFile path target)
     | None \<Rightarrow> Inl (NotAFile path target))"

fun link_entries :: "(string, image_entry) bmap \<Rightarrow> (string \<times> image_entry) list \<Rightarrow> image_error + (string \<times> tar_entry) list" where
  "link_entries t [] = Inr []"
| "link_entries t ((path, e) # es) =
     (case e of
        Layer s \<Rightarrow> bindr (link_entry t path s) (\<lambda>x. bindr (link_entries t es) (\<lambda>xs. Inr ((path, x) # xs)))
      | _ \<Rightarrow> link_entries t es)"

definition write_tar :: "(string, image_entry) bmap \<Rightarrow> image_error + (string \<times> tar_entry) list" where
  "write_tar t =
     bindr (link_entries t (filter (\<lambda>e. is_link (snd e)) t)) (\<lambda>links.
     Inr (map (\<lambda>(p, e). (p, tar_of e)) (filter (\<lambda>e. \<not> is_link (snd e)) t) @ links))"

definition tar_bytes :: "(string, image_entry) bmap \<Rightarrow> nat" where
  "tar_bytes t =
     sum_list (map (\<lambda>(_, e). 4096 + (case e of
                                       Dir_entry \<Rightarrow> 0
                                     | Guest_file c _ \<Rightarrow> length c
                                     | Layer s \<Rightarrow> if src_kind s = TRegular \<or> src_kind s = TContinuous then length (src_data s) else 0)) t)"

lemma parents_of_iff: "d \<in> set (parents_of p) \<longleftrightarrow> (\<exists>s. p = d @ CHR ''/'' # s)"
proof (induction p arbitrary: d)
  case (Cons c p)
  show ?case
    by (cases d) (auto simp: Cons.IH image_iff)
qed simp

lemma bm_wf_or_dir [intro]: "bm_wf t \<Longrightarrow> bm_wf (or_dir d t)"
  by (auto simp: or_dir_def)

lemma or_dirs:
  "bm_wf t \<Longrightarrow> bm_wf (fold or_dir ds t) \<and>
   map_of (fold or_dir ds t) = (\<lambda>q. if map_of t q = None \<and> q \<in> set ds then Some Dir_entry else map_of t q)"
proof (induction ds arbitrary: t)
  case (Cons d ds)
  from Cons(1)[OF bm_wf_or_dir[OF Cons(2), of d]] show ?case by (auto simp: or_dir_def fun_eq_iff)
qed auto


lemma guest_tree:
  assumes "bm_wf t"
  shows "bm_wf (with_guest_files init t)"
    and "map_of (with_guest_files init t) ''init'' = Some (Guest_file init 493)"
    and "d \<in> set (parents_of p) \<Longrightarrow> map_of (with_guest_files init t) p \<noteq> None \<Longrightarrow> map_of (with_guest_files init t) d \<noteq> None"
    and "map_of t p = Some s \<Longrightarrow> p \<notin> {''init'', ''etc/resolv.conf'', ''etc/hosts''} \<Longrightarrow> map_of (with_guest_files init t) p = Some (Layer s)"
proof -
  define u0 where "u0 = map (\<lambda>(p, s). (p, Layer s)) t"
  define u1 where "u1 = fold or_dir [''proc'', ''sys'', ''dev'']
    (bm_insert ''etc/hosts'' (Guest_file HOSTS 420) (bm_insert ''etc/resolv.conf'' (Guest_file RESOLV_CONF 420) (bm_insert ''init'' (Guest_file init 493) u0)))"
  define ps where "ps = concat (map (\<lambda>e. parents_of (fst e)) u1)"
  have res: "with_guest_files init t = fold or_dir ps u1"
    by (simp add: with_guest_files_def Let_def u0_def u1_def ps_def)
  have u0: "bm_wf u0" "map_of u0 p = map_option Layer (map_of t p)" for p
    using assms by (auto simp: u0_def bm_wf_def map_of_map comp_def case_prod_beta)
  let ?u = "bm_insert ''etc/hosts'' (Guest_file HOSTS 420) (bm_insert ''etc/resolv.conf'' (Guest_file RESOLV_CONF 420) (bm_insert ''init'' (Guest_file init 493) u0))"
  have "bm_wf ?u" using u0(1) by auto
  note dirs = or_dirs[OF this, of "[''proc'', ''sys'', ''dev'']", folded u1_def]
  then have u1: "bm_wf u1" by simp
  note final = or_dirs[OF u1, of ps, folded res]
  show "bm_wf (with_guest_files init t)" using final by simp
  have m1: "map_of u1 ''init'' = Some (Guest_file init 493)"
    "map_of t p = Some s \<Longrightarrow> p \<notin> {''init'', ''etc/resolv.conf'', ''etc/hosts''} \<Longrightarrow> map_of u1 p = Some (Layer s)" for p s
    using dirs by (auto simp: u0)
  show "map_of (with_guest_files init t) ''init'' = Some (Guest_file init 493)" using final m1(1) by simp
  show "map_of t p = Some s \<Longrightarrow> p \<notin> {''init'', ''etc/resolv.conf'', ''etc/hosts''} \<Longrightarrow> map_of (with_guest_files init t) p = Some (Layer s)"
    using final m1(2) by simp
  assume d: "d \<in> set (parents_of p)" and "map_of (with_guest_files init t) p \<noteq> None"
  then have "map_of u1 p \<noteq> None \<or> p \<in> set ps" using final by (auto split: if_splits)
  then have "\<exists>q. map_of u1 q \<noteq> None \<and> d \<in> set (parents_of q)"
  proof
    assume "p \<in> set ps"
    then obtain q where q: "q \<in> fst ` set u1" "p \<in> set (parents_of q)" by (auto simp: ps_def)
    with d have "d \<in> set (parents_of q)" by (auto simp: parents_of_iff)
    with q show ?thesis by (force simp: map_of_eq_None_iff)
  qed (use d in blast)
  then obtain q where "q \<in> fst ` set u1" "d \<in> set (parents_of q)" by (auto simp: map_of_eq_None_iff)
  then have "d \<in> set ps" by (auto simp: ps_def)
  with final show "map_of (with_guest_files init t) d \<noteq> None" by auto
qed

lemma link_entries_paths: "link_entries t es = Inr xs \<Longrightarrow> (\<And>e. e \<in> set es \<Longrightarrow> is_link (snd e)) \<Longrightarrow> map fst xs = map fst es"
proof (induction es arbitrary: xs)
  case (Cons e es)
  obtain p x where e: "e = (p, x)" by (cases e)
  from Cons(3)[of e] obtain s where "x = Layer s" by (auto simp: e is_link_def split: image_entry.splits)
  with Cons show ?case by (auto simp: e)
qed simp

lemma bm_wf_filter: "bm_wf t \<Longrightarrow> bm_wf (filter P t)"
  unfolding bm_wf_def by (induction t) auto

lemma prefix_before:
  assumes "bm_wf u" and "(d, x) \<in> set u" and "(p, y) \<in> set u" and "p = d @ CHR ''/'' # s"
  shows "\<exists>us vs ws. u = us @ (d, x) # vs @ (p, y) # ws"
proof -
  have "d < p" unfolding assms(4) by (induction d) auto
  obtain us vs where u: "u = us @ (d, x) # vs" using assms(2) by (meson split_list)
  have "(p, y) \<notin> set us"
  proof
    assume "(p, y) \<in> set us"
    then have "p < d" using assms(1) by (auto simp: u bm_wf_def sorted_wrt_append)
    with \<open>d < p\<close> show False by simp
  qed
  moreover have "p \<noteq> d" using assms(4) by simp
  ultimately have "(p, y) \<in> set vs" using assms(3) by (auto simp: u)
  then show ?thesis using u by (metis split_list)
qed


lemma tar_paths:
  assumes "bm_wf u" and "link_entries u (filter (\<lambda>e. is_link (snd e)) u) = Inr ls"
    and "tar = map (\<lambda>(p, e). (p, tar_of e)) (filter (\<lambda>e. \<not> is_link (snd e)) u) @ ls"
  shows "distinct (map fst tar)" and "fst ` set tar = dom (map_of u)"
proof -
  have names: "map fst tar = map fst (filter (\<lambda>e. \<not> is_link (snd e)) u) @ map fst (filter (\<lambda>e. is_link (snd e)) u)"
    using link_entries_paths[OF assms(2)] by (simp add: assms(3) comp_def case_prod_unfold)
  have d: "distinct (map fst u)" using assms(1) by (simp add: bm.distinct_keys)
  then have "fst ` {e \<in> set u. \<not> is_link (snd e)} \<inter> fst ` {e \<in> set u. is_link (snd e)} = {}"
    by (auto dest: eq_key_imp_eq_value)
  with d show "distinct (map fst tar)" by (simp add: names distinct_map_filter)
  have "set (map fst tar) = fst ` set u" by (auto simp: names)
  then show "fst ` set tar = dom (map_of u)" by (simp add: dom_map_of_conv_image_fst)
qed


text \<open>The tar of an image has every path of the image and of the guest's files exactly once, guest-init as
  \<open>/init\<close>, the hard links after every other entry; and every parent of a path is in it, and comes before the path
  (unless the image itself has that parent as a hard link), so that unpacking never needs a directory that is not
  there yet.\<close>

theorem tar_in_extraction_order:
  assumes "bm_wf t" and "write_tar (with_guest_files init t) = Inr tar"
    and "map_of (with_guest_files init t) path = Some e" and "parent \<in> set (parents_of path)"
  shows "(''init'', Tar_guest init 493) \<in> set tar \<and>
    distinct (map fst tar) \<and> fst ` set tar = dom (map_of (with_guest_files init t)) \<and>
    (\<exists>fs ls. tar = fs @ ls \<and> map fst ls = map fst (filter (\<lambda>e. is_link (snd e)) (with_guest_files init t))) \<and>
    (\<exists>x. map_of (with_guest_files init t) parent = Some x \<and>
      (\<not> is_link x \<longrightarrow> (\<exists>us vs ws a b. tar = us @ (parent, a) # vs @ (path, b) # ws)))"
proof -
  let ?u = "with_guest_files init t"
  note wf = guest_tree(1)[OF assms(1), of init]
  let ?files = "filter (\<lambda>e. \<not> is_link (snd e)) ?u" and ?links = "filter (\<lambda>e. is_link (snd e)) ?u"
  from assms(2) obtain ls where ls: "link_entries ?u ?links = Inr ls"
    and tar: "tar = map (\<lambda>(p, e). (p, tar_of e)) ?files @ ls" by (auto simp: write_tar_def)
  have names: "map fst ls = map fst ?links" using link_entries_paths[OF ls] by simp
  have "(''init'', Guest_file init 493) \<in> set ?files"
    using guest_tree(2)[OF assms(1), of init] map_of_SomeD by (force simp: is_link_def)
  then have init: "(''init'', Tar_guest init 493) \<in> set tar" by (force simp: tar tar_of_def)
  obtain x where x: "map_of ?u parent = Some x" using guest_tree(3)[OF assms(1,4)] assms(3) by auto
  have "\<exists>us vs ws a b. tar = us @ (parent, a) # vs @ (path, b) # ws" if nl: "\<not> is_link x"
  proof (cases "is_link e")
    case True
    have "(parent, x) \<in> set ?files" using nl map_of_SomeD[OF x] by simp
    then obtain a where "(parent, a) \<in> set (map (\<lambda>(p, e). (p, tar_of e)) ?files)" by force
    moreover have "path \<in> set (map fst ls)" using True map_of_SomeD[OF assms(3)] by (force simp: names)
    then obtain b where "(path, b) \<in> set ls" by auto
    ultimately obtain us vs ws zs where "map (\<lambda>(p, e). (p, tar_of e)) ?files = us @ (parent, a) # vs" "ls = ws @ (path, b) # zs"
      by (meson split_list)
    then have "tar = us @ (parent, a) # (vs @ ws) @ (path, b) # zs" by (simp add: tar)
    then show ?thesis by blast
  next
    case False
    obtain s where "path = parent @ CHR ''/'' # s" using assms(4) by (auto simp: parents_of_iff)
    moreover have "bm_wf ?files" using wf by (rule bm_wf_filter)
    ultimately obtain us vs ws where "?files = us @ (parent, x) # vs @ (path, e) # ws"
      using prefix_before[of ?files parent x path e s] nl False map_of_SomeD[OF x] map_of_SomeD[OF assms(3)] by auto
    then have "tar = map (\<lambda>(p, e). (p, tar_of e)) us @ (parent, tar_of x) # map (\<lambda>(p, e). (p, tar_of e)) vs
        @ (path, tar_of e) # (map (\<lambda>(p, e). (p, tar_of e)) ws @ ls)" by (simp add: tar)
    then show ?thesis by blast
  qed
  moreover note tar_paths[OF wf ls tar]
  ultimately show ?thesis using init x tar names by blast
qed


theorem tar_in_extraction_order_witness:
  "\<exists>us vs ws a b tar. write_tar (with_guest_files ''i'' [(''d/a'', demo_source TRegular)]) = Inr tar \<and> tar = us @ (''d'', a) # vs @ (''d/a'', b) # ws"
proof -
  let ?t = "[(''d/a'', demo_source TRegular)]"
  have ev: "\<not> isl (write_tar (with_guest_files ''i'' ?t))" "map_of (with_guest_files ''i'' ?t) ''d/a'' = Some (Layer (demo_source TRegular))"
    "map_of (with_guest_files ''i'' ?t) ''d'' = Some Dir_entry" "''d'' \<in> set (parents_of ''d/a'')" "bm_wf ?t"
    by code_simp+
  obtain tar where tar: "write_tar (with_guest_files ''i'' ?t) = Inr tar"
    using ev(1) by (cases "write_tar (with_guest_files ''i'' ?t)") simp_all
  from tar_in_extraction_order[OF ev(5) tar ev(2,4)] ev(3) have "\<exists>us vs ws a b. tar = us @ (''d'', a) # vs @ (''d/a'', b) # ws"
    by (simp add: is_link_def)
  with tar show ?thesis by blast
qed

end
