(* ===== verification/Cache.thy ===== *)
theory Cache
  imports
    Image
    Launch
    "HOL-Library.Multiset"
    "HOL-Library.Product_Lexorder"
begin

section \<open>The image cache\<close>

text \<open>
  \<open>cirro-image\<close>'s \<open>cache.rs\<close>, and \<open>build_ext4\<close> of its \<open>lib.rs\<close>: images pulled from a registry and kept as one record and
  one root file system per manifest digest. The registry (through \<open>oci-client\<close>) and \<open>mke2fs\<close> are parameters. The
  directory is an ordered map from file names to contents; a record is what \<open>serde_json\<close> reads back of it. The
  lemmas say that whatever write fails an image that can be found is whole, that a pull moves its reference to
  the image it found and changes no other, and that a removal takes away one image or none.
\<close>

subsection \<open>Building a root file system\<close>

definition MIN_MKE2FS :: "u32 \<times> u32 \<times> u32" where
  "MIN_MKE2FS = (1, 47, 1)"

definition parse_mke2fs_version :: "string \<Rightarrow> (u32 \<times> u32 \<times> u32) option" where
  "parse_mke2fs_version text =
     (case lines text of
        [] \<Rightarrow> None
      | l # _ \<Rightarrow>
          (case split_whitespace l of
             _ # version # _ \<Rightarrow>
               (case split_on CHR ''.'' version of
                  major # minor # rest \<Rightarrow>
                    Option.bind (parse_word major) (\<lambda>major.
                    Option.bind (parse_word minor) (\<lambda>minor.
                    Option.bind (case rest of patch # _ \<Rightarrow> parse_word patch | [] \<Rightarrow> Some 0) (\<lambda>patch.
                    Some (major, minor, patch))))
                | _ \<Rightarrow> None)
           | _ \<Rightarrow> None))"

datatype build_error =
    No_mke2fs string
  | Old_mke2fs "(u32 \<times> u32 \<times> u32) option"
  | Tar_fails image_error
  | Tar_unwritten string
  | Create_fails string
  | Size_fails string
  | Mke2fs_fails string

text \<open>
  What \<open>mke2fs\<close> says of its version, the errors of writing the tar, of creating the file and of giving it its size, and
  what \<open>mke2fs\<close> makes of a tar and a size in bytes.
\<close>

record mke2fs =
  mk_version :: "string + string"
  mk_tar :: "string + unit"
  mk_create :: "string + unit"
  mk_set_len :: "string + unit"
  mk_run :: "(string \<times> tar_entry) list \<Rightarrow> nat \<Rightarrow> string + string"

definition check_mke2fs :: "mke2fs \<Rightarrow> build_error + unit" where
  "check_mke2fs mk =
     bindr (map_err No_mke2fs (mk_version mk)) (\<lambda>text.
     case parse_mke2fs_version text of
       Some version \<Rightarrow> check (MIN_MKE2FS \<le> version) (Old_mke2fs (Some version))
     | None \<Rightarrow> Inl (Old_mke2fs None))"

definition image_size :: "nat \<Rightarrow> nat" where
  "image_size bytes = max (bytes + bytes div 4) (2 ^ 26)"

definition build_ext4 :: "mke2fs \<Rightarrow> string \<Rightarrow> tree \<Rightarrow> build_error + string" where
  "build_ext4 mk init t =
     bindr (check_mke2fs mk) (\<lambda>_.
     let u = with_guest_files init t
     in bindr (map_err Tar_fails (write_tar u)) (\<lambda>tar.
        bindr (map_err Tar_unwritten (mk_tar mk)) (\<lambda>_.
        bindr (map_err Create_fails (mk_create mk)) (\<lambda>_.
        bindr (map_err Size_fails (mk_set_len mk)) (\<lambda>_.
        map_err Mke2fs_fails (mk_run mk tar (image_size (tar_bytes u))))))))"

subsection \<open>What a registry answers\<close>

text \<open>\<open>rf_text\<close> is what a reference is printed as, \<open>rf_whole\<close> what \<open>whole\<close> gives.\<close>

record reference =
  rf_text :: string
  rf_whole :: string
  rf_registry :: string
  rf_repository :: string
  rf_tag :: "string option"
  rf_digest :: "string option"

datatype oci_code = ManifestUnknown | Toomanyrequests | NameUnknown | Unauthorized | Denied | Other_code string

datatype oci_error = RegistryError "oci_code list" | ServerError nat | UnauthorizedError | Other_oci string

record oci_layer =
  ly_media_type :: string
  ly_digest :: string

record manifest =
  mf_config :: string
  mf_layers :: "oci_layer list"

record index_entry =
  ie_digest :: string
  ie_platform :: "(string \<times> string) option"

datatype oci_manifest = Image_manifest manifest | Image_index "index_entry list"

record image_config =
  ic_user :: "string option"
  ic_entrypoint :: "string list option"
  ic_cmd :: "string list option"
  ic_env :: "string list option"
  ic_working_dir :: "string option"

record config_file =
  cf_os :: string
  cf_architecture :: string
  cf_config :: "image_config option"

record registry =
  rg_parse :: "string \<Rightarrow> string + reference"
  rg_with_digest :: "reference \<Rightarrow> string \<Rightarrow> reference"
  rg_manifest :: "reference \<Rightarrow> oci_error + oci_manifest \<times> string"
  rg_resolver :: "index_entry list \<Rightarrow> string option"
  rg_config :: "reference \<Rightarrow> string \<Rightarrow> oci_error + string"
  rg_decode :: "string \<Rightarrow> string + config_file"
  rg_layer :: "reference \<Rightarrow> oci_layer \<Rightarrow> oci_error + string"
  rg_entries :: "string \<Rightarrow> image_error + (string \<times> source) list"

datatype cache_error =
    Bad_reference string string
  | No_manifest reference string
  | Limited reference bool
  | No_repository reference
  | Pull_error string oci_error
  | No_platform reference "string list"
  | Nested_index reference
  | Zstd reference
  | Bad_config reference string
  | Wrong_platform reference string
  | Bad_image image_error
  | Bad_user user_error
  | No_build build_error
  | Io_error string string
  | No_cached string
  | Ambiguous string "string list"
  | Vanished string

definition pull_error :: "reference \<Rightarrow> string \<Rightarrow> oci_error \<Rightarrow> cache_error" where
  "pull_error r what e =
     (let codes = (case e of RegistryError codes \<Rightarrow> codes | _ \<Rightarrow> [])
      in if ManifestUnknown \<in> set codes
         then No_manifest r (case rf_digest r of
                               Some digest \<Rightarrow> ''manifest '' @ digest
                             | None \<Rightarrow> ''tag '' @ (case rf_tag r of Some tag \<Rightarrow> tag | None \<Rightarrow> ''latest''))
         else if Toomanyrequests \<in> set codes \<or> e = ServerError 429 then Limited r (rf_registry r = ''docker.io'')
         else if e = UnauthorizedError \<or> NameUnknown \<in> set codes \<or> Unauthorized \<in> set codes \<or> Denied \<in> set codes
         then No_repository r
         else Pull_error what e)"

definition PLATFORM :: string where
  "PLATFORM = ''linux/amd64''"

definition platform :: "string \<Rightarrow> string \<Rightarrow> string" where
  "platform os architecture = os @ ''/'' @ architecture"

definition found_platforms :: "index_entry list \<Rightarrow> string list" where
  "found_platforms es =
     filter (\<lambda>p. p \<noteq> ''unknown/unknown'') (List.map_filter (\<lambda>e. map_option (\<lambda>(os, arch). platform os arch) (ie_platform e)) es)"

definition image_run_config :: "config_file \<Rightarrow> tree \<Rightarrow> user_error + run_config" where
  "image_run_config cf t =
     (case cf_config cf of
        None \<Rightarrow> Inr \<lparr>rc_entrypoint = [], rc_cmd = [], rc_env = [], rc_workdir = None, rc_user = None\<rparr>
      | Some config \<Rightarrow>
          bindr (resolve_user (case ic_user config of Some u \<Rightarrow> u | None \<Rightarrow> [])
                   (read_file ''/etc/passwd'' t) (read_file ''/etc/group'' t)) (\<lambda>user.
          Inr \<lparr>rc_entrypoint = (case ic_entrypoint config of Some x \<Rightarrow> x | None \<Rightarrow> []),
               rc_cmd = (case ic_cmd config of Some x \<Rightarrow> x | None \<Rightarrow> []),
               rc_env = (case ic_env config of Some x \<Rightarrow> x | None \<Rightarrow> []),
               rc_workdir = Option.bind (ic_working_dir config) (\<lambda>d. if d \<noteq> [] then Some d else None),
               rc_user = user\<rparr>))"

subsection \<open>The cache's directory\<close>

record image_record =
  ir_references :: "string list"
  ir_config :: run_config

text \<open>A pull's scratch directory, which no other operation looks at and which its end removes, is left out.\<close>

datatype cache_file = Record_file image_record | Rootfs_file string | Half_file

type_synonym cache_dir = "(string, cache_file) bmap"

record cached_image =
  ci_digest :: string
  ci_rootfs :: string
  ci_config :: run_config
  ci_references :: "string list"

definition cache_name :: "string \<Rightarrow> string \<Rightarrow> string" where
  "cache_name digest extension = map (\<lambda>c. if c = CHR '':'' then CHR ''-'' else c) digest @ ''.'' @ extension"

definition cached :: "cache_dir \<Rightarrow> string \<Rightarrow> cached_image option" where
  "cached dir digest =
     (case map_of dir (cache_name digest ''json'') of
        Some (Record_file r) \<Rightarrow>
          if map_of dir (cache_name digest ''ext4'') \<noteq> None
          then Some \<lparr>ci_digest = digest, ci_rootfs = cache_name digest ''ext4'', ci_config = ir_config r,
                     ci_references = ir_references r\<rparr>
          else None
      | _ \<Rightarrow> None)"

definition name_digest :: "string \<Rightarrow> string option" where
  "name_digest name =
     Option.bind (strip_suffix ''.json'' name) (\<lambda>stem.
     Option.bind (split_once CHR ''-'' stem) (\<lambda>(algorithm, hex). Some (algorithm @ '':'' @ hex)))"

definition found_images :: "cache_dir \<Rightarrow> cached_image list" where
  "found_images dir = List.map_filter (\<lambda>e. Option.bind (name_digest (fst e)) (cached dir)) dir"

text \<open>\<open>fails\<close> is the error of reading the directory, if there is one.\<close>

definition cache_list :: "string option \<Rightarrow> cache_dir \<Rightarrow> cache_error + cached_image list" where
  "cache_list fails dir =
     (case fails of
        Some e \<Rightarrow> Inl (Io_error ''read'' e)
      | None \<Rightarrow> Inr (sort_key (\<lambda>i. (ci_references i, ci_digest i)) (found_images dir)))"

text \<open>
  \<open>unique\<close> makes the name of a record that is being written; a write stops before the file is there, half-way or
  before it is renamed.
\<close>

datatype record_fault = No_file string | Half_written string | Not_renamed string

definition unique :: "nat \<Rightarrow> nat \<Rightarrow> string" where
  "unique pid n = decimal pid @ ''-'' @ decimal n"

definition write_record :: "string \<Rightarrow> record_fault option \<Rightarrow> cached_image \<Rightarrow> cache_dir \<Rightarrow> (cache_error + unit) \<times> cache_dir" where
  "write_record u fault i dir =
     (let path = cache_name (ci_digest i) ''json'';
          partial = cache_name (ci_digest i) (''json.'' @ u);
          r = Record_file \<lparr>ir_references = ci_references i, ir_config = ci_config i\<rparr>
      in case fault of
           Some (No_file e) \<Rightarrow> (Inl (Io_error path e), dir)
         | Some (Half_written e) \<Rightarrow> (Inl (Io_error path e), bm_insert partial Half_file dir)
         | Some (Not_renamed e) \<Rightarrow> (Inl (Io_error path e), bm_insert partial r dir)
         | None \<Rightarrow> (Inr (), bm_insert path r (bm_remove partial dir)))"

subsection \<open>Pulling\<close>

text \<open>
  What one command meets on the disk: errors of reading the directory, creating it or the scratch directory or a
  layer's file, \<open>mke2fs\<close>, where the write of each record stops, and errors of moving the root file system in and of
  removing a file.
\<close>

record disk =
  dk_pid :: nat
  dk_next :: "string \<Rightarrow> nat"
  dk_list :: "string option"
  dk_create :: "string option"
  dk_scratch :: "string option"
  dk_blob :: "nat \<Rightarrow> string option"
  dk_mke2fs :: mke2fs
  dk_init :: string
  dk_record :: "string \<Rightarrow> record_fault option"
  dk_move :: "string option"
  dk_remove :: "string \<Rightarrow> string option"

definition io :: "string \<Rightarrow> string option \<Rightarrow> cache_error + unit" where
  "io what e = (case e of None \<Rightarrow> Inr () | Some e \<Rightarrow> Inl (Io_error what e))"

text \<open>The digest a reference stands for, with its manifest unless an index named an image that is cached.\<close>

definition resolve_manifest :: "registry \<Rightarrow> cache_dir \<Rightarrow> reference \<Rightarrow> cache_error + string \<times> manifest option" where
  "resolve_manifest rg dir r =
     bindr (map_err (pull_error r (rf_text r)) (rg_manifest rg r)) (\<lambda>(m, digest).
     case m of
       Image_manifest mf \<Rightarrow> Inr (digest, Some mf)
     | Image_index es \<Rightarrow>
         (case rg_resolver rg es of
            None \<Rightarrow> Inl (No_platform r (found_platforms es))
          | Some digest \<Rightarrow>
              if cached dir digest \<noteq> None then Inr (digest, None)
              else
                let image = rg_with_digest rg r digest
                in (case rg_manifest rg image of
                      Inr (Image_manifest mf, _) \<Rightarrow> Inr (digest, Some mf)
                    | Inr (Image_index _, _) \<Rightarrow> Inl (Nested_index r)
                    | Inl e \<Rightarrow> Inl (pull_error r (rf_text image) e))))"

fun pull_layers ::
  "registry \<Rightarrow> disk \<Rightarrow> reference \<Rightarrow> nat \<Rightarrow> oci_layer list \<Rightarrow> cache_error + (image_error + (string \<times> source) list) list" where
  "pull_layers rg dk r i [] = Inr []"
| "pull_layers rg dk r i (l # ls) =
     bindr (io ''create'' (dk_blob dk i)) (\<lambda>_.
     bindr (map_err (pull_error r (rf_text r @ [CHR 0x27] @ ''s layer '' @ ly_digest l)) (rg_layer rg r l)) (\<lambda>blob.
     bindr (pull_layers rg dk r (i + 1) ls) (\<lambda>rest.
     Inr (rg_entries rg blob # rest))))"

definition build_image :: "registry \<Rightarrow> disk \<Rightarrow> reference \<Rightarrow> manifest \<Rightarrow> cache_error + run_config \<times> string" where
  "build_image rg dk r mf =
     bindr (check (\<not> list_ex (\<lambda>l. contains ''zstd'' (ly_media_type l)) (mf_layers mf)) (Zstd r)) (\<lambda>_.
     bindr (io ''create'' (dk_create dk)) (\<lambda>_.
     bindr (io ''create the pull's scratch dir'' (dk_scratch dk)) (\<lambda>_.
     bindr (map_err (pull_error r (rf_text r @ [CHR 0x27] @ ''s config'')) (rg_config rg r (mf_config mf))) (\<lambda>bytes.
     bindr (map_err (Bad_config r) (rg_decode rg bytes)) (\<lambda>cf.
     bindr (check (platform (cf_os cf) (cf_architecture cf) = PLATFORM)
              (Wrong_platform r (platform (cf_os cf) (cf_architecture cf)))) (\<lambda>_.
     bindr (pull_layers rg dk r 0 (mf_layers mf)) (\<lambda>layers.
     bindr (map_err Bad_image (flattened_open layers)) (\<lambda>flat.
     bindr (map_err Bad_user (image_run_config cf flat)) (\<lambda>config.
     bindr (map_err No_build (build_ext4 (dk_mke2fs dk) (dk_init dk) flat)) (\<lambda>built.
     Inr (config, built)))))))))))"

definition fetch :: "registry \<Rightarrow> disk \<Rightarrow> reference \<Rightarrow> cache_dir \<Rightarrow> (cache_error + string) \<times> cache_dir" where
  "fetch rg dk r dir =
     (case resolve_manifest rg dir r of
        Inl e \<Rightarrow> (Inl e, dir)
      | Inr (digest, None) \<Rightarrow> (Inr digest, dir)
      | Inr (digest, Some mf) \<Rightarrow>
          if cached dir digest \<noteq> None then (Inr digest, dir)
          else
            (case build_image rg dk r mf of
               Inl e \<Rightarrow> (Inl e, dir)
             | Inr (config, built) \<Rightarrow>
                 (case write_record (unique (dk_pid dk) (dk_next dk [])) (dk_record dk [])
                         \<lparr>ci_digest = digest, ci_rootfs = cache_name digest ''ext4'', ci_config = config, ci_references = []\<rparr> dir of
                    (Inl e, dir) \<Rightarrow> (Inl e, dir)
                  | (Inr _, dir) \<Rightarrow>
                      (case dk_move dk of
                         Some e \<Rightarrow> (Inl (Io_error (cache_name digest ''ext4'') e), dir)
                       | None \<Rightarrow> (Inr digest, bm_insert (cache_name digest ''ext4'') (Rootfs_file built) dir)))))"

definition new_references :: "string \<Rightarrow> string \<Rightarrow> cached_image \<Rightarrow> string list" where
  "new_references reference digest i =
     (let kept = filter (\<lambda>r. r \<noteq> reference) (ci_references i)
      in if ci_digest i = digest then sort (kept @ [reference]) else kept)"

fun remember_each :: "disk \<Rightarrow> string \<Rightarrow> string \<Rightarrow> cached_image list \<Rightarrow> cache_dir \<Rightarrow> (cache_error + unit) \<times> cache_dir" where
  "remember_each dk reference digest [] dir = (Inr (), dir)"
| "remember_each dk reference digest (i # is) dir =
     (let refs = new_references reference digest i
      in if length refs \<noteq> length (ci_references i) \<or> ci_digest i = digest
         then (case write_record (unique (dk_pid dk) (dk_next dk (ci_digest i))) (dk_record dk (ci_digest i))
                      (i\<lparr>ci_references := refs\<rparr>) dir of
                 (Inl e, dir) \<Rightarrow> (Inl e, dir)
               | (Inr _, dir) \<Rightarrow> remember_each dk reference digest is dir)
         else remember_each dk reference digest is dir)"

definition remember :: "disk \<Rightarrow> string \<Rightarrow> string \<Rightarrow> cache_dir \<Rightarrow> (cache_error + cached_image) \<times> cache_dir" where
  "remember dk reference digest dir =
     (case cache_list (dk_list dk) dir of
        Inl e \<Rightarrow> (Inl e, dir)
      | Inr images \<Rightarrow>
          (case remember_each dk reference digest images dir of
             (Inl e, dir) \<Rightarrow> (Inl e, dir)
           | (Inr _, dir) \<Rightarrow> (ok_or (Vanished digest) (cached dir digest), dir)))"

definition pull :: "registry \<Rightarrow> disk \<Rightarrow> string \<Rightarrow> cache_dir \<Rightarrow> (cache_error + cached_image) \<times> cache_dir" where
  "pull rg dk text dir =
     (case rg_parse rg text of
        Inl e \<Rightarrow> (Inl (Bad_reference text e), dir)
      | Inr r \<Rightarrow>
          (case fetch rg dk r dir of
             (Inl e, dir) \<Rightarrow> (Inl e, dir)
           | (Inr digest, dir) \<Rightarrow> remember dk (rf_whole r) digest dir))"

subsection \<open>Removing\<close>

definition is_ascii_hexdigit :: "char \<Rightarrow> bool" where
  "is_ascii_hexdigit c \<longleftrightarrow>
     is_ascii_digit c \<or> CHR ''a'' \<le> c \<and> c \<le> CHR ''f'' \<or> CHR ''A'' \<le> c \<and> c \<le> CHR ''F''"

definition names_image :: "string option \<Rightarrow> string \<Rightarrow> cached_image \<Rightarrow> bool" where
  "names_image reference image_text i \<longleftrightarrow>
     (case reference of Some r \<Rightarrow> r \<in> set (ci_references i) | None \<Rightarrow> False) \<or>
     (let hex = (case strip_prefix ''sha256:'' image_text of Some h \<Rightarrow> h | None \<Rightarrow> image_text)
      in 4 \<le> length hex \<and> list_all is_ascii_hexdigit hex \<and>
         (case strip_prefix ''sha256:'' (ci_digest i) of Some d \<Rightarrow> starts_with hex d | None \<Rightarrow> False))"

fun remove_files :: "disk \<Rightarrow> string list \<Rightarrow> cache_dir \<Rightarrow> (cache_error + unit) \<times> cache_dir" where
  "remove_files dk [] dir = (Inr (), dir)"
| "remove_files dk (p # ps) dir =
     (case dk_remove dk p of
        Some e \<Rightarrow> (Inl (Io_error p e), dir)
      | None \<Rightarrow> remove_files dk ps (bm_remove p dir))"

definition remove_image :: "registry \<Rightarrow> disk \<Rightarrow> string \<Rightarrow> cache_dir \<Rightarrow> (cache_error + cached_image) \<times> cache_dir" where
  "remove_image rg dk image_text dir =
     (case cache_list (dk_list dk) dir of
        Inl e \<Rightarrow> (Inl e, dir)
      | Inr images \<Rightarrow>
          let reference = (case rg_parse rg image_text of Inr r \<Rightarrow> Some (rf_whole r) | Inl _ \<Rightarrow> None)
          in (case filter (names_image reference image_text) images of
                [] \<Rightarrow> (Inl (No_cached image_text), dir)
              | [found] \<Rightarrow>
                  (case remove_files dk [ci_rootfs found, cache_name (ci_digest found) ''json''] dir of
                     (Inl e, dir) \<Rightarrow> (Inl e, dir)
                   | (Inr _, dir) \<Rightarrow> (Inr found, dir))
              | matches \<Rightarrow> (Inl (Ambiguous image_text (map ci_digest matches)), dir)))"

subsection \<open>Names of files\<close>

text \<open>A digest as OCI writes them, as far as it matters here: an algorithm, a colon and what follows.\<close>

definition digest_ok :: "string \<Rightarrow> bool" where
  "digest_ok d \<longleftrightarrow>
     (case split_once CHR '':'' d of Some (algorithm, hex) \<Rightarrow> CHR ''-'' \<notin> set algorithm \<and> CHR '':'' \<notin> set hex | None \<Rightarrow> False)"

definition cache_ok :: "cache_dir \<Rightarrow> bool" where
  "cache_ok dir \<longleftrightarrow> bm_wf dir \<and> (\<forall>n \<in> fst ` set dir. CHR '':'' \<notin> set n)"

lemma strip_suffix_append [simp]: "strip_suffix p (s @ p) = Some s"
  by (simp add: strip_suffix_def ends_with_def)

lemma strip_suffix_eq_Some: "strip_suffix p s = Some t \<longleftrightarrow> s = t @ p"
proof
  assume "strip_suffix p s = Some t"
  then obtain u where u: "rev s = rev p @ u" "t = take (length s - length p) s"
    by (auto simp: strip_suffix_def ends_with_def starts_with_iff split: if_splits)
  then have "s = rev u @ p" by (metis rev_append rev_rev_ident)
  then show "s = t @ p" using u(2) by simp
qed simp

lemma digest_okE:
  assumes "digest_ok d"
  obtains algorithm hex where "d = algorithm @ CHR '':'' # hex" "CHR ''-'' \<notin> set algorithm" "CHR '':'' \<notin> set algorithm"
    "CHR '':'' \<notin> set hex"
  using assms by (auto simp: digest_ok_def split_once_eq_Some split: option.split_asm prod.split_asm)

lemma cache_name_digest:
  "CHR '':'' \<notin> set algorithm \<Longrightarrow> CHR '':'' \<notin> set hex \<Longrightarrow>
     cache_name (algorithm @ CHR '':'' # hex) e = algorithm @ CHR ''-'' # hex @ ''.'' @ e"
  by (auto simp: cache_name_def intro!: map_idI)

lemma name_digest_cache_name:
  assumes "digest_ok d" shows "name_digest (cache_name d ''json'') = Some d"
proof -
  obtain a h where d: "d = a @ CHR '':'' # h" "CHR ''-'' \<notin> set a" "CHR '':'' \<notin> set a" "CHR '':'' \<notin> set h"
    using assms by (rule digest_okE)
  have "cache_name d ''json'' = (a @ CHR ''-'' # h) @ ''.json''" using d by (simp add: cache_name_digest)
  then show ?thesis using d by (simp add: name_digest_def del: append_assoc)
qed

lemma name_digestD:
  assumes "name_digest n = Some d" and "CHR '':'' \<notin> set n"
  shows "digest_ok d" and "cache_name d ''json'' = n"
proof -
  obtain stem a h where "strip_suffix ''.json'' n = Some stem" "split_once CHR ''-'' stem = Some (a, h)" "d = a @ '':'' @ h"
    using assms(1) by (auto simp: name_digest_def bind_eq_Some_conv)
  then have n: "n = a @ CHR ''-'' # h @ ''.json''" "CHR ''-'' \<notin> set a" and d: "d = a @ CHR '':'' # h"
    by (auto simp: strip_suffix_eq_Some split_once_eq_Some)
  have "CHR '':'' \<notin> set a" "CHR '':'' \<notin> set h" using assms(2) n(1) by auto
  then show "digest_ok d" "cache_name d ''json'' = n" using n d by (simp_all add: digest_ok_def cache_name_digest)
qed

lemma cache_name_eq:
  assumes "digest_ok d" and "digest_ok d'" and "length e = 4" and "length e' = 4"
  shows "cache_name d e = cache_name d' e' \<longleftrightarrow> d = d' \<and> e = e'"
proof
  assume eq: "cache_name d e = cache_name d' e'"
  let ?m = "map (\<lambda>c. if c = CHR '':'' then CHR ''-'' else c)"
  have "?m d @ ''.'' = ?m d' @ ''.'' \<and> e = e'"
    using eq assms(3,4) unfolding cache_name_def by (simp only: append_assoc[symmetric]) (rule append_eq_append_conv[THEN iffD1], simp_all)
  then have j: "cache_name d ''json'' = cache_name d' ''json''" and e: "e = e'" by (simp_all add: cache_name_def)
  have "Some d = Some d'"
    by (rule trans[OF name_digest_cache_name[OF assms(1), symmetric]], simp only: j, rule name_digest_cache_name[OF assms(2)])
  then show "d = d' \<and> e = e'" using e by simp
qed simp

lemma unique_shape:
  obtains x y zs where "rev (unique pid n) = x # y # zs" "is_ascii_digit x" "is_ascii_digit y \<or> y = CHR ''-''"
proof -
  have r: "rev (unique pid n) = rev (decimal n) @ CHR ''-'' # rev (decimal pid)" by (simp add: unique_def)
  obtain x xs where x: "rev (decimal n) = x # xs" using decimal_not_Nil[of n] by (cases "rev (decimal n)") auto
  have "set (x # xs) = set (decimal n)" using x by (metis set_rev)
  then have dig: "is_ascii_digit c" if "c \<in> set (x # xs)" for c using that decimal_set by simp
  show thesis
  proof (cases xs)
    case Nil
    then show ?thesis using that[of x "CHR ''-''"] r x dig by simp
  next
    case (Cons y ys)
    then show ?thesis using that[of x y] r x dig by simp
  qed
qed

lemma partial_name:
  "cache_name d (''json.'' @ unique pid n) \<noteq> cache_name d' ''json''" "cache_name d (''json.'' @ unique pid n) \<noteq> cache_name d' ''ext4''"
  "name_digest (cache_name d (''json.'' @ unique pid n)) = None" "CHR '':'' \<notin> set (cache_name d (''json.'' @ unique pid n))"
proof -
  obtain x y zs where u: "rev (unique pid n) = x # y # zs" "is_ascii_digit x" "is_ascii_digit y \<or> y = CHR ''-''"
    by (rule unique_shape)
  obtain t where t: "rev (cache_name d (''json.'' @ unique pid n)) = x # y # t" by (simp add: cache_name_def u(1))
  have no: "x \<noteq> CHR ''n''" "y \<noteq> CHR ''t''" using u(2,3) by (auto simp: is_ascii_digit_def char_le_iff)
  have "rev (cache_name d' ''json'') = CHR ''n'' # rev (cache_name d' ''jso'')" by (simp add: cache_name_def)
  then show "cache_name d (''json.'' @ unique pid n) \<noteq> cache_name d' ''json''" using t no(1) by (metis list.inject)
  have "rev (cache_name d' ''ext4'') = CHR ''4'' # CHR ''t'' # rev (cache_name d' ''ex'')" by (simp add: cache_name_def)
  then show "cache_name d (''json.'' @ unique pid n) \<noteq> cache_name d' ''ext4''" using t no(2) by (metis list.inject)
  show "name_digest (cache_name d (''json.'' @ unique pid n)) = None"
    using t no(1) by (simp add: name_digest_def strip_suffix_def ends_with_def starts_with_def)
  show "CHR '':'' \<notin> set (cache_name d (''json.'' @ unique pid n))"
    by (auto simp: cache_name_def unique_def dest: decimal_set simp: is_ascii_digit_def char_le_iff)
qed

lemma cache_name_plain: "CHR '':'' \<notin> set e \<Longrightarrow> CHR '':'' \<notin> set (cache_name d e)"
  by (auto simp: cache_name_def)

subsection \<open>What the cache has\<close>

lemma cached_digest: "cached dir d = Some i \<Longrightarrow> ci_digest i = d"
  by (auto simp: cached_def split: option.split_asm cache_file.split_asm if_splits)

lemma found_images_iff:
  assumes "cache_ok dir"
  shows "i \<in> set (found_images dir) \<longleftrightarrow> digest_ok (ci_digest i) \<and> cached dir (ci_digest i) = Some i"
proof
  assume "i \<in> set (found_images dir)"
  then obtain n d where n: "n \<in> fst ` set dir" "name_digest n = Some d" "cached dir d = Some i"
    by (force simp: found_images_def set_map_filter bind_eq_Some_conv)
  then show "digest_ok (ci_digest i) \<and> cached dir (ci_digest i) = Some i"
    using name_digestD(1)[OF n(2)] cached_digest[OF n(3)] assms by (auto simp: cache_ok_def)
next
  assume i: "digest_ok (ci_digest i) \<and> cached dir (ci_digest i) = Some i"
  then obtain v where "map_of dir (cache_name (ci_digest i) ''json'') = Some v"
    by (auto simp: cached_def split: option.split_asm)
  then have "(cache_name (ci_digest i) ''json'', v) \<in> set dir" by (rule map_of_SomeD)
  then show "i \<in> set (found_images dir)"
    using i name_digest_cache_name[of "ci_digest i"] by (force simp: found_images_def set_map_filter)
qed

lemma distinct_found_images:
  assumes "cache_ok dir" shows "distinct (map ci_digest (found_images dir))"
proof -
  let ?f = "\<lambda>e :: string \<times> cache_file. Option.bind (name_digest (fst e)) (cached dir)"
  have "distinct (map ci_digest (List.map_filter ?f es))"
    if "distinct (map fst es)" "\<forall>n \<in> fst ` set es. CHR '':'' \<notin> set n" for es
    using that
  proof (induction es)
    case (Cons e es)
    have "ci_digest i \<notin> ci_digest ` set (List.map_filter ?f es)" if i: "?f e = Some i" for i
    proof
      assume "ci_digest i \<in> ci_digest ` set (List.map_filter ?f es)"
      then obtain j e' where j: "e' \<in> set es" "?f e' = Some j" "ci_digest j = ci_digest i" by (auto simp: set_map_filter)
      have "name_digest (fst e) = Some (ci_digest i)" "name_digest (fst e') = Some (ci_digest i)"
        using i j cached_digest by (auto simp: bind_eq_Some_conv)
      then have "fst e = fst e'" using name_digestD(2) Cons.prems(2) j(1) by (metis image_eqI list.set_intros)
      then show False using Cons.prems(1) j(1) by auto
    qed
    then show ?case using Cons by (auto simp: List.map_filter_simps split: option.split)
  qed (simp add: List.map_filter_simps)
  moreover have "distinct (map fst dir)" using assms by (simp add: cache_ok_def bm.distinct_keys)
  ultimately show ?thesis using assms unfolding found_images_def cache_ok_def by blast
qed

lemma cached_cong:
  "map_of dir' (cache_name d ''json'') = map_of dir (cache_name d ''json'') \<Longrightarrow>
   map_of dir' (cache_name d ''ext4'') = map_of dir (cache_name d ''ext4'') \<Longrightarrow> cached dir' d = cached dir d"
  by (simp add: cached_def split: option.split cache_file.split)

lemma cache_ok_insert: "cache_ok dir \<Longrightarrow> CHR '':'' \<notin> set n \<Longrightarrow> cache_ok (bm_insert n f dir)"
  by (auto simp: cache_ok_def fst_set_bm_insert)

lemma cache_ok_remove: "cache_ok dir \<Longrightarrow> cache_ok (bm_remove n dir)"
  by (auto simp: cache_ok_def bm_remove_def intro: bm_wf_remove[unfolded bm_remove_def])

lemma write_record_files:
  assumes "write_record (unique pid n) fault i dir = (r, dir')" and "digest_ok (ci_digest i)" and "digest_ok d"
  shows "map_of dir' (cache_name d ''ext4'') = map_of dir (cache_name d ''ext4'')"
    and "map_of dir' (cache_name d ''json'') =
      (if r = Inr () \<and> d = ci_digest i then Some (Record_file \<lparr>ir_references = ci_references i, ir_config = ci_config i\<rparr>)
       else map_of dir (cache_name d ''json''))"
  using assms partial_name(1,2)[symmetric]
  by (auto simp: write_record_def Let_def cache_name_eq split: option.split_asm record_fault.split_asm)

lemma cached_write_record:
  assumes "write_record (unique pid n) fault i dir = (r, dir')" and "digest_ok (ci_digest i)" and "digest_ok d"
  shows "cached dir' d =
    (if r = Inr () \<and> d = ci_digest i
     then if map_of dir (cache_name d ''ext4'') = None then None else Some (i\<lparr>ci_rootfs := cache_name d ''ext4''\<rparr>)
     else cached dir d)"
proof (cases "r = Inr () \<and> d = ci_digest i")
  case True
  then show ?thesis using write_record_files[OF assms] by (cases i) (simp add: cached_def)
next
  case False
  then show ?thesis using write_record_files[OF assms] cached_cong[of dir' d dir] by auto
qed

lemma cachedD:
  "cached dir d = Some i \<Longrightarrow> ci_digest i = d \<and> ci_rootfs i = cache_name d ''ext4'' \<and> map_of dir (cache_name d ''ext4'') \<noteq> None \<and>
     map_of dir (cache_name d ''json'') = Some (Record_file \<lparr>ir_references = ci_references i, ir_config = ci_config i\<rparr>)"
  by (auto simp: cached_def split: option.split_asm cache_file.split_asm if_splits)

lemma write_record_ok:
  assumes "write_record (unique pid n) fault i dir = (r, dir')" and "cache_ok dir" shows "cache_ok dir'"
  using assms partial_name(4) cache_name_plain[of "''json''"]
  by (auto simp: write_record_def Let_def intro!: cache_ok_insert cache_ok_remove split: option.split_asm record_fault.split_asm)

subsection \<open>References\<close>

definition moved :: "string \<Rightarrow> string \<Rightarrow> cached_image \<Rightarrow> cached_image" where
  "moved reference digest i = i\<lparr>ci_references := new_references reference digest i\<rparr>"

lemma moved_same:
  assumes "length (new_references reference digest i) = length (ci_references i)" and "ci_digest i \<noteq> digest"
  shows "moved reference digest i = i"
proof -
  have "filter (\<lambda>r. r \<noteq> reference) (ci_references i) = ci_references i"
    using assms by (simp add: new_references_def) (metis filter_True length_filter_less nat_neq_iff)
  then show ?thesis using assms(2) by (simp add: moved_def new_references_def)
qed

lemma remember_each_moves:
  assumes "remember_each dk reference digest is dir = (Inr (), dir')" and "distinct (map ci_digest is)"
    and "\<forall>i \<in> set is. digest_ok (ci_digest i) \<and> cached dir (ci_digest i) = Some i" and "digest_ok d"
  shows "cached dir' d = (if d \<in> ci_digest ` set is then map_option (moved reference digest) (cached dir d) else cached dir d)"
  using assms
proof (induction "is" arbitrary: dir)
  case (Cons i "is")
  let ?i = "moved reference digest i"
  have i: "digest_ok (ci_digest i)" "cached dir (ci_digest i) = Some i" using Cons.prems(3) by auto
  have "\<exists>dir1. remember_each dk reference digest is dir1 = (Inr (), dir') \<and>
      (\<forall>e. digest_ok e \<longrightarrow> cached dir1 e = (if e = ci_digest i then Some ?i else cached dir e))"
  proof (cases "length (new_references reference digest i) \<noteq> length (ci_references i) \<or> ci_digest i = digest")
    case True
    obtain r dir1 where w: "write_record (unique (dk_pid dk) (dk_next dk (ci_digest i))) (dk_record dk (ci_digest i)) ?i dir = (r, dir1)"
      by fastforce
    then have r: "r = Inr ()" "remember_each dk reference digest is dir1 = (Inr (), dir')"
      using Cons.prems(1) True by (auto simp: moved_def Let_def split: sum.split_asm)
    have d: "ci_digest ?i = ci_digest i" "ci_rootfs ?i = ci_rootfs i" by (simp_all add: moved_def)
    then have i': "digest_ok (ci_digest ?i)" "?i\<lparr>ci_rootfs := cache_name (ci_digest i) ''ext4''\<rparr> = ?i"
      using i(1) cachedD[OF i(2)] by (simp, metis (no_types, lifting) cached_image.surjective cached_image.update_convs(2) d(2))
    have "cached dir1 e = (if e = ci_digest i then Some ?i else cached dir e)" if "digest_ok e" for e
      using cached_write_record[OF w i'(1) that] cachedD[OF i(2)] r(1) d(1) i'(2) by auto
    then show ?thesis using r(2) by blast
  next
    case False
    then show ?thesis using Cons.prems(1) moved_same[of reference digest i] i(2) by (intro exI[of _ dir]) (simp add: Let_def)
  qed
  then obtain dir1 where run: "remember_each dk reference digest is dir1 = (Inr (), dir')"
    and c: "\<And>e. digest_ok e \<Longrightarrow> cached dir1 e = (if e = ci_digest i then Some ?i else cached dir e)" by blast
  have other: "\<forall>j \<in> set is. digest_ok (ci_digest j) \<and> cached dir1 (ci_digest j) = Some j"
    using Cons.prems(2,3) c by (auto simp: image_iff)
  have "ci_digest i \<notin> ci_digest ` set is" using Cons.prems(2) by simp
  then show ?case using Cons.IH[OF run _ other Cons.prems(4)] Cons.prems(2) c[OF Cons.prems(4)] i(2) by auto
qed simp

lemma cache_list_found:
  assumes "cache_list fails dir = Inr images" and "cache_ok dir"
  shows "set images = set (found_images dir)" "distinct (map ci_digest images)"
proof -
  have images: "images = sort_key (\<lambda>i. (ci_references i, ci_digest i)) (found_images dir)"
    using assms(1) by (simp add: cache_list_def split: option.split_asm)
  show set: "set images = set (found_images dir)" by (simp add: images)
  have "mset (map ci_digest images) = mset (map ci_digest (found_images dir))" by (simp add: images mset_map)
  then show "distinct (map ci_digest images)" using distinct_found_images[OF assms(2)] mset_eq_imp_distinct_iff by blast
qed

lemma remember_moves:
  assumes "remember dk reference digest dir = (Inr img, dir')" and "cache_ok dir" and "digest_ok digest" and "digest_ok d"
  shows "cached dir' d = map_option (moved reference digest) (cached dir d)" and "cached dir' digest = Some img"
proof -
  obtain images where images: "cache_list (dk_list dk) dir = Inr images"
    and run: "remember_each dk reference digest images dir = (Inr (), dir')" and img: "cached dir' digest = Some img"
    using assms(1) by (auto simp: remember_def ok_or_def split: sum.split_asm prod.split_asm option.split_asm)
  note l = cache_list_found[OF images assms(2)]
  have "\<forall>i \<in> set images. digest_ok (ci_digest i) \<and> cached dir (ci_digest i) = Some i"
    using l(1) found_images_iff[OF assms(2)] by simp
  note m = remember_each_moves[OF run l(2) this assms(4)]
  have none: "cached dir d = None" if "d \<notin> ci_digest ` set images"
  proof (rule ccontr)
    assume "cached dir d \<noteq> None"
    then obtain i where i: "cached dir d = Some i" by blast
    then have "i \<in> set images" using found_images_iff[OF assms(2), of i] assms(4) cached_digest[OF i] l(1) by simp
    then show False using that cached_digest[OF i] by blast
  qed
  show "cached dir' d = map_option (moved reference digest) (cached dir d)"
    by (cases "d \<in> ci_digest ` set images") (simp_all add: m none)
  show "cached dir' digest = Some img" by (rule img)
qed

subsection \<open>Every operation keeps the directory in order\<close>

lemma remember_each_ok: "remember_each dk reference digest is dir = (r, dir') \<Longrightarrow> cache_ok dir \<Longrightarrow> cache_ok dir'"
proof (induction "is" arbitrary: dir)
  case (Cons i "is")
  then show ?case using write_record_ok
    by (auto simp: Let_def split: if_splits prod.split_asm sum.split_asm)
qed simp

lemma remember_ok: "remember dk reference digest dir = (r, dir') \<Longrightarrow> cache_ok dir \<Longrightarrow> cache_ok dir'"
  using remember_each_ok by (auto simp: remember_def split: sum.split_asm prod.split_asm)

lemma fetch_ok: "fetch rg dk rf dir = (r, dir') \<Longrightarrow> cache_ok dir \<Longrightarrow> cache_ok dir'"
  using write_record_ok cache_name_plain[of "''ext4''"]
  by (auto simp: fetch_def intro!: cache_ok_insert split: sum.split_asm prod.split_asm option.split_asm if_splits)

lemma pull_ok: "pull rg dk text dir = (r, dir') \<Longrightarrow> cache_ok dir \<Longrightarrow> cache_ok dir'"
  using fetch_ok remember_ok by (auto simp: pull_def split: sum.split_asm prod.split_asm)

lemma remove_files_ok: "remove_files dk ps dir = (r, dir') \<Longrightarrow> cache_ok dir \<Longrightarrow> cache_ok dir'"
  by (induction ps arbitrary: dir) (auto intro: cache_ok_remove split: option.split_asm)

lemma remove_image_ok: "remove_image rg dk text dir = (r, dir') \<Longrightarrow> cache_ok dir \<Longrightarrow> cache_ok dir'"
  using remove_files_ok
  by (auto simp: remove_image_def Let_def simp del: remove_files.simps split: sum.split_asm prod.split_asm list.split_asm)

subsection \<open>What a pull does\<close>

text \<open>The digests of a registry are those of \<open>sha256\<close> and \<open>sha512\<close>, the algorithms registered for them.\<close>

definition registry_ok :: "registry \<Rightarrow> bool" where
  "registry_ok rg \<longleftrightarrow>
     (\<forall>r m d. rg_manifest rg r = Inr (m, d) \<longrightarrow> digest_ok d) \<and> (\<forall>es d. rg_resolver rg es = Some d \<longrightarrow> digest_ok d)"

lemma resolve_manifest_digest:
  assumes "resolve_manifest rg dir r = Inr (d, m)" and "registry_ok rg"
  shows "digest_ok d" and "m = None \<Longrightarrow> cached dir d \<noteq> None"
proof -
  obtain a d0 where first: "rg_manifest rg r = Inr (a, d0)"
    using assms(1) by (cases "rg_manifest rg r") (auto simp: resolve_manifest_def)
  have "digest_ok d \<and> (m = None \<longrightarrow> cached dir d \<noteq> None)"
  proof (cases a)
    case (Image_manifest mf)
    then show ?thesis using assms first by (auto simp: resolve_manifest_def registry_ok_def)
  next
    case (Image_index es)
    then obtain d1 where d1: "rg_resolver rg es = Some d1" using assms(1) first by (auto simp: resolve_manifest_def split: option.split_asm)
    then have "digest_ok d1" using assms(2) unfolding registry_ok_def by blast
    then show ?thesis using assms(1) first Image_index d1
      by (auto simp: resolve_manifest_def Let_def split: if_splits sum.split_asm oci_manifest.split_asm prod.split_asm)
  qed
  then show "digest_ok d" "m = None \<Longrightarrow> cached dir d \<noteq> None" by auto
qed

lemma cached_move_in:
  assumes "digest_ok d" and "digest_ok e"
  shows "cached (bm_insert (cache_name d ''ext4'') f dir) e =
    (if e = d then (case map_of dir (cache_name d ''json'') of
        Some (Record_file r) \<Rightarrow> Some \<lparr>ci_digest = d, ci_rootfs = cache_name d ''ext4'', ci_config = ir_config r,
          ci_references = ir_references r\<rparr>
      | _ \<Rightarrow> None) else cached dir e)"
  using assms by (simp add: cached_def cache_name_eq split: option.split cache_file.split)

lemma fetch_cases:
  assumes "fetch rg dk r dir = (res, dir')"
  obtains (none) "dir' = dir" "\<And>d. res = Inr d \<Longrightarrow> cached dir d \<noteq> None \<or> (\<exists>m. resolve_manifest rg dir r = Inr (d, m) \<and> m = None)"
    "\<And>d. res = Inr d \<Longrightarrow> \<exists>m. resolve_manifest rg dir r = Inr (d, m)"
  | (built) d mf c b w dir1 where "resolve_manifest rg dir r = Inr (d, Some mf)" "cached dir d = None"
      "build_image rg dk r mf = Inr (c, b)"
      "write_record (unique (dk_pid dk) (dk_next dk [])) (dk_record dk [])
         \<lparr>ci_digest = d, ci_rootfs = cache_name d ''ext4'', ci_config = c, ci_references = []\<rparr> dir = (w, dir1)"
      "w = Inr () \<and> dk_move dk = None \<and> res = Inr d \<and> dir' = bm_insert (cache_name d ''ext4'') (Rootfs_file b) dir1 \<or>
       (w \<noteq> Inr () \<or> dk_move dk \<noteq> None) \<and> (\<exists>e. res = Inl e) \<and> dir' = dir1"
  using assms by (auto simp: fetch_def split: sum.split_asm prod.split_asm option.split_asm if_splits)

lemma fetch_adds:
  assumes "fetch rg dk r dir = (Inr digest, dir')" and "registry_ok rg"
  shows "digest_ok digest" and "cached dir' digest \<noteq> None" and "digest_ok d \<Longrightarrow> d \<noteq> digest \<Longrightarrow> cached dir' d = cached dir d"
    and "cached dir digest \<noteq> None \<Longrightarrow> dir' = dir"
proof -
  have "digest_ok digest \<and> cached dir' digest \<noteq> None \<and> (digest_ok d \<longrightarrow> d \<noteq> digest \<longrightarrow> cached dir' d = cached dir d) \<and>
    (cached dir digest \<noteq> None \<longrightarrow> dir' = dir)"
    using assms(1)
  proof (cases rule: fetch_cases)
    case none
    obtain m where m: "resolve_manifest rg dir r = Inr (digest, m)" using none(3) by blast
    have "cached dir digest \<noteq> None" using none(2) resolve_manifest_digest(2)[OF m assms(2)] m by auto
    then show ?thesis using none(1) resolve_manifest_digest(1)[OF m assms(2)] by simp
  next
    case (built d' mf c b w dir1)
    then have d: "d' = digest" "w = Inr ()" "dir' = bm_insert (cache_name digest ''ext4'') (Rootfs_file b) dir1" by auto
    have ok: "digest_ok digest" using resolve_manifest_digest(1)[OF built(1) assms(2)] d(1) by simp
    note wr = write_record_files[OF built(4)] cached_write_record[OF built(4)]
    have "cached dir' digest \<noteq> None" using wr(2)[of digest] ok by (simp add: d cached_move_in)
    moreover have "cached dir' d = cached dir d" if "digest_ok d" "d \<noteq> digest"
      using wr(3)[of d] that ok by (simp add: d cached_move_in)
    ultimately show ?thesis using ok built(2) d(1) by simp
  qed
  then show "digest_ok digest" "cached dir' digest \<noteq> None" "digest_ok d \<Longrightarrow> d \<noteq> digest \<Longrightarrow> cached dir' d = cached dir d"
    "cached dir digest \<noteq> None \<Longrightarrow> dir' = dir" by auto
qed

lemma remember_each_works:
  assumes "dk_record dk = (\<lambda>_. None)" shows "\<exists>dir'. remember_each dk reference digest is dir = (Inr (), dir')"
  by (induction "is" arbitrary: dir) (simp_all add: assms write_record_def Let_def)

text \<open>A pull works whenever the registry has the image, it can be built unless it is cached, and no write fails.\<close>

lemma pull_works:
  assumes "registry_ok rg" and "cache_ok dir" and "rg_parse rg text = Inr r" and "resolve_manifest rg dir r = Inr (d, m)"
    and "\<And>mf. m = Some mf \<Longrightarrow> cached dir d = None \<Longrightarrow> \<exists>c b. build_image rg dk r mf = Inr (c, b)"
    and disk: "dk_list dk = None" "dk_record dk = (\<lambda>_. None)" "dk_move dk = None"
  shows "\<exists>img dir'. pull rg dk text dir = (Inr img, dir') \<and> ci_digest img = d"
proof -
  obtain dir1 where f: "fetch rg dk r dir = (Inr d, dir1)"
  proof (cases "m = None \<or> cached dir d \<noteq> None")
    case True
    then show thesis using that[of dir] assms(4) by (auto simp: fetch_def split: option.split)
  next
    case False
    then obtain mf c b where "m = Some mf" "build_image rg dk r mf = Inr (c, b)" using assms(5) by (cases m) auto
    then show thesis using that assms(4) False disk by (simp add: fetch_def write_record_def Let_def)
  qed
  note fa = fetch_adds[OF f assms(1)]
  have ok1: "cache_ok dir1" by (rule fetch_ok[OF f assms(2)])
  obtain images where images: "cache_list (dk_list dk) dir1 = Inr images" using disk(1) by (simp add: cache_list_def)
  obtain dir' where run: "remember_each dk (rf_whole r) d images dir1 = (Inr (), dir')" using remember_each_works[OF disk(2)] by blast
  note l = cache_list_found[OF images ok1]
  have "\<forall>i \<in> set images. digest_ok (ci_digest i) \<and> cached dir1 (ci_digest i) = Some i" using l(1) found_images_iff[OF ok1] by simp
  then have "cached dir' d \<noteq> None" using remember_each_moves[OF run l(2) _ fa(1)] fa(2) by simp
  then obtain img where "cached dir' d = Some img" by blast
  then show ?thesis using assms(3) f images run cached_digest by (auto simp: pull_def remember_def)
qed

text \<open>C16: a pull that works gives the image the registry's reference stands for, now cached under that reference; every other
  image stays cached as it was, except that none but this one has the reference any more, and an image that was
  cached already keeps its configuration and its other references.\<close>

theorem pull_moves_reference:
  assumes "registry_ok rg" and "cache_ok dir" and "rg_parse rg text = Inr r" and "pull rg dk text dir = (Inr img, dir')"
  shows "digest_ok (ci_digest img) \<and> cached dir' (ci_digest img) = Some img \<and> rf_whole r \<in> set (ci_references img) \<and>
    (\<forall>d. digest_ok d \<and> d \<noteq> ci_digest img \<longrightarrow>
       cached dir' d = map_option (\<lambda>i. i\<lparr>ci_references := filter (\<lambda>x. x \<noteq> rf_whole r) (ci_references i)\<rparr>) (cached dir d)) \<and>
    (\<forall>i. cached dir (ci_digest img) = Some i \<longrightarrow>
       ci_config img = ci_config i \<and> set (ci_references img) = insert (rf_whole r) (set (ci_references i)))"
proof -
  obtain digest dir1 where f: "fetch rg dk r dir = (Inr digest, dir1)" and rem: "remember dk (rf_whole r) digest dir1 = (Inr img, dir')"
    using assms(3,4) by (auto simp: pull_def split: sum.split_asm prod.split_asm)
  note fa = fetch_adds[OF f assms(1)]
  have ok1: "cache_ok dir1" using fetch_ok[OF f assms(2)] .
  note rm = remember_moves[OF rem ok1 fa(1)]
  have img: "cached dir' digest = Some img" "ci_digest img = digest" using rm(2)[OF fa(1)] cached_digest by auto
  obtain j where j: "cached dir1 digest = Some j" "img = moved (rf_whole r) digest j" using rm(1)[OF fa(1)] img(1)
    by (cases "cached dir1 digest") auto
  have j': "ci_digest j = digest" using cached_digest[OF j(1)] .
  have other: "cached dir' d = map_option (\<lambda>i. i\<lparr>ci_references := filter (\<lambda>x. x \<noteq> rf_whole r) (ci_references i)\<rparr>) (cached dir d)"
    if "digest_ok d" "d \<noteq> digest" for d
    using rm(1)[OF that(1)] fa(3)[OF that] that(2) cached_digest[of dir d]
    by (cases "cached dir d") (auto simp: moved_def new_references_def)
  have same: "ci_config img = ci_config i \<and> set (ci_references img) = insert (rf_whole r) (set (ci_references i))"
    if "cached dir digest = Some i" for i
    using fa(4) that j j' by (auto simp: moved_def new_references_def)
  have "rf_whole r \<in> set (ci_references img)" using j(2) j' by (simp add: moved_def new_references_def)
  then show ?thesis using fa(1) img other same by simp
qed

subsection \<open>What a removal does\<close>

lemma cached_remove:
  assumes "digest_ok d" and "digest_ok e"
  shows "cached (bm_remove (cache_name d ''ext4'') dir) e = (if e = d then None else cached dir e)"
    and "cached (bm_remove (cache_name d ''json'') dir) e = (if e = d then None else cached dir e)"
  using assms by (simp_all add: cached_def cache_name_eq split: option.split cache_file.split)

lemma singleton_list: "distinct xs \<Longrightarrow> set xs = {x} \<Longrightarrow> xs = [x]"
  by (cases xs; cases "tl xs") auto

text \<open>C17: \<open>cirro image rm\<close> removes the image its argument names, as a reference or by the start of its digest, if that is one, and
  never another: an argument that names none or several is refused and changes nothing, and even when a file can't
  be removed no other image is touched.\<close>

theorem remove_takes_one_image:
  assumes "cache_ok dir" and "remove_image rg dk text dir = (res, dir')" and "dk_list dk = None"
  shows "let reference = (case rg_parse rg text of Inr r \<Rightarrow> Some (rf_whole r) | Inl _ \<Rightarrow> None);
             named = {i. digest_ok (ci_digest i) \<and> cached dir (ci_digest i) = Some i \<and> names_image reference text i}
    in (\<exists>i. named = {i} \<and> (\<forall>d. digest_ok d \<and> d \<noteq> ci_digest i \<longrightarrow> cached dir' d = cached dir d) \<and>
          (res = Inr i \<and> cached dir' (ci_digest i) = None \<or> (\<exists>e. res = Inl e) \<and> cached dir' (ci_digest i) \<in> {None, Some i})) \<or>
       (\<nexists>i. named = {i}) \<and> (\<exists>e. res = Inl e) \<and> dir' = dir"
proof -
  let ?ref = "case rg_parse rg text of Inr r \<Rightarrow> Some (rf_whole r) | Inl _ \<Rightarrow> None"
  let ?named = "{i. digest_ok (ci_digest i) \<and> cached dir (ci_digest i) = Some i \<and> names_image ?ref text i}"
  obtain images where images: "cache_list (dk_list dk) dir = Inr images" using assms(3) by (simp add: cache_list_def)
  let ?m = "filter (names_image ?ref text) images"
  note l = cache_list_found[OF images assms(1)]
  have set: "set ?m = ?named" using l(1) found_images_iff[OF assms(1)] by auto
  have dist: "distinct ?m" using l(2) by (simp add: distinct_map)
  show ?thesis
  proof (cases "\<exists>i. ?m = [i]")
    case True
    then obtain i where m: "?m = [i]" by blast
    then have named: "?named = {i}" using set by simp
    then have i: "digest_ok (ci_digest i)" "cached dir (ci_digest i) = Some i" by auto
    note rootfs = cachedD[OF i(2)]
    let ?files = "[cache_name (ci_digest i) ''ext4'', cache_name (ci_digest i) ''json'']"
    obtain w where w: "remove_files dk ?files dir = (w, dir')" "res = (case w of Inr _ \<Rightarrow> Inr i | Inl e \<Rightarrow> Inl e)"
      using assms(2) images m rootfs
      by (auto simp: remove_image_def Let_def simp del: remove_files.simps split: prod.split_asm sum.split_asm)
    have "(\<forall>d. digest_ok d \<and> d \<noteq> ci_digest i \<longrightarrow> cached dir' d = cached dir d) \<and>
       (res = Inr i \<and> cached dir' (ci_digest i) = None \<or> (\<exists>e. res = Inl e) \<and> cached dir' (ci_digest i) \<in> {None, Some i})"
      using w i by (auto simp: cached_remove split: option.split_asm)
    then show ?thesis using named unfolding Let_def by blast
  next
    case False
    then have r: "(\<exists>e. res = Inl e) \<and> dir' = dir"
      using assms(2) images by (auto simp: remove_image_def Let_def split: list.split_asm)
    have "\<nexists>i. ?named = {i}"
    proof
      assume "\<exists>i. ?named = {i}"
      then obtain i where "set ?m = {i}" using set by blast
      then have "?m = [i]" by (rule singleton_list[OF dist])
      then show False using False by blast
    qed
    then show ?thesis using r unfolding Let_def by blast
  qed
qed

subsection \<open>Cached images are whole\<close>

text \<open>\<open>B d c b\<close> says that \<open>c\<close> and \<open>b\<close> are the configuration and the root file system built for the manifest \<open>d\<close>.\<close>

definition whole :: "(string \<Rightarrow> run_config \<Rightarrow> string \<Rightarrow> bool) \<Rightarrow> cache_dir \<Rightarrow> bool" where
  "whole B dir \<longleftrightarrow> cache_ok dir \<and>
     (\<forall>d. digest_ok d \<longrightarrow> map_of dir (cache_name d ''ext4'') \<noteq> None \<longrightarrow>
        (\<exists>r b. map_of dir (cache_name d ''json'') = Some (Record_file r) \<and>
           map_of dir (cache_name d ''ext4'') = Some (Rootfs_file b) \<and> B d (ir_config r) b))"

lemma wholeD:
  assumes "whole B dir" and "digest_ok d" and "map_of dir (cache_name d ''ext4'') \<noteq> None"
  shows "\<exists>r b. map_of dir (cache_name d ''json'') = Some (Record_file r) \<and>
    map_of dir (cache_name d ''ext4'') = Some (Rootfs_file b) \<and> B d (ir_config r) b"
  using assms unfolding whole_def by blast

lemma whole_not_cached:
  assumes "whole B dir" and "digest_ok d" and "cached dir d = None" shows "map_of dir (cache_name d ''ext4'') = None"
proof (rule ccontr)
  assume "\<not> ?thesis"
  then show False using wholeD[OF assms(1,2)] assms(3) by (auto simp: cached_def)
qed

lemma whole_write_record:
  assumes "whole B dir" and "write_record (unique pid n) fault i dir = (r, dir')" and "digest_ok (ci_digest i)"
    and "map_of dir (cache_name (ci_digest i) ''ext4'') = None \<or>
      (\<exists>r. map_of dir (cache_name (ci_digest i) ''json'') = Some (Record_file r) \<and> ir_config r = ci_config i)"
  shows "whole B dir'"
proof -
  have "\<exists>r b. map_of dir' (cache_name d ''json'') = Some (Record_file r) \<and>
    map_of dir' (cache_name d ''ext4'') = Some (Rootfs_file b) \<and> B d (ir_config r) b"
    if d: "digest_ok d" "map_of dir' (cache_name d ''ext4'') \<noteq> None" for d
  proof -
    note wr = write_record_files[OF assms(2,3) d(1)]
    obtain r1 b where r1: "map_of dir (cache_name d ''json'') = Some (Record_file r1)"
      "map_of dir (cache_name d ''ext4'') = Some (Rootfs_file b)" "B d (ir_config r1) b"
      using wholeD[OF assms(1) d(1)] d(2) wr(1) by auto
    then show ?thesis using wr assms(4) by auto
  qed
  then show ?thesis using write_record_ok[OF assms(2)] assms(1) by (simp add: whole_def)
qed

lemma whole_remember_each:
  assumes "remember_each dk reference digest is dir = (r, dir')" and "whole B dir"
    and "\<forall>i \<in> set is. digest_ok (ci_digest i) \<and>
      (\<exists>r. map_of dir (cache_name (ci_digest i) ''json'') = Some (Record_file r) \<and> ir_config r = ci_config i)"
  shows "whole B dir'"
  using assms
proof (induction "is" arbitrary: dir)
  case (Cons i "is")
  let ?i = "i\<lparr>ci_references := new_references reference digest i\<rparr>"
  obtain w dir1 where w: "write_record (unique (dk_pid dk) (dk_next dk (ci_digest i))) (dk_record dk (ci_digest i)) ?i dir = (w, dir1)"
    by fastforce
  have i: "digest_ok (ci_digest ?i)" using Cons.prems(3) by simp
  have dir1: "whole B dir1" by (rule whole_write_record[OF Cons.prems(2) w i]) (use Cons.prems(3) in simp)
  have "\<exists>r. map_of dir1 (cache_name (ci_digest j) ''json'') = Some (Record_file r) \<and> ir_config r = ci_config j" if "j \<in> set is" for j
  proof -
    have j: "digest_ok (ci_digest j)" "\<exists>r. map_of dir (cache_name (ci_digest j) ''json'') = Some (Record_file r) \<and> ir_config r = ci_config j"
      using Cons.prems(3) that by auto
    then show ?thesis using write_record_files(2)[OF w i j(1)] Cons.prems(3) by (cases "ci_digest j = ci_digest i") auto
  qed
  then have rest: "\<forall>j \<in> set is. digest_ok (ci_digest j) \<and>
      (\<exists>r. map_of dir1 (cache_name (ci_digest j) ''json'') = Some (Record_file r) \<and> ir_config r = ci_config j)"
    using Cons.prems(3) by simp
  show ?case
  proof (cases "length (new_references reference digest i) \<noteq> length (ci_references i) \<or> ci_digest i = digest")
    case True
    then show ?thesis using Cons.prems(1) w dir1 Cons.IH[OF _ dir1 rest] by (cases w) (auto simp: Let_def)
  next
    case False
    then show ?thesis using Cons.prems Cons.IH[OF _ Cons.prems(2)] by (simp add: Let_def)
  qed
qed simp

lemma whole_remember:
  assumes "remember dk reference digest dir = (r, dir')" and "whole B dir" shows "whole B dir'"
proof (cases "cache_list (dk_list dk) dir")
  case (Inr images)
  have ok: "cache_ok dir" using assms(2) by (simp add: whole_def)
  have "\<forall>i \<in> set images. digest_ok (ci_digest i) \<and>
      (\<exists>r. map_of dir (cache_name (ci_digest i) ''json'') = Some (Record_file r) \<and> ir_config r = ci_config i)"
    using cache_list_found(1)[OF Inr ok] found_images_iff[OF ok] cachedD by fastforce
  moreover obtain r1 where "remember_each dk reference digest images dir = (r1, dir')"
    using assms(1) Inr by (auto simp: remember_def split: sum.split_asm prod.split_asm)
  ultimately show ?thesis using whole_remember_each assms(2) by blast
qed (use assms in \<open>simp add: remember_def\<close>)

lemma whole_fetch:
  assumes "fetch rg dk r dir = (res, dir')" and "whole B dir" and "registry_ok rg"
    and "\<And>d mf c b. resolve_manifest rg dir r = Inr (d, Some mf) \<Longrightarrow> build_image rg dk r mf = Inr (c, b) \<Longrightarrow> B d c b"
  shows "whole B dir'"
  using assms(1)
proof (cases rule: fetch_cases)
  case (built d mf c b w dir1)
  have d: "digest_ok d" using resolve_manifest_digest(1)[OF built(1) assms(3)] .
  have absent: "map_of dir (cache_name d ''ext4'') = None" by (rule whole_not_cached[OF assms(2) d built(2)])
  have dir1: "whole B dir1" by (rule whole_write_record[OF assms(2) built(4)]) (use d absent in simp_all)
  show ?thesis
  proof (cases "dir' = dir1")
    case False
    then have dir': "w = Inr ()" "dir' = bm_insert (cache_name d ''ext4'') (Rootfs_file b) dir1" using built(5) by auto
    have json: "map_of dir1 (cache_name d ''json'') = Some (Record_file \<lparr>ir_references = [], ir_config = c\<rparr>)"
      using write_record_files(2)[OF built(4)] d dir'(1) by simp
    have "\<exists>r b. map_of dir' (cache_name e ''json'') = Some (Record_file r) \<and>
      map_of dir' (cache_name e ''ext4'') = Some (Rootfs_file b) \<and> B e (ir_config r) b"
      if e: "digest_ok e" "map_of dir' (cache_name e ''ext4'') \<noteq> None" for e
      using json assms(4)[OF built(1,3)] wholeD[OF dir1 e(1)] e d
      by (cases "e = d") (simp_all add: dir'(2) cache_name_eq)
    moreover have "cache_ok dir'" using fetch_ok[OF assms(1)] assms(2) by (simp add: whole_def)
    ultimately show ?thesis by (simp add: whole_def)
  qed (simp add: dir1)
qed (use assms(2) in simp)

lemma whole_remove_image:
  assumes "remove_image rg dk text dir = (res, dir')" and "whole B dir" shows "whole B dir'"
proof -
  have ok: "cache_ok dir" using assms(2) by (simp add: whole_def)
  consider "dir' = dir" | i :: cached_image and w where "digest_ok (ci_digest i)"
    "remove_files dk [cache_name (ci_digest i) ''ext4'', cache_name (ci_digest i) ''json''] dir = (w, dir')"
  proof (cases "\<exists>images i. cache_list (dk_list dk) dir = Inr images \<and>
      filter (names_image (case rg_parse rg text of Inr r \<Rightarrow> Some (rf_whole r) | Inl _ \<Rightarrow> None) text) images = [i]")
    case True
    then obtain images i where i: "cache_list (dk_list dk) dir = Inr images"
      "filter (names_image (case rg_parse rg text of Inr r \<Rightarrow> Some (rf_whole r) | Inl _ \<Rightarrow> None) text) images = [i]" by blast
    then have "i \<in> set images" using filter_is_subset[of _ images] by (metis list.set_intros(1) subsetD)
    then have c: "digest_ok (ci_digest i)" "cached dir (ci_digest i) = Some i"
      using cache_list_found(1)[OF i(1) ok] found_images_iff[OF ok] by auto
    obtain w where "remove_files dk [cache_name (ci_digest i) ''ext4'', cache_name (ci_digest i) ''json''] dir = (w, dir')"
      using assms(1) i cachedD[OF c(2)]
      by (auto simp: remove_image_def Let_def simp del: remove_files.simps split: prod.split_asm sum.split_asm)
    then show thesis by (rule that(2)[OF c(1)])
  qed (use that(1) assms(1) in \<open>auto simp: remove_image_def Let_def split: sum.split_asm list.split_asm\<close>)
  then show ?thesis
  proof cases
    case (2 i w)
    let ?e = "cache_name (ci_digest i) ''ext4''" and ?j = "cache_name (ci_digest i) ''json''"
    have "dir' = dir \<or> dir' = bm_remove ?e dir \<or> dir' = bm_remove ?j (bm_remove ?e dir)"
      using 2(2) by (auto split: option.split_asm)
    moreover have "whole B (bm_remove ?e dir)" "whole B (bm_remove ?j (bm_remove ?e dir))"
      using assms(2) 2(1) by (auto simp: whole_def cache_ok_remove cache_name_eq)
    ultimately show ?thesis using assms(2) by auto
  qed (use assms(2) in simp)
qed

text \<open>A sequence of commands, each with the registry and the disk it meets.\<close>

datatype cache_command = Do_pull registry disk string | Do_remove registry disk string

fun do_command :: "cache_command \<Rightarrow> cache_dir \<Rightarrow> cache_dir" where
  "do_command (Do_pull rg dk text) dir = snd (pull rg dk text dir)"
| "do_command (Do_remove rg dk text) dir = snd (remove_image rg dk text dir)"

fun command_registry :: "cache_command \<Rightarrow> registry" where
  "command_registry (Do_pull rg dk text) = rg"
| "command_registry (Do_remove rg dk text) = rg"

definition built_by :: "cache_command list \<Rightarrow> string \<Rightarrow> run_config \<Rightarrow> string \<Rightarrow> bool" where
  "built_by cs d c b \<longleftrightarrow>
     (\<exists>rg dk text r dir mf. Do_pull rg dk text \<in> set cs \<and> rg_parse rg text = Inr r \<and>
        resolve_manifest rg dir r = Inr (d, Some mf) \<and> build_image rg dk r mf = Inr (c, b))"

lemma built_byI:
  "Do_pull rg dk text \<in> set cs \<Longrightarrow> rg_parse rg text = Inr r \<Longrightarrow> resolve_manifest rg dir r = Inr (d, Some mf) \<Longrightarrow>
     build_image rg dk r mf = Inr (c, b) \<Longrightarrow> built_by cs d c b"
  unfolding built_by_def by blast

lemma built_by_append: "built_by cs d c b \<Longrightarrow> built_by (cs @ cs') d c b"
  unfolding built_by_def set_append by blast

lemma whole_mono: "whole B dir \<Longrightarrow> (\<And>d c b. B d c b \<Longrightarrow> B' d c b) \<Longrightarrow> whole B' dir"
  unfolding whole_def by blast

lemma whole_commands:
  "\<forall>c \<in> set cs. registry_ok (command_registry c) \<Longrightarrow> whole (built_by cs) (fold do_command cs [])"
proof (induction cs rule: rev_induct)
  case (snoc c cs)
  let ?dir = "fold do_command cs []"
  have before: "whole (built_by (cs @ [c])) ?dir"
    by (rule whole_mono[OF snoc.IH]) (use snoc.prems in \<open>auto intro: built_by_append\<close>)
  show ?case
  proof (cases c)
    case (Do_pull rg dk t)
    show ?thesis
    proof (cases "rg_parse rg t")
      case (Inr r)
      obtain res dir1 where f: "fetch rg dk r ?dir = (res, dir1)" by fastforce
      have "whole (built_by (cs @ [c])) dir1"
        by (rule whole_fetch[OF f before]) (use snoc.prems Do_pull Inr in \<open>auto intro: built_byI\<close>)
      then show ?thesis using Do_pull Inr f whole_remember
        by (auto simp: pull_def split: sum.split) (metis surjective_pairing)
    qed (use before Do_pull in \<open>simp add: pull_def\<close>)
  next
    case (Do_remove rg dk t)
    then show ?thesis using whole_remove_image[OF _ before] by (simp add: prod_eq_iff)
  qed
qed (simp add: whole_def cache_ok_def)

text \<open>C15: whatever pulls and removals have been made one after the other, and whatever writes, moves and removals of files failed in
  them, an image that the cache finds is whole: its record and its root file system are both there and come
  from one and the same build of the manifest it is cached under.\<close>

theorem cached_image_is_whole:
  assumes "\<forall>c \<in> set cs. registry_ok (command_registry c)" and "digest_ok d" and "cached (fold do_command cs []) d = Some i"
  shows "\<exists>b. map_of (fold do_command cs []) (ci_rootfs i) = Some (Rootfs_file b) \<and>
    (\<exists>rg dk t r dir mf. Do_pull rg dk t \<in> set cs \<and> rg_parse rg t = Inr r \<and>
       resolve_manifest rg dir r = Inr (d, Some mf) \<and> build_image rg dk r mf = Inr (ci_config i, b))"
proof -
  note c = cachedD[OF assms(3)]
  obtain r b where "map_of (fold do_command cs []) (cache_name d ''json'') = Some (Record_file r)"
    "map_of (fold do_command cs []) (cache_name d ''ext4'') = Some (Rootfs_file b)" "built_by cs d (ir_config r) b"
    using wholeD[OF whole_commands[OF assms(1)] assms(2)] c by blast
  then have "map_of (fold do_command cs []) (ci_rootfs i) = Some (Rootfs_file b)" "built_by cs d (ci_config i) b" using c by auto
  then show ?thesis unfolding built_by_def by blast
qed

subsection \<open>One image, pulled and removed\<close>

definition demo_digest :: string where
  "demo_digest = ''sha256:1a2b3c''"

definition demo_reference :: reference where
  "demo_reference =
     \<lparr>rf_text = ''docker.io/library/app:1'', rf_whole = ''docker.io/library/app:1'', rf_registry = ''docker.io'', rf_repository = ''library/app'', rf_tag = Some ''1'',
      rf_digest = None\<rparr>"

definition demo_manifest :: manifest where
  "demo_manifest = \<lparr>mf_config = ''c'', mf_layers = []\<rparr>"

definition demo_image_registry :: registry where
  "demo_image_registry =
     \<lparr>rg_parse = (\<lambda>_. Inr demo_reference), rg_with_digest = (\<lambda>r _. r),
      rg_manifest = (\<lambda>_. Inr (Image_manifest demo_manifest, demo_digest)), rg_resolver = (\<lambda>_. None), rg_config = (\<lambda>_ _. Inr []),
      rg_decode = (\<lambda>_. Inr \<lparr>cf_os = ''linux'', cf_architecture = ''amd64'', cf_config = None\<rparr>), rg_layer = (\<lambda>_ _. Inr []),
      rg_entries = (\<lambda>_. Inr [])\<rparr>"

definition demo_mke2fs :: mke2fs where
  "demo_mke2fs =
     \<lparr>mk_version = Inr ''mke2fs 1.47.4 (6-Mar-2025)'', mk_tar = Inr (), mk_create = Inr (), mk_set_len = Inr (), mk_run = (\<lambda>_ _. Inr ''fs'')\<rparr>"

definition demo_disk :: disk where
  "demo_disk =
     \<lparr>dk_pid = 7, dk_next = (\<lambda>_. 0), dk_list = None, dk_create = None, dk_scratch = None, dk_blob = (\<lambda>_. None), dk_mke2fs = demo_mke2fs,
      dk_init = ''init'', dk_record = (\<lambda>_. None), dk_move = None, dk_remove = (\<lambda>_. None)\<rparr>"

definition demo_run_config :: run_config where
  "demo_run_config = \<lparr>rc_entrypoint = [], rc_cmd = [], rc_env = [], rc_workdir = None, rc_user = None\<rparr>"

definition demo_cached :: cached_image where
  "demo_cached =
     \<lparr>ci_digest = demo_digest, ci_rootfs = ''sha256-1a2b3c.ext4'', ci_config = demo_run_config, ci_references = [''docker.io/library/app:1'']\<rparr>"

definition demo_cache :: cache_dir where
  "demo_cache =
     [(''sha256-1a2b3c.ext4'', Rootfs_file ''fs''),
      (''sha256-1a2b3c.json'', Record_file \<lparr>ir_references = [''docker.io/library/app:1''], ir_config = demo_run_config\<rparr>)]"

lemma demo_mke2fs_new: "check_mke2fs demo_mke2fs = Inr ()"
proof -
  have w: "parse_uint ''1'' = Some 1" "parse_uint ''47'' = Some 47" "parse_uint ''4'' = Some 4" by code_simp+
  have "lines ''mke2fs 1.47.4 (6-Mar-2025)'' = [''mke2fs 1.47.4 (6-Mar-2025)'']"
    "split_whitespace ''mke2fs 1.47.4 (6-Mar-2025)'' = [''mke2fs'', ''1.47.4'', ''(6-Mar-2025)'']"
    "split_on CHR ''.'' ''1.47.4'' = [''1'', ''47'', ''4'']" by code_simp+
  then have "parse_mke2fs_version ''mke2fs 1.47.4 (6-Mar-2025)'' = Some (1, 47, 4)"
    using w by (simp add: parse_mke2fs_version_def parse_word_def)
  then show ?thesis by (simp add: check_mke2fs_def demo_mke2fs_def MIN_MKE2FS_def check_def)
qed

lemma demo_built: "build_image demo_image_registry demo_disk demo_reference demo_manifest = Inr (demo_run_config, ''fs'')"
proof -
  have "(case write_tar (with_guest_files ''init'' []) of Inr _ \<Rightarrow> True | Inl _ \<Rightarrow> False)" by code_simp
  then obtain tar where "write_tar (with_guest_files ''init'' []) = Inr tar" by (auto split: sum.split_asm)
  then have "build_ext4 demo_mke2fs ''init'' [] = Inr ''fs''"
    using demo_mke2fs_new by (auto simp: build_ext4_def Let_def demo_mke2fs_def)
  then show ?thesis
    by (simp add: build_image_def demo_image_registry_def demo_disk_def demo_manifest_def io_def check_def platform_def PLATFORM_def
        flattened_open_def image_run_config_def demo_run_config_def)
qed

lemma demo_pulled: "pull demo_image_registry demo_disk ''app:1'' [] = (Inr demo_cached, demo_cache)"
proof -
  have r: "rg_parse demo_image_registry ''app:1'' = Inr demo_reference" by (simp add: demo_image_registry_def)
  have m: "resolve_manifest demo_image_registry [] demo_reference = Inr (demo_digest, Some demo_manifest)"
    by (simp add: resolve_manifest_def demo_image_registry_def)
  show ?thesis unfolding pull_def r fetch_def m sum.case prod.case option.case demo_built by code_simp
qed

lemma demo_registry_ok: "registry_ok demo_image_registry"
proof -
  have "digest_ok demo_digest" by code_simp
  then show ?thesis by (simp add: registry_ok_def demo_image_registry_def)
qed

theorem pull_moves_reference_witness:
  "cached demo_cache demo_digest = Some demo_cached \<and> rf_whole demo_reference \<in> set (ci_references demo_cached)"
  using pull_moves_reference[OF demo_registry_ok, of "[]" "''app:1''" demo_reference demo_disk demo_cached demo_cache] demo_pulled
  by (simp add: cache_ok_def demo_image_registry_def demo_cached_def)

theorem remove_takes_one_image_witness:
  "\<exists>i. fst (remove_image demo_image_registry demo_disk ''1a2b'' demo_cache) = Inr i \<and>
     cached (snd (remove_image demo_image_registry demo_disk ''1a2b'' demo_cache)) (ci_digest i) = None"
proof -
  have ok: "cache_ok demo_cache" unfolding cache_ok_def bm_wf_def by code_simp
  obtain e dir' where e: "remove_image demo_image_registry demo_disk ''1a2b'' demo_cache = (Inr e, dir')"
  proof -
    have "fst (remove_image demo_image_registry demo_disk ''1a2b'' demo_cache) = Inr demo_cached" by code_simp
    then show thesis using that[of demo_cached] by (cases "remove_image demo_image_registry demo_disk ''1a2b'' demo_cache") simp
  qed
  have "dk_list demo_disk = None" by (simp add: demo_disk_def)
  from remove_takes_one_image[OF ok e this] e show ?thesis by (auto simp: Let_def)
qed

theorem cached_image_is_whole_witness:
  "\<exists>b. map_of demo_cache ''sha256-1a2b3c.ext4'' = Some (Rootfs_file b) \<and>
    (\<exists>rg dk text r dir mf. Do_pull rg dk text = Do_pull demo_image_registry demo_disk ''app:1'' \<and> rg_parse rg text = Inr r \<and>
       resolve_manifest rg dir r = Inr (demo_digest, Some mf) \<and> build_image rg dk r mf = Inr (demo_run_config, b))"
proof -
  have run: "fold do_command [Do_pull demo_image_registry demo_disk ''app:1''] [] = demo_cache" using demo_pulled by simp
  have d: "digest_ok demo_digest" "cached demo_cache demo_digest = Some demo_cached" by code_simp+
  show ?thesis
    using cached_image_is_whole[of "[Do_pull demo_image_registry demo_disk ''app:1'']" demo_digest demo_cached] d demo_registry_ok
    unfolding run by (simp add: demo_cached_def)
qed

end
