(* ===== verification/Subnet.thy ===== *)
theory Subnet
  imports
    Proto
begin

section \<open>The Node subnet and host object names\<close>

text \<open>
  \<open>crates/cirro-node/src/subnet.rs\<close>, and \<open>host_id\<close> with its inverse \<open>parse_host_id\<close> from
  \<open>crates/cirro-node/src/vm.rs\<close>. A Node hands out VM addresses from one subnet, and everything a
  VM owns on the host (its namespace, veth, jail directory and cgroup) is named from the low 16
  bits of its address. Addresses are 32-bit words and arithmetic on them wraps, as Rust's does in
  a release build.
\<close>

unbundle bit_operations_syntax

subsection \<open>Addresses as text\<close>

definition octet :: "nat \<Rightarrow> ipv4 \<Rightarrow> u8" where
  "octet i a = ucast (drop_bit (24 - 8 * i) a)"

definition from_octets :: "u8 \<Rightarrow> u8 \<Rightarrow> u8 \<Rightarrow> u8 \<Rightarrow> ipv4" where
  "from_octets a b c d =
     push_bit 24 (ucast a) OR push_bit 16 (ucast b) OR push_bit 8 (ucast c) OR ucast d"

definition ipv4_text :: "ipv4 \<Rightarrow> string" where
  "ipv4_text a =
     join_with ''.'' [show_word (octet 0 a), show_word (octet 1 a), show_word (octet 2 a), show_word (octet 3 a)]"

text \<open>
  \<open>Ipv4Addr::from_str\<close>: four decimal octets of one to three digits, at most 255, without a
  leading zero unless the octet is zero itself.
\<close>

definition parse_octet :: "string \<Rightarrow> u8 option" where
  "parse_octet s =
     (if s \<noteq> [] \<and> length s \<le> 3 \<and> list_all is_ascii_digit s \<and> (hd s = CHR ''0'' \<longrightarrow> length s = 1)
         \<and> undecimal s < 256
      then Some (of_nat (undecimal s)) else None)"

definition parse_ipv4 :: "string \<Rightarrow> ipv4 option" where
  "parse_ipv4 s =
     (case split_on CHR ''.'' s of
        [a, b, c, d] \<Rightarrow>
          (case (parse_octet a, parse_octet b, parse_octet c, parse_octet d) of
             (Some a, Some b, Some c, Some d) \<Rightarrow> Some (from_octets a b c d)
           | _ \<Rightarrow> None)
      | _ \<Rightarrow> None)"

subsection \<open>Subnets\<close>

record subnet =
  network :: u32
  prefix_len :: u8

datatype subnet_error =
    NotACidr string
  | BadAddress string
  | BadPrefix string
  | PrefixOutOfRange string

definition prefix_mask :: "u8 \<Rightarrow> u32" where
  "prefix_mask len = push_bit (32 - unat len) (- 1)"

definition subnet_from_str :: "string \<Rightarrow> subnet_error + subnet" where
  "subnet_from_str s =
     bindr (ok_or (NotACidr s) (split_once CHR ''/'' s)) (\<lambda>(addr, len).
     bindr (ok_or (BadAddress s) (parse_ipv4 addr)) (\<lambda>addr.
     bindr (ok_or (BadPrefix s) (parse_word len)) (\<lambda>prefix_len.
     bindr (check (16 \<le> prefix_len \<and> prefix_len \<le> 30) (PrefixOutOfRange s)) (\<lambda>_.
     Inr \<lparr>network = addr AND prefix_mask prefix_len, prefix_len = prefix_len\<rparr>))))"

definition subnet_text :: "subnet \<Rightarrow> string" where
  "subnet_text s = ipv4_text (network s) @ ''/'' @ show_word (prefix_len s)"

definition broadcast :: "subnet \<Rightarrow> u32" where
  "broadcast s = network s OR drop_bit (unat (prefix_len s)) (- 1)"

definition node_address :: "subnet \<Rightarrow> ipv4" where
  "node_address s = network s + 1"

definition vm_address_with_low16 :: "subnet \<Rightarrow> u16 \<Rightarrow> ipv4 option" where
  "vm_address_with_low16 s low =
     (let address = (network s AND 0xFFFF0000) OR ucast low
      in if network s + 2 \<le> address \<and> address < broadcast s then Some address else None)"

definition vm_addresses :: "subnet \<Rightarrow> ipv4 list" where
  "vm_addresses s = map of_nat [unat (network s + 2) ..< unat (broadcast s)]"

subsection \<open>Names of host objects\<close>

definition host_id :: "ipv4 \<Rightarrow> string" where
  "host_id vm_address = ''cirro-'' @ hex_byte (octet 2 vm_address) @ hex_byte (octet 3 vm_address)"

definition parse_host_id :: "string \<Rightarrow> u16 option" where
  "parse_host_id name =
     (case strip_prefix ''cirro-'' name of
        None \<Rightarrow> None
      | Some hex \<Rightarrow>
          if length hex \<noteq> 4 then None else map_option of_nat (parse_hex hex))"

definition low16 :: "ipv4 \<Rightarrow> u16" where
  "low16 a = ucast a"

text \<open>A subnet as \<open>subnet_from_str\<close> makes it: a prefix from 16 to 30 and no host bits.\<close>

definition subnet_ok :: "subnet \<Rightarrow> bool" where
  "subnet_ok s \<longleftrightarrow>
     16 \<le> prefix_len s \<and> prefix_len s \<le> 30 \<and> network s AND prefix_mask (prefix_len s) = network s"

definition host_bits :: "subnet \<Rightarrow> nat" where
  "host_bits s = 32 - unat (prefix_len s)"

text \<open>
  On one Node the name of a VM's host objects and its address determine each other.
\<close>

definition host_owner :: "subnet \<Rightarrow> string \<Rightarrow> ipv4 option" where
  "host_owner s name = Option.bind (parse_host_id name) (vm_address_with_low16 s)"

subsection \<open>Reading back what was printed\<close>

lemma from_octets_octet [simp]:
  "from_octets (octet 0 a) (octet (Suc 0) a) (octet 2 a) (octet 3 a) = a"
proof (rule bit_word_eqI)
  fix n
  assume n: "n < LENGTH(32)"
  then consider "n < 8" | "8 \<le> n" "n < 16" | "16 \<le> n" "n < 24" | "24 \<le> n" "n < 32"
    by force
  then show "bit (from_octets (octet 0 a) (octet (Suc 0) a) (octet 2 a) (octet 3 a)) n = bit a n"
    by cases (auto simp: from_octets_def octet_def bit_simps)
qed

lemma parse_octet_show_word [simp]: "parse_octet (show_word w) = Some w"
proof -
  have lt: "unat w < 2 ^ LENGTH(8)" by (rule unsigned_less)
  have "length (decimal (unat w)) = 1" if "hd (decimal (unat w)) = CHR ''0''"
    using that hd_decimal[of "unat w"] by (cases "unat w < 10") (auto simp: decimal.simps[of "unat w"])
  moreover have "length (decimal (unat w)) \<le> 3"
    using lt by (intro length_decimal_le3) simp
  ultimately show ?thesis
    using lt by (simp add: parse_octet_def show_word_def decimal_digits)
qed

lemma decimal_no_dot [simp]:
  "CHR ''.'' \<notin> set (decimal n)" "CHR ''/'' \<notin> set (decimal n)" "CHR '':'' \<notin> set (decimal n)"
  by (rule decimal_notin, simp add: is_ascii_digit_def char_le_iff)+

lemma show_word_no_dot [simp]:
  "CHR ''.'' \<notin> set (show_word w)" "CHR ''/'' \<notin> set (show_word w)"
  by (simp_all add: show_word_def)

lemma parse_ipv4_text [simp]: "parse_ipv4 (ipv4_text a) = Some a"
  by (simp add: parse_ipv4_def ipv4_text_def)

lemma ipv4_text_no_slash [simp]: "CHR ''/'' \<notin> set (ipv4_text a)"
  by (simp add: ipv4_text_def)

text \<open>An address as text reads back as itself.\<close>

interpretation ipv4_text: canonical_codec ipv4_text parse_ipv4 "\<lambda>_. True"
  by unfold_locales simp_all

lemma subnet_from_str_text: "subnet_ok s \<Longrightarrow> subnet_from_str (subnet_text s) = Inr s"
  by (simp add: subnet_from_str_def subnet_text_def subnet_ok_def)

lemma subnet_from_str_ok: "subnet_from_str t = Inr s \<Longrightarrow> subnet_ok s"
  by (auto simp: subnet_from_str_def subnet_ok_def and.assoc split: prod.splits)

subsection \<open>The address range\<close>

lemma subnet_ok_host_bits:
  assumes "subnet_ok s"
  shows "2 \<le> host_bits s" "host_bits s \<le> 16" "unat (prefix_len s) = 32 - host_bits s"
proof -
  have "16 \<le> unat (prefix_len s)" "unat (prefix_len s) \<le> 30"
    using assms by (simp_all add: subnet_ok_def word_le_nat_alt)
  then show "2 \<le> host_bits s" "host_bits s \<le> 16" "unat (prefix_len s) = 32 - host_bits s"
    by (simp_all add: host_bits_def)
qed

lemma take_bit_network:
  assumes "subnet_ok s"
  shows "take_bit (host_bits s) (network s) = 0"
proof -
  have "take_bit (host_bits s) (network s AND prefix_mask (prefix_len s)) = 0"
    by (rule bit_word_eqI) (simp add: prefix_mask_def host_bits_def bit_simps)
  moreover have "network s AND prefix_mask (prefix_len s) = network s"
    using assms by (simp add: subnet_ok_def)
  ultimately show ?thesis by argo
qed

lemma network_dvd: "subnet_ok s \<Longrightarrow> 2 ^ host_bits s dvd unat (network s)"
  using take_bit_network[of s]
  by (metis take_bit_eq_0_iff unsigned_take_bit_eq unsigned_0)

lemma broadcast_mask:
  assumes "subnet_ok s"
  shows "broadcast s = network s + mask (host_bits s)"
proof -
  have "drop_bit (unat (prefix_len s)) (- 1 :: u32) = mask (host_bits s)"
    by (rule bit_word_eqI) (auto simp: host_bits_def bit_simps)
  moreover have "network s AND mask (host_bits s) = 0"
    using take_bit_network[OF assms] by (simp add: take_bit_eq_mask)
  ultimately show ?thesis
    by (simp add: broadcast_def disjunctive_add_eq_or)
qed

lemma unat_network_bound:
  assumes "subnet_ok s"
  shows "unat (network s) + 2 ^ host_bits s \<le> 2 ^ 32"
proof -
  obtain q where q: "unat (network s) = 2 ^ host_bits s * q"
    using network_dvd[OF assms] by blast
  have "2 ^ host_bits s * q < 2 ^ host_bits s * 2 ^ (32 - host_bits s)"
    using unsigned_less[of "network s", where ?'a = nat] q subnet_ok_host_bits[OF assms]
    by (simp add: power_add[symmetric])
  then have "q + 1 \<le> 2 ^ (32 - host_bits s)" by simp
  then have "2 ^ host_bits s * (q + 1) \<le> 2 ^ host_bits s * 2 ^ (32 - host_bits s)"
    by (rule mult_le_mono2)
  then show ?thesis
    using q subnet_ok_host_bits[OF assms] by (simp add: power_add[symmetric])
qed

lemma unat_broadcast:
  assumes "subnet_ok s"
  shows "unat (broadcast s) = unat (network s) + (2 ^ host_bits s - 1)"
proof -
  have m: "unat (mask (host_bits s) :: u32) = 2 ^ host_bits s - 1"
  proof -
    have "uint (mask (host_bits s) :: u32) = mask (host_bits s)"
      using subnet_ok_host_bits[OF assms] by (simp add: uint_mask_eq min_def)
    then show ?thesis
      by (simp only: unat_eq_nat_uint nat_mask_eq) (rule mask_eq_exp_minus_1)
  qed
  have "(0 :: nat) < 2 ^ host_bits s" by simp
  then have "unat (network s) + (2 ^ host_bits s - 1) < 2 ^ LENGTH(32)"
    using unat_network_bound[OF assms] by simp
  then show ?thesis
    by (simp add: broadcast_mask[OF assms] unat_word_ariths(1) m)
qed

lemma four_le_hosts: "subnet_ok s \<Longrightarrow> 4 \<le> (2 :: nat) ^ host_bits s"
  using power_increasing[of 2 "host_bits s" "2 :: nat"] subnet_ok_host_bits by simp

lemma unat_network_add:
  assumes "subnet_ok s" and "n < 2 ^ host_bits s"
  shows "unat (network s + of_nat n) = unat (network s) + n"
proof -
  have "unat (network s) + n < 2 ^ LENGTH(32)"
    using unat_network_bound[OF assms(1)] assms(2) by simp
  then show ?thesis
    by (simp add: unat_word_ariths unat_of_nat)
qed

lemmas unat_network_small = unat_network_add[of _ 1, simplified] unat_network_add[of _ 2, simplified]

lemma set_vm_addresses: "set (vm_addresses s) = {a. network s + 2 \<le> a \<and> a < broadcast s}"
proof -
  have "a \<in> of_nat ` {unat (network s + 2) ..< unat (broadcast s)}"
    if "network s + 2 \<le> a" "a < broadcast s" for a
    using that by (intro image_eqI[of _ _ "unat a"]) (simp_all add: word_le_nat_alt word_less_nat_alt)
  moreover have "network s + 2 \<le> of_nat n \<and> (of_nat n :: u32) < broadcast s"
    if "unat (network s + 2) \<le> n" "n < unat (broadcast s)" for n
  proof -
    have "n < 2 ^ LENGTH(32)"
      using that(2) unsigned_less[of "broadcast s"] by (rule less_trans)
    then show ?thesis using that by (simp add: word_le_nat_alt word_less_nat_alt unat_of_nat)
  qed
  ultimately show ?thesis by (auto simp: vm_addresses_def)
qed

lemma in_vm_addresses_iff:
  assumes "subnet_ok s"
  shows "a \<in> set (vm_addresses s) \<longleftrightarrow>
         unat (network s) + 2 \<le> unat a \<and> unat a < unat (network s) + (2 ^ host_bits s - 1)"
  using four_le_hosts[OF assms]
  by (simp add: set_vm_addresses word_le_nat_alt word_less_nat_alt unat_broadcast[OF assms]
        unat_network_small[OF assms])

lemma sorted_vm_addresses: "sorted_wrt (<) (vm_addresses s)"
proof -
  have "(of_nat m :: u32) < of_nat n" if "m < n" "n < unat (broadcast s)" for m n
  proof -
    have "n < 2 ^ LENGTH(32)"
      using that(2) unsigned_less[of "broadcast s"] by (rule less_trans)
    then show ?thesis using that by (simp add: word_less_nat_alt unat_of_nat)
  qed
  then show ?thesis
    unfolding vm_addresses_def sorted_wrt_map
    by (intro sorted_wrt_mono_rel[OF _ sorted_wrt_upt]) auto
qed

lemma distinct_vm_addresses: "distinct (vm_addresses s)"
  using sorted_vm_addresses strict_sorted_iff by blast

lemma length_vm_addresses: "subnet_ok s \<Longrightarrow> length (vm_addresses s) = 2 ^ host_bits s - 3"
  using four_le_hosts[of s] unat_network_small[of s]
  by (simp add: vm_addresses_def unat_broadcast)

lemma reserved_addresses:
  assumes "subnet_ok s"
  shows "network s \<notin> set (vm_addresses s)" "node_address s \<notin> set (vm_addresses s)"
    "broadcast s \<notin> set (vm_addresses s)"
  using four_le_hosts[OF assms]
  by (simp_all add: in_vm_addresses_iff[OF assms] node_address_def unat_broadcast[OF assms]
        unat_network_small[OF assms])

subsection \<open>Host object names determine the VM address\<close>

lemma parse_host_id_host_id [simp]: "parse_host_id (host_id a) = Some (low16 a)"
proof -
  have "(of_nat (256 * unat (octet 2 a) + unat (octet 3 a)) :: u16) = low16 a"
  proof -
    have "push_bit 8 (ucast (octet 2 a)) OR ucast (octet 3 a) = low16 a"
    proof (rule bit_word_eqI)
      fix n
      assume n: "n < LENGTH(16)"
      then consider "n < 8" | "8 \<le> n" "n < 16" by force
      then show "bit (push_bit 8 (ucast (octet 2 a)) OR ucast (octet 3 a) :: u16) n = bit (low16 a) n"
        by cases (auto simp: octet_def low16_def bit_simps)
    qed
    moreover have "push_bit 8 (ucast (octet 2 a) :: u16) AND ucast (octet 3 a) = 0"
      by (rule bit_word_eqI) (auto simp: octet_def bit_simps)
    ultimately have "push_bit 8 (ucast (octet 2 a) :: u16) + ucast (octet 3 a) = low16 a"
      by (simp add: disjunctive_add_eq_or)
    then show ?thesis
      by (simp add: push_bit_eq_mult mult.commute)
  qed
  moreover have "length (hex_byte (octet 2 a) @ hex_byte (octet 3 a)) = 4"
    by (simp add: hex_byte_def)
  ultimately show ?thesis
    unfolding parse_host_id_def host_id_def strip_prefix_append by (simp add: parse_hex_bytes)
qed

lemma low16_in_subnet:
  assumes "subnet_ok s" and "a \<in> set (vm_addresses s)"
  shows "(network s AND 0xFFFF0000) OR ucast (low16 a) = a"
proof -
  have same: "drop_bit 16 (network s) = drop_bit 16 a"
  proof -
    have h: "2 \<le> host_bits s" "host_bits s \<le> 16"
      using subnet_ok_host_bits[OF assms(1)] by simp_all
    obtain q where q: "unat (network s) = 2 ^ host_bits s * q"
      using network_dvd[OF assms(1)] by blast
    have "unat (network s) \<le> unat a" "unat a < unat (network s) + 2 ^ host_bits s"
      using assms by (auto simp: in_vm_addresses_iff)
    then have "unat a div 2 ^ host_bits s = unat (network s) div 2 ^ host_bits s"
      using q by (intro div_nat_eqI) (simp_all add: algebra_simps)
    then have "unat a div 2 ^ host_bits s div 2 ^ (16 - host_bits s) =
               unat (network s) div 2 ^ host_bits s div 2 ^ (16 - host_bits s)"
      by simp
    then have "unat a div 2 ^ 16 = unat (network s) div 2 ^ 16"
      using h by (simp add: div_mult2_eq[symmetric] power_add[symmetric])
    then show ?thesis
      by (simp only: word_unat_eq_iff unat_drop_bit_eq) (simp add: drop_bit_eq_div)
  qed
  show ?thesis
  proof (rule bit_word_eqI)
    fix n
    assume n: "n < LENGTH(32)"
    have hi: "bit (network s) n = bit a n" if "16 \<le> n"
    proof -
      have "bit (drop_bit 16 (network s)) (n - 16) = bit (drop_bit 16 a) (n - 16)"
        by (simp only: same)
      then show ?thesis using that by (simp only: bit_drop_bit_eq) simp
    qed
    have m: "bit (0xFFFF0000 :: u32) n \<longleftrightarrow> 16 \<le> n"
    proof -
      have "(0xFFFF0000 :: u32) = NOT (mask 16)" by (simp add: mask_eq_exp_minus_1)
      then show ?thesis using n by (simp only: bit_not_iff_eq bit_mask_iff) (simp add: not_less)
    qed
    show "bit ((network s AND 0xFFFF0000) OR ucast (low16 a)) n = bit a n"
      using n hi m by (auto simp: low16_def bit_simps)
  qed
qed

lemma vm_address_with_low16_inverse:
  assumes "subnet_ok s" and "a \<in> set (vm_addresses s)"
  shows "vm_address_with_low16 s (low16 a) = Some a"
  using assms low16_in_subnet[OF assms]
  by (simp add: vm_address_with_low16_def set_vm_addresses)

lemma vm_address_with_low16_SomeD:
  "vm_address_with_low16 s low = Some a \<Longrightarrow> a \<in> set (vm_addresses s)"
  by (simp add: vm_address_with_low16_def set_vm_addresses Let_def split: if_splits)

lemma host_owner_host_id:
  "subnet_ok s \<Longrightarrow> a \<in> set (vm_addresses s) \<Longrightarrow> host_owner s (host_id a) = Some a"
  by (simp add: host_owner_def vm_address_with_low16_inverse)

lemma host_id_inj:
  assumes "subnet_ok s" and "a \<in> set (vm_addresses s)" and "b \<in> set (vm_addresses s)"
    and "host_id a = host_id b"
  shows "a = b"
  using assms by (metis host_owner_host_id option.inject)

text \<open>The addresses counted up one by one, as the iterator does: an executable form of \<open>vm_addresses\<close>.\<close>

lemma unat_Suc_below:
  assumes "(a :: 'a::len word) < b"
  shows "unat (a + 1) = Suc (unat a)"
proof -
  have "unat b < 2 ^ LENGTH('a)" by (rule unsigned_less)
  moreover have "unat a < unat b" using assms by (simp add: word_less_nat_alt)
  ultimately have "Suc (unat a) < 2 ^ LENGTH('a)" by linarith
  then show ?thesis by (simp add: unat_word_ariths)
qed

function words_from :: "u32 \<Rightarrow> u32 \<Rightarrow> u32 list" where
  "words_from a b = (if a < b then a # words_from (a + 1) b else [])"
  by auto
termination
proof (relation "measure (\<lambda>(a, b). unat b - unat a)")
  fix a b :: u32
  assume "a < b"
  then show "((a + 1, b), a, b) \<in> measure (\<lambda>(a, b). unat b - unat a)"
    using unat_Suc_below[of a b] by (simp add: word_less_nat_alt)
qed simp

lemma words_from_upt: "map of_nat [unat a ..< unat b] = words_from a b"
proof (induction a b rule: words_from.induct)
  case (1 a b)
  show ?case
  proof (cases "a < b")
    case True
    then show ?thesis using 1[OF True] unat_Suc_below[OF True]
      by (subst words_from.simps) (simp add: upt_conv_Cons word_less_nat_alt)
  next
    case False
    then show ?thesis by (simp add: word_less_nat_alt)
  qed
qed
declare words_from.simps [simp del]

lemma vm_addresses_code [code]: "vm_addresses s = words_from (network s + 2) (broadcast s)"
  by (simp add: vm_addresses_def words_from_upt)

lemmas subnet_eval =
  subnet_ok_def prefix_mask_def set_vm_addresses broadcast_def mask_eq_exp_minus_1

end
