(* ===== verification/Store.thy ===== *)
theory Store
  imports
    Ordered_Map
    Subnet
begin

section \<open>The agent's persistent state\<close>

text \<open>
  \<open>crates/cirro-node/src/state.rs\<close>: the SQLite database holding a record per VM, Machine and
  Machine-backed App. A table is a map from its primary key to a row, in key order, which is the
  order \<open>ORDER BY name\<close> returns; the columns of a row are SQLite's values (64-bit signed integers,
  text, or NULL as \<open>None\<close>) and reading a column into a narrower Rust type fails when the value does
  not fit. SQLite itself is outside the sources: every statement takes the error it reports, if any,
  as an argument, and a statement that fails changes nothing.

  The lemmas show that what \<open>insert_running\<close> and \<open>mark_ended\<close> write is what \<open>load\<close> returns, that
  the statements leave other records alone, and that the tables the agent writes never make \<open>load\<close>
  fail; the locale \<open>vm_records\<close> is that contract as the agent relies on it.
\<close>

record process_id =
  pid :: u32
  start_time :: u64

record vm_record =
  rec_info :: vm_info
  rec_log :: path
  rec_process :: "process_id option"

record machine_record =
  mr_name :: string
  mr_ssh :: string
  mr_pinned_key :: string
  mr_fingerprint :: string

record machine_app_record =
  ma_name :: string
  ma_machine :: string
  ma_host :: string
  ma_port :: u16

subsection \<open>Tables\<close>

record vm_row =
  row_vm_address :: "string option"
  row_pid :: "int option"
  row_pid_start :: "int option"
  row_mem_mib :: int
  row_vcpus :: int
  row_started_at :: int
  row_ended_at :: "int option"
  row_end_reason :: "string option"
  row_log :: string
  row_route_host :: "string option"
  row_route_port :: "int option"
  row_route_idle_park :: "int option"

record machine_row =
  mrow_ssh :: string
  mrow_pinned_key :: string
  mrow_fingerprint :: string

record machine_app_row =
  marow_machine :: string
  marow_host :: string
  marow_port :: int

record store =
  node_table :: "string list"
  vms_columns :: "string list"
  vms_table :: "(string, vm_row) bmap"
  machines_table :: "(string, machine_row) bmap"
  machine_apps_table :: "(string, machine_app_row) bmap"

datatype store_error =
    DbError string
  | WrongSubnet string string

type_synonym 'a store_result = "(store_error + 'a) \<times> store"

definition db_exec :: "string option \<Rightarrow> (store \<Rightarrow> store) \<Rightarrow> store \<Rightarrow> unit store_result" where
  "db_exec fault stmt st =
     (case fault of Some e \<Rightarrow> (Inl (DbError e), st) | None \<Rightarrow> (Inr (), stmt st))"

subsection \<open>Conversions\<close>

definition i64_max :: int where
  "i64_max = 2 ^ 63 - 1"

definition to_sql :: "u64 \<Rightarrow> int" where
  "to_sql n = (if uint n \<le> i64_max then uint n else i64_max)"

definition from_sql :: "int \<Rightarrow> u64" where
  "from_sql i = (if 0 \<le> i then of_int i else 0)"

definition reason_text :: "end_reason \<Rightarrow> string" where
  "reason_text r = end_reason_wire r"

definition parse_reason :: "string \<Rightarrow> end_reason option" where
  "parse_reason t = end_reason_from_wire t"

definition get_uint :: "int \<Rightarrow> 'a::len word option" where
  "get_uint i = (if 0 \<le> i \<and> i < 2 ^ LENGTH('a) then Some (of_int i) else None)"

definition get_opt :: "(int \<Rightarrow> 'a option) \<Rightarrow> int option \<Rightarrow> 'a option option" where
  "get_opt f c = (case c of None \<Rightarrow> Some None | Some i \<Rightarrow> map_option Some (f i))"

definition zip_opt :: "'a option \<Rightarrow> 'b option \<Rightarrow> ('a \<times> 'b) option" where
  "zip_opt a b = (case (a, b) of (Some x, Some y) \<Rightarrow> Some (x, y) | _ \<Rightarrow> None)"

subsection \<open>Statements on VMs\<close>

text \<open>One row as a \<open>Record\<close>; \<open>None\<close> is a column whose value does not fit its Rust type.\<close>

definition row_record :: "string \<Rightarrow> vm_row \<Rightarrow> vm_record option" where
  "row_record name row =
     Option.bind (get_opt get_uint (row_pid row)) (\<lambda>pid.
     Option.bind (get_opt get_uint (row_route_port row)) (\<lambda>route_port.
     Option.bind (get_opt get_uint (row_route_idle_park row)) (\<lambda>idle_park_secs.
     Option.bind (get_uint (row_mem_mib row)) (\<lambda>mem_mib.
     Option.bind (get_uint (row_vcpus row)) (\<lambda>vcpus.
     Some \<lparr>
       rec_info = \<lparr>
         vi_name = name,
         vi_vm_address = Option.bind (row_vm_address row) parse_ipv4,
         vi_mem_mib = mem_mib,
         vi_vcpus = vcpus,
         vi_started_at = from_sql (row_started_at row),
         vi_ended =
           Option.bind (zip_opt (row_ended_at row) (row_end_reason row)) (\<lambda>(at, reason).
             map_option (\<lambda>r. \<lparr>ended_at = from_sql at, ended_reason = r\<rparr>) (parse_reason reason)),
         vi_route =
           map_option (\<lambda>(host, port). \<lparr>route_host = host, route_port = port, idle_park_secs = idle_park_secs\<rparr>)
             (zip_opt (row_route_host row) route_port)\<rparr>,
       rec_log = row_log row,
       rec_process =
         map_option (\<lambda>(pid, start). \<lparr>pid = pid, start_time = from_sql start\<rparr>)
           (zip_opt pid (row_pid_start row))\<rparr>)))))"

fun collect_opt :: "'a option list \<Rightarrow> 'a list option" where
  "collect_opt [] = Some []"
| "collect_opt (None # xs) = None"
| "collect_opt (Some x # xs) = map_option ((#) x) (collect_opt xs)"

definition load :: "string option \<Rightarrow> store \<Rightarrow> store_error + vm_record list" where
  "load fault st =
     (case fault of
        Some e \<Rightarrow> Inl (DbError e)
      | None \<Rightarrow>
          ok_or (DbError ''out of range'') (collect_opt (map (\<lambda>(n, r). row_record n r) (vms_table st))))"

definition running_row :: "vm_info \<Rightarrow> path \<Rightarrow> process_id \<Rightarrow> vm_row" where
  "running_row info log process = \<lparr>
     row_vm_address = map_option ipv4_text (vi_vm_address info),
     row_pid = Some (uint (pid process)),
     row_pid_start = Some (to_sql (start_time process)),
     row_mem_mib = uint (vi_mem_mib info),
     row_vcpus = uint (vi_vcpus info),
     row_started_at = to_sql (vi_started_at info),
     row_ended_at = None,
     row_end_reason = None,
     row_log = log,
     row_route_host = map_option route_host (vi_route info),
     row_route_port = map_option (\<lambda>r. uint (route_port r)) (vi_route info),
     row_route_idle_park = Option.bind (vi_route info) (\<lambda>r. map_option uint (idle_park_secs r))\<rparr>"

definition insert_running ::
  "string option \<Rightarrow> vm_info \<Rightarrow> path \<Rightarrow> process_id \<Rightarrow> store \<Rightarrow> unit store_result" where
  "insert_running fault info log process =
     db_exec fault (\<lambda>st. st\<lparr>vms_table := bm_insert (vi_name info) (running_row info log process) (vms_table st)\<rparr>)"

definition ended_row :: "ended \<Rightarrow> vm_row \<Rightarrow> vm_row" where
  "ended_row e row = row\<lparr>
     row_vm_address := None, row_pid := None, row_pid_start := None,
     row_ended_at := Some (to_sql (ended_at e)),
     row_end_reason := Some (reason_text (ended_reason e))\<rparr>"

definition mark_ended :: "string option \<Rightarrow> string \<Rightarrow> ended \<Rightarrow> store \<Rightarrow> unit store_result" where
  "mark_ended fault name e =
     db_exec fault (\<lambda>st. st\<lparr>vms_table :=
       map (\<lambda>(n, row). (n, if n = name then ended_row e row else row)) (vms_table st)\<rparr>)"

definition delete :: "string option \<Rightarrow> string \<Rightarrow> store \<Rightarrow> unit store_result" where
  "delete fault name = db_exec fault (\<lambda>st. st\<lparr>vms_table := bm_remove name (vms_table st)\<rparr>)"

subsection \<open>Statements on Machines and Machine-backed Apps\<close>

definition load_machines :: "string option \<Rightarrow> store \<Rightarrow> store_error + machine_record list" where
  "load_machines fault st =
     (case fault of
        Some e \<Rightarrow> Inl (DbError e)
      | None \<Rightarrow>
          Inr (map (\<lambda>(n, r). \<lparr>mr_name = n, mr_ssh = mrow_ssh r, mr_pinned_key = mrow_pinned_key r,
                              mr_fingerprint = mrow_fingerprint r\<rparr>) (machines_table st)))"

definition insert_machine :: "string option \<Rightarrow> machine_record \<Rightarrow> store \<Rightarrow> unit store_result" where
  "insert_machine fault m st =
     db_exec
       (case fault of
          None \<Rightarrow> if map_of (machines_table st) (mr_name m) = None then None
                  else Some ''UNIQUE constraint failed: machines.name''
        | Some e \<Rightarrow> Some e)
       (\<lambda>st. st\<lparr>machines_table :=
          bm_insert (mr_name m)
            \<lparr>mrow_ssh = mr_ssh m, mrow_pinned_key = mr_pinned_key m, mrow_fingerprint = mr_fingerprint m\<rparr>
            (machines_table st)\<rparr>)
       st"

definition load_machine_apps :: "string option \<Rightarrow> store \<Rightarrow> store_error + machine_app_record list" where
  "load_machine_apps fault st =
     (case fault of
        Some e \<Rightarrow> Inl (DbError e)
      | None \<Rightarrow>
          ok_or (DbError ''out of range'') (collect_opt
            (map (\<lambda>(n, r). map_option (\<lambda>port. \<lparr>ma_name = n, ma_machine = marow_machine r,
                                              ma_host = marow_host r, ma_port = port\<rparr>)
                             (get_uint (marow_port r)))
              (machine_apps_table st))))"

definition insert_machine_app :: "string option \<Rightarrow> machine_app_record \<Rightarrow> store \<Rightarrow> unit store_result" where
  "insert_machine_app fault a st =
     db_exec
       (case fault of
          None \<Rightarrow> if map_of (machine_apps_table st) (ma_name a) = None then None
                  else Some ''UNIQUE constraint failed: machine_apps.name''
        | Some e \<Rightarrow> Some e)
       (\<lambda>st. st\<lparr>machine_apps_table :=
          bm_insert (ma_name a)
            \<lparr>marow_machine = ma_machine a, marow_host = ma_host a, marow_port = uint (ma_port a)\<rparr>
            (machine_apps_table st)\<rparr>)
       st"

definition delete_machine_app :: "string option \<Rightarrow> string \<Rightarrow> store \<Rightarrow> unit store_result" where
  "delete_machine_app fault name =
     db_exec fault (\<lambda>st. st\<lparr>machine_apps_table := bm_remove name (machine_apps_table st)\<rparr>)"

definition delete_machine :: "string option \<Rightarrow> string \<Rightarrow> store \<Rightarrow> unit store_result" where
  "delete_machine fault name =
     db_exec fault (\<lambda>st. st\<lparr>machines_table := bm_remove name (machines_table st)\<rparr>)"

subsection \<open>Opening the database\<close>

definition ADDED :: "string list" where
  "ADDED = [''route_host'', ''route_port'', ''route_idle_park'']"

definition vms_schema :: "string list" where
  "vms_schema = [''name'', ''vm_address'', ''pid'', ''pid_start'', ''mem_mib'', ''vcpus'', ''started_at'',
     ''ended_at'', ''end_reason'', ''log''] @ ADDED"

definition add_missing_columns :: "string option \<Rightarrow> store \<Rightarrow> unit store_result" where
  "add_missing_columns fault st =
     (let alters = filter (\<lambda>c. c \<notin> set (vms_columns st)) ADDED
      in if alters = [] then (Inr (), st)
         else db_exec fault (\<lambda>st. st\<lparr>vms_columns := vms_columns st @ alters\<rparr>) st)"

text \<open>
  \<open>db\<close> is the database the file holds, \<open>None\<close> when there is none yet; a table created by an older
  agent is kept as it is by \<open>CREATE TABLE IF NOT EXISTS\<close>. The faults are those of, in order, opening
  and configuring the connection, adding the columns, reading the subnet and writing it.
\<close>

definition fresh_store :: store where
  "fresh_store = \<lparr>node_table = [], vms_columns = vms_schema, vms_table = [], machines_table = [],
                  machine_apps_table = []\<rparr>"

definition store_open ::
  "string option \<Rightarrow> string option \<Rightarrow> string option \<Rightarrow> string option \<Rightarrow> store option \<Rightarrow> string
   \<Rightarrow> unit store_result" where
  "store_open f_conn f_columns f_select f_insert db subnet =
     (let st = (case db of None \<Rightarrow> fresh_store | Some st \<Rightarrow> st)
      in case f_conn of
           Some e \<Rightarrow> (Inl (DbError e), st)
         | None \<Rightarrow>
             (case add_missing_columns f_columns st of
                (Inl e, st) \<Rightarrow> (Inl e, st)
              | (Inr _, st) \<Rightarrow>
                  (case f_select of
                     Some e \<Rightarrow> (Inl (DbError e), st)
                   | None \<Rightarrow>
                       (case node_table st of
                          [] \<Rightarrow> db_exec f_insert (\<lambda>st. st\<lparr>node_table := [subnet]\<rparr>) st
                        | stored # _ \<Rightarrow>
                            if stored = subnet then (Inr (), st)
                            else (Inl (WrongSubnet stored subnet), st)))))"

subsection \<open>What the records mean\<close>

text \<open>
  \<open>store_view\<close> is the abstract content of the \<open>vms\<close> table: the record \<open>load\<close> returns under each
  name. \<open>running_record\<close> and \<open>ended_record\<close> are the records the two writing statements stand for;
  a time above the largest SQLite integer is stored as that integer.
\<close>

definition store_view :: "store \<Rightarrow> string \<rightharpoonup> vm_record" where
  "store_view st n = Option.bind (map_of (vms_table st) n) (row_record n)"

definition sql_time :: "u64 \<Rightarrow> u64" where
  "sql_time n = min n (2 ^ 63 - 1)"

definition running_record :: "vm_info \<Rightarrow> path \<Rightarrow> process_id \<Rightarrow> vm_record" where
  "running_record info log p =
     \<lparr>rec_info = info\<lparr>vi_started_at := sql_time (vi_started_at info), vi_ended := None\<rparr>,
      rec_log = log,
      rec_process = Some (p\<lparr>start_time := sql_time (start_time p)\<rparr>)\<rparr>"

definition ended_record :: "ended \<Rightarrow> vm_record \<Rightarrow> vm_record" where
  "ended_record e r = r\<lparr>
     rec_info := (rec_info r)\<lparr>vi_vm_address := None, vi_ended := Some (e\<lparr>ended_at := sql_time (ended_at e)\<rparr>)\<rparr>,
     rec_process := None\<rparr>"

definition store_wf :: "store \<Rightarrow> bool" where
  "store_wf st \<longleftrightarrow>
     bm_wf (vms_table st) \<and> bm_wf (machines_table st) \<and> bm_wf (machine_apps_table st) \<and>
     (\<forall>(n, row) \<in> set (vms_table st). row_record n row \<noteq> None) \<and>
     (\<forall>(n, row) \<in> set (machine_apps_table st). (get_uint (marow_port row) :: u16 option) \<noteq> None)"

text \<open>The stored spelling of an end reason reads back as that reason.\<close>

interpretation reason_text: canonical_codec reason_text parse_reason "\<lambda>_. True"
  by unfold_locales (simp_all add: reason_text_def parse_reason_def end_reason_wire.dec_enc)

lemma get_uint_uint [simp]: "get_uint (uint w) = Some (w :: 'a::len word)"
  by (simp add: get_uint_def)

lemma get_opt_simps [simp]:
  "get_opt f None = Some None"
  "get_opt f (Some i) = map_option Some (f i)"
  by (simp_all add: get_opt_def)

lemma zip_opt_simps [simp]:
  "zip_opt None b = None" "zip_opt a None = None" "zip_opt (Some x) (Some y) = Some (x, y)"
  by (simp_all add: zip_opt_def split: option.splits)

lemma from_sql_to_sql [simp]: "from_sql (to_sql n) = sql_time n"
proof (cases "uint n \<le> i64_max")
  case True
  then have "n \<le> 2 ^ 63 - 1"
    by (simp add: i64_max_def word_le_def)
  with True show ?thesis
    by (simp add: from_sql_def to_sql_def sql_time_def min_def)
next
  case False
  then have "\<not> n \<le> 2 ^ 63 - 1"
    by (simp add: i64_max_def word_le_def)
  with False show ?thesis
    by (simp add: from_sql_def to_sql_def sql_time_def min_def i64_max_def)
qed

lemma sql_time_idem [simp]: "sql_time (sql_time n) = sql_time n"
  by (simp add: sql_time_def)

lemma sql_time_small: "n \<le> 2 ^ 63 - 1 \<Longrightarrow> sql_time n = n"
  by (simp add: sql_time_def min_def)

lemma parse_reason_text [simp]: "parse_reason (reason_text r) = Some r"
  by (rule reason_text.dec_enc) simp

lemma row_record_running:
  "row_record (vi_name info) (running_row info log p) = Some (running_record info log p)"
proof -
  have port: "get_opt get_uint (map_option (\<lambda>r. uint (route_port r)) x) = Some (map_option route_port x)"
    for x :: "route option"
    by (cases x) simp_all
  have idle: "get_opt get_uint (Option.bind x (\<lambda>r. map_option uint (idle_park_secs r)))
              = Some (Option.bind x idle_park_secs)" for x :: "route option"
    by (cases x; cases "Option.bind x idle_park_secs") (auto split: option.splits)
  have addr: "Option.bind (map_option ipv4_text a) parse_ipv4 = a" for a
    by (cases a) simp_all
  have route: "map_option (\<lambda>(h, q). \<lparr>route_host = h, route_port = q, idle_park_secs = Option.bind x idle_park_secs\<rparr>)
                 (zip_opt (map_option route_host x) (map_option route_port x)) = x" for x
    by (cases x) simp_all
  show ?thesis
    by (simp add: row_record_def running_row_def running_record_def port idle addr route)
qed

lemma row_record_ended:
  assumes "row_record n row = Some r"
  shows "row_record n (ended_row e row) = Some (ended_record e r)"
  using assms
  by (auto simp: row_record_def ended_row_def ended_record_def bind_eq_Some_conv)

lemma row_record_name: "row_record n row = Some r \<Longrightarrow> vi_name (rec_info r) = n"
  by (auto simp: row_record_def bind_eq_Some_conv)

lemma collect_opt_all: "\<forall>x \<in> set xs. f x \<noteq> None \<Longrightarrow> collect_opt (map f xs) = Some (map (the \<circ> f) xs)"
  by (induction xs) auto

lemma load_view:
  assumes "store_wf st"
  shows "load None st = Inr (map (\<lambda>(n, _). the (store_view st n)) (vms_table st))"
proof -
  have "the (row_record n row) = the (store_view st n)" if "(n, row) \<in> set (vms_table st)" for n row
    using assms that by (simp add: store_view_def store_wf_def bm.entry_iff)
  then show ?thesis
    using assms unfolding load_def store_wf_def
    by (subst collect_opt_all) (auto simp: comp_def)
qed

lemma store_wf_row:
  assumes "store_wf st" and "map_of (vms_table st) n = Some row"
  shows "\<exists>r. row_record n row = Some r"
proof -
  have "(n, row) \<in> set (vms_table st)" using assms(2) by (rule map_of_SomeD)
  with assms(1) show ?thesis by (auto simp: store_wf_def)
qed

lemma store_view_dom: "store_wf st \<Longrightarrow> dom (store_view st) = fst ` set (vms_table st)"
proof -
  assume wf: "store_wf st"
  have "store_view st n \<noteq> None \<longleftrightarrow> map_of (vms_table st) n \<noteq> None" for n
    using store_wf_row[OF wf] by (cases "map_of (vms_table st) n") (auto simp: store_view_def)
  then show ?thesis
    by (simp add: dom_def map_of_eq_None_iff set_eq_iff)
qed

lemma map_of_map_values: "map_of (map (\<lambda>(k, v). (k, f k v)) m) k = map_option (f k) (map_of m k)"
  by (induction m) auto

lemma store_view_put [simp]:
  "store_view (snd (insert_running None info log p st)) =
   (store_view st)(vi_name info \<mapsto> running_record info log p)"
  by (rule ext) (simp add: store_view_def insert_running_def db_exec_def row_record_running)

lemma store_view_mark:
  assumes "store_wf st"
  shows "store_view (snd (mark_ended None n e st)) = (store_view st)(n := map_option (ended_record e) (store_view st n))"
proof
  fix k
  have "map_of (vms_table (snd (mark_ended None n e st))) k =
        map_option (\<lambda>row. if k = n then ended_row e row else row) (map_of (vms_table st) k)"
    by (simp add: mark_ended_def db_exec_def map_of_map_values)
  moreover have "row_record n row \<noteq> None" if "map_of (vms_table st) n = Some row" for row
    using store_wf_row[OF assms that] by blast
  ultimately show "store_view (snd (mark_ended None n e st)) k =
        ((store_view st)(n := map_option (ended_record e) (store_view st n))) k"
    by (cases "map_of (vms_table st) k") (auto simp: store_view_def row_record_ended)
qed

lemma store_view_delete [simp]: "store_view (snd (delete None n st)) = (store_view st)(n := None)"
  by (rule ext) (simp add: store_view_def delete_def db_exec_def)

lemma bm_wf_map_values: "bm_wf (map (\<lambda>(k, v). (k, f k v)) m) \<longleftrightarrow> bm_wf m"
  by (simp add: bm_wf_def comp_def case_prod_unfold)

lemma store_wf_fresh [simp]: "store_wf fresh_store"
  by (simp add: store_wf_def fresh_store_def)

lemma set_bm_insert: "bm_wf m \<Longrightarrow> x \<in> set (bm_insert k v m) \<Longrightarrow> x = (k, v) \<or> x \<in> set m"
  by (induction k v m rule: bm_insert.induct) (auto simp: bm_wf_def split: if_splits)

lemma set_bm_remove: "x \<in> set (bm_remove k m) \<Longrightarrow> x \<in> set m"
  by (simp add: bm_remove_def)

lemma store_wf_vm_statements:
  assumes "store_wf st"
  shows "store_wf (snd (insert_running f info log p st))"
    and "store_wf (snd (mark_ended f n e st))"
    and "store_wf (snd (delete f n st))"
proof -
  have wf: "bm_wf (vms_table st)" using assms by (simp add: store_wf_def)
  show "store_wf (snd (insert_running f info log p st))"
    using assms set_bm_insert[OF wf]
    by (fastforce simp: insert_running_def db_exec_def store_wf_def row_record_running split: option.splits)
  show "store_wf (snd (delete f n st))"
    using assms
    by (auto simp: delete_def db_exec_def store_wf_def split: option.splits dest!: set_bm_remove)
  have "row_record k (if k = n then ended_row e row else row) \<noteq> None"
    if "(k, row) \<in> set (vms_table st)" for k row
    using assms that by (auto simp: store_wf_def row_record_ended)
  then show "store_wf (snd (mark_ended f n e st))"
    using assms
    by (auto simp: mark_ended_def db_exec_def store_wf_def bm_wf_map_values split: option.splits if_splits)
qed

lemma store_wf_machine_statements:
  assumes "store_wf st"
  shows "store_wf (snd (insert_machine f m st))"
    and "store_wf (snd (delete_machine f n st))"
    and "store_wf (snd (insert_machine_app f a st))"
    and "store_wf (snd (delete_machine_app f n st))"
proof -
  have wf: "bm_wf (machine_apps_table st)" using assms by (simp add: store_wf_def)
  show "store_wf (snd (insert_machine f m st))"
    using assms by (auto simp: insert_machine_def db_exec_def store_wf_def split: option.splits)
  show "store_wf (snd (delete_machine f n st))"
    using assms by (auto simp: delete_machine_def db_exec_def store_wf_def split: option.splits)
  show "store_wf (snd (insert_machine_app f a st))"
    using assms set_bm_insert[OF wf]
    by (fastforce simp: insert_machine_app_def db_exec_def store_wf_def split: option.splits)
  show "store_wf (snd (delete_machine_app f n st))"
    using assms
    by (auto simp: delete_machine_app_def db_exec_def store_wf_def split: option.splits dest!: set_bm_remove)
qed

subsection \<open>The contract the agent relies on\<close>

text \<open>
  A store of VM records as the agent uses it: a statement that succeeds changes the record of its VM
  and no other, one that fails changes nothing and says so, and an Ended VM's record has neither a
  process nor a VM address.
\<close>

locale vm_records =
  fixes view :: "'db \<Rightarrow> string \<rightharpoonup> vm_record"
    and wf :: "'db \<Rightarrow> bool"
    and put :: "string option \<Rightarrow> vm_info \<Rightarrow> path \<Rightarrow> process_id \<Rightarrow> 'db \<Rightarrow> (store_error + unit) \<times> 'db"
    and finish :: "string option \<Rightarrow> string \<Rightarrow> ended \<Rightarrow> 'db \<Rightarrow> (store_error + unit) \<times> 'db"
    and drop_vm :: "string option \<Rightarrow> string \<Rightarrow> 'db \<Rightarrow> (store_error + unit) \<times> 'db"
  assumes put_ok: "wf db \<Longrightarrow> put None i l p db = (r, db') \<Longrightarrow>
            r = Inr () \<and> view db' = (view db)(vi_name i \<mapsto> running_record i l p)"
    and put_fault: "put (Some e) i l p db = (Inl (DbError e), db)"
    and finish_ok: "wf db \<Longrightarrow> finish None n x db = (r, db') \<Longrightarrow>
            r = Inr () \<and> view db' = (view db)(n := map_option (ended_record x) (view db n))"
    and finish_fault: "finish (Some e) n x db = (Inl (DbError e), db)"
    and drop_ok: "wf db \<Longrightarrow> drop_vm None n db = (r, db') \<Longrightarrow> r = Inr () \<and> view db' = (view db)(n := None)"
    and drop_fault: "drop_vm (Some e) n db = (Inl (DbError e), db)"
    and put_wf: "wf db \<Longrightarrow> wf (snd (put f i l p db))"
    and finish_wf: "wf db \<Longrightarrow> wf (snd (finish f n x db))"
    and drop_wf: "wf db \<Longrightarrow> wf (snd (drop_vm f n db))"
begin

lemma put_success:
  assumes "wf db" and "put f i l p db = (Inr u, db')"
  shows "view db' = (view db)(vi_name i \<mapsto> running_record i l p)"
  using assms put_ok put_fault by (cases f) auto

lemma put_failure: "wf db \<Longrightarrow> put f i l p db = (Inl e, db') \<Longrightarrow> db' = db"
  using put_ok put_fault by (cases f) force+

lemma finish_success:
  "wf db \<Longrightarrow> finish f n x db = (Inr u, db') \<Longrightarrow> view db' = (view db)(n := map_option (ended_record x) (view db n))"
  using finish_ok finish_fault by (cases f) auto

lemma finish_failure: "wf db \<Longrightarrow> finish f n x db = (Inl e, db') \<Longrightarrow> db' = db"
  using finish_ok finish_fault by (cases f) force+

lemma drop_success: "wf db \<Longrightarrow> drop_vm f n db = (Inr u, db') \<Longrightarrow> view db' = (view db)(n := None)"
  using drop_ok drop_fault by (cases f) auto

lemma drop_failure: "wf db \<Longrightarrow> drop_vm f n db = (Inl e, db') \<Longrightarrow> db' = db"
  using drop_ok drop_fault by (cases f) force+

lemma put_frame: "wf db \<Longrightarrow> n \<noteq> vi_name i \<Longrightarrow> view (snd (put f i l p db)) n = view db n"
  using put_success put_failure by (cases "put f i l p db"; cases "fst (put f i l p db)") force+

lemma finish_frame: "wf db \<Longrightarrow> m \<noteq> n \<Longrightarrow> view (snd (finish f n x db)) m = view db m"
  using finish_success finish_failure by (cases "finish f n x db"; cases "fst (finish f n x db)") force+

lemma drop_frame: "wf db \<Longrightarrow> m \<noteq> n \<Longrightarrow> view (snd (drop_vm f n db)) m = view db m"
  using drop_success drop_failure by (cases "drop_vm f n db"; cases "fst (drop_vm f n db)") force+

lemma put_finish:
  assumes "wf db" and "put f i l p db = (Inr u, db1)" and "finish g (vi_name i) x db1 = (Inr v, db2)"
  shows "view db2 (vi_name i) = Some (ended_record x (running_record i l p))"
proof -
  have "wf db1" using put_wf[OF assms(1), of f i l p] assms(2) by simp
  then show ?thesis
    using finish_success[OF _ assms(3)] put_success[OF assms(1,2)] by simp
qed

end

interpretation vm_db: vm_records store_view store_wf insert_running mark_ended delete
proof unfold_locales
  show "store_wf db \<Longrightarrow> insert_running None i l p db = (r, db') \<Longrightarrow>
        r = Inr () \<and> store_view db' = (store_view db)(vi_name i \<mapsto> running_record i l p)" for db i l p r db'
    using store_view_put[of i l p db] by (auto simp: insert_running_def db_exec_def)
  show "store_wf db \<Longrightarrow> mark_ended None n x db = (r, db') \<Longrightarrow>
        r = Inr () \<and> store_view db' = (store_view db)(n := map_option (ended_record x) (store_view db n))"
    for db n x r db'
    using store_view_mark[of db n x] by (auto simp: mark_ended_def db_exec_def)
  show "store_wf db \<Longrightarrow> delete None n db = (r, db') \<Longrightarrow>
        r = Inr () \<and> store_view db' = (store_view db)(n := None)" for db n r db'
    using store_view_delete[of n db] by (auto simp: delete_def db_exec_def)
qed (simp_all add: store_wf_vm_statements, simp_all add: insert_running_def mark_ended_def delete_def db_exec_def)

subsection \<open>Opening\<close>

lemma add_missing_columns_outcome:
  assumes "add_missing_columns f st = (r, st')"
  shows "store_view st' = store_view st" "store_wf st' = store_wf st" "node_table st' = node_table st"
    "r = Inr () \<Longrightarrow> set ADDED \<subseteq> set (vms_columns st')"
  using assms
  by (auto simp: add_missing_columns_def db_exec_def store_view_def store_wf_def Let_def filter_empty_conv
        split: if_splits option.splits)

lemma store_open_success:
  assumes "store_open a b c d db subnet = (Inr u, st)"
  shows "node_table st \<noteq> [] \<and> hd (node_table st) = subnet"
    and "set ADDED \<subseteq> set (vms_columns st)"
    and "store_view st = (case db of None \<Rightarrow> Map.empty | Some st0 \<Rightarrow> store_view st0)"
proof -
  define st0 where "st0 = (case db of None \<Rightarrow> fresh_store | Some st \<Rightarrow> st)"
  obtain r st1 where cols: "add_missing_columns b st0 = (r, st1)" by fastforce
  have v0: "store_view st0 = (case db of None \<Rightarrow> Map.empty | Some st \<Rightarrow> store_view st)"
    by (cases db) (auto simp: st0_def store_view_def fresh_store_def)
  from assms cols have r: "r = Inr ()"
    by (cases r) (auto simp: store_open_def st0_def Let_def split: option.splits)
  from assms cols r show "node_table st \<noteq> [] \<and> hd (node_table st) = subnet"
    by (auto simp: store_open_def st0_def[symmetric] Let_def db_exec_def
          split: option.splits list.splits if_splits)
  from assms cols r have same: "st = st1 \<or> st = st1\<lparr>node_table := [subnet]\<rparr>"
    by (auto simp: store_open_def st0_def[symmetric] Let_def db_exec_def
          split: option.splits list.splits if_splits)
  with add_missing_columns_outcome[OF cols] r show "set ADDED \<subseteq> set (vms_columns st)"
    by auto
  have "store_view st = store_view st1"
    using same by (auto simp: store_view_def fun_eq_iff)
  then show "store_view st = (case db of None \<Rightarrow> Map.empty | Some st0 \<Rightarrow> store_view st0)"
    using add_missing_columns_outcome(1)[OF cols] v0 by simp
qed

end
