(* ===== verification/Machines.thy ===== *)
theory Machines
  imports
    Api
    Store
    "HOL-Library.Multiset"
begin

section \<open>Machines\<close>

text \<open>
  \<open>crates/cirro-node/src/agent/machine.rs\<close>: the computers the agent reaches over SSH, their pinned
  host keys, their Apps, and the \<open>ssh\<close> each one's tunnel keeps running. OpenSSH's programs, the
  kernel's choice of free ports and the file system are outside the sources: their outcomes are
  arguments of the operations. An \<open>Arc<Mutex<Link>>\<close> is an address into the table of links, since an
  \<open>ssh\<close> that was replaced keeps writing to the link it was started with.
\<close>

subsection \<open>SSH targets\<close>

record target =
  tgt_user :: string
  tgt_host :: string
  tgt_port :: u16

definition target_word :: "string \<Rightarrow> string \<Rightarrow> bool" where
  "target_word extra s \<longleftrightarrow>
     s \<noteq> [] \<and> \<not> starts_with ''-'' s \<and>
     list_all (\<lambda>b. is_ascii_alphanumeric b \<or> b \<in> set ''-.'' \<or> b \<in> set extra) s"

definition target_parse :: "string \<Rightarrow> api_error + target" where
  "target_parse ssh =
     (let invalid = bad_request (About_Machine (BadTarget ssh))
      in bindr (ok_or invalid (split_once CHR ''@'' ssh)) (\<lambda>(user, rest).
         bindr (case split_once CHR '':'' rest of
                  Some (host, port) \<Rightarrow> map_err (\<lambda>_. invalid) (ok_or () (map_option (Pair host) (parse_word port)))
                | None \<Rightarrow> Inr (rest, 22)) (\<lambda>(host, port).
         bindr (check (target_word ''_'' user \<and> target_word [] host \<and> port \<noteq> 0) invalid) (\<lambda>_.
         Inr \<lparr>tgt_user = user, tgt_host = host, tgt_port = port\<rparr>))))"

definition target_text :: "target \<Rightarrow> string" where
  "target_text t =
     tgt_user t @ ''@'' @ tgt_host t @ (if tgt_port t \<noteq> 22 then '':'' @ show_word (tgt_port t) else [])"

definition target_ok :: "target \<Rightarrow> bool" where
  "target_ok t \<longleftrightarrow> target_word ''_'' (tgt_user t) \<and> target_word [] (tgt_host t) \<and> tgt_port t \<noteq> 0"

subsection \<open>What \<open>ssh\<close> says\<close>

definition HOST_KEY_FAILED :: string where
  "HOST_KEY_FAILED = ''Host key verification failed.''"

definition is_chatter :: "string \<Rightarrow> bool" where
  "is_chatter line \<longleftrightarrow>
     split_whitespace line = [] \<or>
     list_ex (\<lambda>p. starts_with p line) [''Authenticated to '', ''Transferred: '', ''Bytes per second: '']"

definition last_line :: "string \<Rightarrow> string" where
  "last_line stderr =
     (case find (\<lambda>l. \<not> is_chatter l) (rev (lines stderr)) of Some l \<Rightarrow> l | None \<Rightarrow> ''ssh failed'')"

definition keyscan_keys :: "string \<Rightarrow> string list" where
  "keyscan_keys stdout =
     List.map_filter
       (\<lambda>l. case drop 1 (split_whitespace l) of a # b # _ \<Rightarrow> Some (a @ '' '' @ b) | _ \<Rightarrow> None)
       (filter (\<lambda>l. \<not> starts_with ''#'' l) (lines stdout))"

subsection \<open>State\<close>

record link =
  link_status :: machine_status
  link_last_error :: "string option"
  host_key_changed :: bool

record machine_app =
  mapp_route :: route
  local_port :: u16

record machine =
  m_record :: machine_record
  m_apps :: "(string, machine_app) bmap"
  m_link :: nat

record machines =
  ms_entries :: "(string, machine) bmap"
  ms_known_hosts :: string
  ms_public_key :: "string option"
  ms_links :: "nat \<Rightarrow> link"
  ms_next_link :: nat

definition fresh_link :: link where
  "fresh_link = \<lparr>link_status = Unreachable, link_last_error = None, host_key_changed = False\<rparr>"

definition no_machines :: machines where
  "no_machines = \<lparr>ms_entries = [], ms_known_hosts = [], ms_public_key = None, ms_links = (\<lambda>_. fresh_link),
                  ms_next_link = 0\<rparr>"

definition link_of :: "machines \<Rightarrow> machine \<Rightarrow> link" where
  "link_of ms m = ms_links ms (m_link m)"

subsection \<open>The tunnel\<close>

definition RETRY_FIRST :: nat where "RETRY_FIRST = 1"

definition RETRY_MAX :: nat where "RETRY_MAX = 30"

record ssh_ended =
  logged_in :: bool
  key_changed :: bool
  last_word :: string

text \<open>
  One \<open>ssh\<close>: \<open>said\<close> is either the error of spawning it or the lines of its standard error. The
  result is how it ended and what it left in its link.
\<close>

fun ssh_line :: "string \<Rightarrow> ssh_ended \<times> link \<Rightarrow> ssh_ended \<times> link" where
  "ssh_line line (e, l) =
     (if starts_with ''Authenticated to '' line
      then (e\<lparr>logged_in := True\<rparr>, \<lparr>link_status = Up, link_last_error = None, host_key_changed = False\<rparr>)
      else if line = HOST_KEY_FAILED then (e\<lparr>key_changed := True\<rparr>, l)
      else if \<not> is_chatter line then (e\<lparr>last_word := line\<rparr>, l)
      else (e, l))"

definition run_ssh :: "string + string list \<Rightarrow> link \<Rightarrow> ssh_ended \<times> link" where
  "run_ssh said l =
     (let e = \<lparr>logged_in = False, key_changed = False, last_word = ''ssh exited''\<rparr>
      in case said of
           Inl err \<Rightarrow> (e\<lparr>last_word := ''run ssh: '' @ err\<rparr>, l)
         | Inr ls \<Rightarrow> fold ssh_line ls (e, l))"

text \<open>
  One turn of \<open>run_tunnel\<close>'s loop, from the wait it would sleep next: the link it leaves, and the
  time it sleeps with the next wait, or nothing when the tunnel has ended for good.
\<close>

definition tunnel_turn :: "string + string list \<Rightarrow> nat \<Rightarrow> link \<Rightarrow> link \<times> (nat \<times> nat) option" where
  "tunnel_turn said wait l =
     (let e = fst (run_ssh said l);
          why = (if key_changed e
                 then ''host key changed: it isn't the one pinned when the Machine was added; if that's expected, `cirro machine rm` it and add it again''
                 else last_word e);
          l' = \<lparr>link_status = Unreachable, link_last_error = Some why, host_key_changed = key_changed e\<rparr>
      in if key_changed e then (l', None)
         else let wait = (if logged_in e then RETRY_FIRST else wait)
              in (l', Some (wait, min (wait * 2) RETRY_MAX)))"

text \<open>The loop over as many \<open>ssh\<close>s as there are in \<open>runs\<close>: the times slept and the link left.\<close>

fun run_tunnel :: "(string + string list) list \<Rightarrow> nat \<Rightarrow> link \<Rightarrow> nat list \<times> link" where
  "run_tunnel [] wait l = ([], l)"
| "run_tunnel (said # runs) wait l =
     (case tunnel_turn said wait l of
        (l', None) \<Rightarrow> ([], l')
      | (l', Some (slept, wait')) \<Rightarrow> (let (ts, l'') = run_tunnel runs wait' l' in (slept # ts, l'')))"

subsection \<open>Commands and pinned keys\<close>

definition ssh_command ::
  "path \<Rightarrow> path \<Rightarrow> string \<Rightarrow> target \<Rightarrow> string list \<Rightarrow> string list \<Rightarrow> string list" where
  "ssh_command key known_hosts name t options command =
     [''ssh'', ''-F'', ''/dev/null'', ''-T'', ''-o'', ''BatchMode=yes'', ''-o'', ''StrictHostKeyChecking=yes'',
      ''-o'', ''GlobalKnownHostsFile=/dev/null'', ''-o'', ''UserKnownHostsFile='' @ known_hosts,
      ''-o'', ''HostKeyAlias='' @ name, ''-o'', ''IdentitiesOnly=yes'', ''-i'', key,
      ''-o'', ''ConnectTimeout=10'', ''-o'', ''ServerAliveInterval=5'', ''-o'', ''ServerAliveCountMax=3'',
      ''-o'', ''LogLevel=VERBOSE'']
     @ options @ [''-p'', show_word (tgt_port t), ''-l'', tgt_user t, ''--'', tgt_host t] @ command"

definition known_hosts_text :: "machine_record list \<Rightarrow> string" where
  "known_hosts_text rs = concat (map (\<lambda>r. mr_name r @ '' '' @ mr_pinned_key r @ [CHR 0x0A]) rs)"

definition write_known_hosts ::
  "string option \<Rightarrow> machine_record option \<Rightarrow> machines \<Rightarrow> (string + unit) \<times> machines" where
  "write_known_hosts fault pending ms =
     (case fault of
        Some e \<Rightarrow> (Inl e, ms)
      | None \<Rightarrow>
          (Inr (), ms\<lparr>ms_known_hosts :=
             known_hosts_text (map (\<lambda>(_, m). m_record m) (ms_entries ms)
                               @ (case pending of None \<Rightarrow> [] | Some r \<Rightarrow> [r]))\<rparr>))"

fun assign_ports :: "(string, machine_app) bmap \<Rightarrow> u16 list \<Rightarrow> (string, machine_app) bmap" where
  "assign_ports ((n, a) # apps) (p # ports) = (n, a\<lparr>local_port := p\<rparr>) # assign_ports apps ports"
| "assign_ports apps ports = apps"

definition forward_options :: "(string, machine_app) bmap \<Rightarrow> string list" where
  "forward_options apps =
     [''-N'', ''-o'', ''ExitOnForwardFailure=yes'']
     @ concat (map (\<lambda>(_, a). [''-L'', ''127.0.0.1:'' @ show_word (local_port a) @ '':localhost:''
                                     @ show_word (route_port (mapp_route a))]) apps)"

text \<open>
  \<open>ports\<close> is what \<open>free_local_ports\<close> returned for the Machine's Apps. A Machine whose host key
  changed keeps its link, so no \<open>ssh\<close> runs to it again.
\<close>

definition start_tunnel ::
  "string + u16 list \<Rightarrow> machine \<Rightarrow> machines \<Rightarrow> string + (machine \<times> machines)" where
  "start_tunnel ports m ms =
     (case target_parse (mr_ssh (m_record m)) of
        Inl _ \<Rightarrow> Inl ''invalid SSH target''
      | Inr _ \<Rightarrow>
          bindr ports (\<lambda>ports.
            let m = m\<lparr>m_apps := assign_ports (m_apps m) ports\<rparr>
            in if host_key_changed (link_of ms m) then Inr (m, ms)
               else Inr (m\<lparr>m_link := ms_next_link ms\<rparr>,
                         ms\<lparr>ms_links := (ms_links ms)(ms_next_link ms := fresh_link),
                            ms_next_link := ms_next_link ms + 1\<rparr>)))"

definition set_machine :: "string \<Rightarrow> machine \<Rightarrow> machines \<Rightarrow> machines" where
  "set_machine n m ms = ms\<lparr>ms_entries := bm_insert n m (ms_entries ms)\<rparr>"

definition connect ::
  "string option \<Rightarrow> string + u16 list \<Rightarrow> machine_record \<Rightarrow> (string, route) bmap \<Rightarrow> machines
   \<Rightarrow> (string + unit) \<times> machines" where
  "connect fault ports r apps ms =
     (case write_known_hosts fault (Some r) ms of
        (Inl e, ms) \<Rightarrow> (Inl e, ms)
      | (Inr _, ms) \<Rightarrow>
          let link = ms_next_link ms;
              ms1 = ms\<lparr>ms_links := (ms_links ms)(link := fresh_link), ms_next_link := link + 1\<rparr>;
              m = \<lparr>m_record = r,
                   m_apps = map (\<lambda>(n, route). (n, \<lparr>mapp_route = route, local_port = 0\<rparr>)) apps,
                   m_link = link\<rparr>
          in case start_tunnel ports m ms1 of
               Inl e \<Rightarrow> (Inl e, ms1)
             | Inr (m, ms2) \<Rightarrow> (Inr (), set_machine (mr_name r) m ms2))"

subsection \<open>Operations\<close>

definition has_app :: "machines \<Rightarrow> string \<Rightarrow> bool" where
  "has_app ms name \<longleftrightarrow> list_ex (\<lambda>(_, m). map_of (m_apps m) name \<noteq> None) (ms_entries ms)"

definition machine_app_with_host :: "machines \<Rightarrow> string \<Rightarrow> string option" where
  "machine_app_with_host ms host =
     find_map
       (\<lambda>(_, m). map_option fst (find (\<lambda>(_, a). route_host (mapp_route a) = host) (m_apps m)))
       (ms_entries ms)"

definition machine_apps :: "machines \<Rightarrow> machine_app_info list" where
  "machine_apps ms =
     concat (map (\<lambda>(_, m). map (\<lambda>(n, a). \<lparr>mai_name = n, mai_machine = mr_name (m_record m),
                                          mai_route = mapp_route a, mai_status = link_status (link_of ms m)\<rparr>)
                              (m_apps m))
                 (ms_entries ms))"

definition machine_list :: "machines \<Rightarrow> machine_info list" where
  "machine_list ms =
     map (\<lambda>(_, m). \<lparr>mi_name = mr_name (m_record m), mi_ssh = mr_ssh (m_record m),
                    mi_host_key = mr_fingerprint (m_record m), mi_status = link_status (link_of ms m),
                    mi_last_error = link_last_error (link_of ms m)\<rparr>)
         (ms_entries ms)"

datatype machine_resolution = ViaPort u16 | MachineUnreachable string "string option"

definition machine_resolve :: "machines \<Rightarrow> string \<Rightarrow> machine_resolution option" where
  "machine_resolve ms host =
     find_map
       (\<lambda>(_, m). map_option
          (\<lambda>(_, a). case link_status (link_of ms m) of
                      Up \<Rightarrow> ViaPort (local_port a)
                    | Unreachable \<Rightarrow> MachineUnreachable (mr_name (m_record m)) (link_last_error (link_of ms m)))
          (find (\<lambda>(_, a). route_host (mapp_route a) = host) (m_apps m)))
       (ms_entries ms)"

text \<open>
  \<open>add_app\<close>: \<open>ports\<close> and \<open>ports'\<close> are the ports found for the two times it may start the tunnel,
  \<open>fault\<close> the state database's error.
\<close>

definition add_app ::
  "string + u16 list \<Rightarrow> string + u16 list \<Rightarrow> string option \<Rightarrow> machine_app_request \<Rightarrow> machines \<Rightarrow> store
   \<Rightarrow> (api_error + machine_app_info) \<times> machines \<times> store" where
  "add_app ports ports' fault req ms st =
     (if has_app ms (mar_name req)
      then (Inl (ApiError CONFLICT (About_Machine (AppExists (mar_name req)))), ms, st)
      else case machine_app_with_host ms (route_host (mar_route req)) of
        Some owner \<Rightarrow> (Inl (hostname_taken (route_host (mar_route req)) owner False), ms, st)
      | None \<Rightarrow>
          (case map_of (ms_entries ms) (mar_machine req) of
             None \<Rightarrow> (Inl (ApiError NOT_FOUND (About_Machine (NoSuchMachine (mar_machine req)))), ms, st)
           | Some m \<Rightarrow>
               let m1 = m\<lparr>m_apps := bm_insert (mar_name req) \<lparr>mapp_route = mar_route req, local_port = 0\<rparr> (m_apps m)\<rparr>
               in case start_tunnel ports m1 ms of
                    Inl e \<Rightarrow> (Inl (internal (About_Machine (SshTrouble e))), ms, st)
                  | Inr (m2, ms2) \<Rightarrow>
                      (case insert_machine_app fault
                              \<lparr>ma_name = mar_name req, ma_machine = mar_machine req,
                               ma_host = route_host (mar_route req), ma_port = route_port (mar_route req)\<rparr> st of
                         (Inl e, st') \<Rightarrow>
                           let m3 = m2\<lparr>m_apps := bm_remove (mar_name req) (m_apps m2)\<rparr>;
                               (m4, ms4) = (case start_tunnel ports' m3 ms2 of
                                              Inl _ \<Rightarrow> (m3, ms2) | Inr r \<Rightarrow> r)
                           in (Inl (internal (About_Machine (NotRecorded (mar_name req)))),
                               set_machine (mar_machine req) m4 ms4, st')
                       | (Inr _, st') \<Rightarrow>
                           (Inr \<lparr>mai_name = mar_name req, mai_machine = mar_machine req, mai_route = mar_route req,
                                 mai_status = link_status (link_of ms2 m2)\<rparr>,
                            set_machine (mar_machine req) m2 ms2, st'))))"

definition remove_app ::
  "string + u16 list \<Rightarrow> string option \<Rightarrow> string \<Rightarrow> machines \<Rightarrow> store \<Rightarrow> (api_error + bool) \<times> machines \<times> store" where
  "remove_app ports fault name ms st =
     (case find (\<lambda>(_, m). map_of (m_apps m) name \<noteq> None) (ms_entries ms) of
        None \<Rightarrow> (Inr False, ms, st)
      | Some (n, m) \<Rightarrow>
          (case delete_machine_app fault name st of
             (Inl e, st') \<Rightarrow> (Inl (internal (About_Machine (NotRemoved name))), ms, st')
           | (Inr _, st') \<Rightarrow>
               let m1 = m\<lparr>m_apps := bm_remove name (m_apps m)\<rparr>;
                   (m2, ms2) = (case start_tunnel ports m1 ms of Inl _ \<Rightarrow> (m1, ms) | Inr r \<Rightarrow> r)
               in (Inr True, set_machine n m2 ms2, st')))"

text \<open>
  The outside of \<open>add\<close>: what the two \<open>ssh-keyscan\<close>s print, the fingerprint \<open>ssh-keygen\<close> computes
  of a key, the agent's public key, how the first login went (\<open>None\<close> when it was let in), the faults
  of the three writes of \<open>known_hosts\<close> and of the database, and the ports for the tunnel.
\<close>

record add_outside =
  ao_scan_ed25519 :: "api_error + string"
  ao_scan_all :: "api_error + string"
  ao_fingerprint :: "string \<Rightarrow> api_error + string"
  ao_public_key :: "api_error + string"
  ao_pin_fault :: "string option"
  ao_login :: "string option"
  ao_unpin_fault :: "string option"
  ao_db_fault :: "string option"
  ao_connect_fault :: "string option"
  ao_ports :: "string + u16 list"

definition host_keys :: "add_outside \<Rightarrow> target \<Rightarrow> api_error + string list" where
  "host_keys out t =
     bindr (ao_scan_ed25519 out) (\<lambda>ed.
     bindr (if keyscan_keys ed \<noteq> [] then Inr (keyscan_keys ed)
            else bindr (ao_scan_all out) (\<lambda>s. Inr (keyscan_keys s))) (\<lambda>keys.
     if keys = [] then Inl (ApiError BAD_GATEWAY (About_Machine (SshTrouble (target_text t)))) else Inr keys))"

fun pick_key :: "(string \<Rightarrow> api_error + string) \<Rightarrow> string \<Rightarrow> string list \<Rightarrow> api_error + string option" where
  "pick_key fp want [] = Inr None"
| "pick_key fp want (k # ks) =
     bindr (fp k) (\<lambda>f. if f = want then Inr (Some k) else pick_key fp want ks)"

definition machine_scan :: "add_outside \<Rightarrow> string \<Rightarrow> api_error + string" where
  "machine_scan out ssh =
     bindr (target_parse ssh) (\<lambda>t. bindr (host_keys out t) (\<lambda>keys. ao_fingerprint out (hd keys)))"

definition machine_add ::
  "add_outside \<Rightarrow> add_machine \<Rightarrow> machines \<Rightarrow> store \<Rightarrow> (api_error + unit) \<times> machines \<times> store" where
  "machine_add out add ms st =
     (case bindr (validate_name ''Machine'' (am_name add)) (\<lambda>_. target_parse (am_ssh add)) of
        Inl e \<Rightarrow> (Inl e, ms, st)
      | Inr t \<Rightarrow>
          if map_of (ms_entries ms) (am_name add) \<noteq> None
          then (Inl (ApiError CONFLICT (About_Machine (MachineExists (am_name add)))), ms, st)
          else
            (case bindr (host_keys out t) (pick_key (ao_fingerprint out) (am_host_key add)) of
               Inl e \<Rightarrow> (Inl e, ms, st)
             | Inr None \<Rightarrow> (Inl (ApiError CONFLICT (About_Machine (WrongHostKey (target_text t) (am_host_key add)))), ms, st)
             | Inr (Some key) \<Rightarrow>
                 let r = \<lparr>mr_name = am_name add, mr_ssh = target_text t, mr_pinned_key = key,
                          mr_fingerprint = am_host_key add\<rparr>
                 in case ao_public_key out of
                      Inl e \<Rightarrow> (Inl e, ms, st)
                    | Inr pub \<Rightarrow>
                        let ms = ms\<lparr>ms_public_key := Some pub\<rparr>
                        in case write_known_hosts (ao_pin_fault out) (Some r) ms of
                             (Inl e, ms) \<Rightarrow> (Inl (internal (About_Machine (SshTrouble e))), ms, st)
                           | (Inr _, ms) \<Rightarrow>
                               (case ao_login out of
                                  Some why \<Rightarrow>
                                    (Inl (ApiError BAD_GATEWAY (About_Machine (SshTrouble why))),
                                     snd (write_known_hosts (ao_unpin_fault out) None ms), st)
                                | None \<Rightarrow>
                                    (case insert_machine (ao_db_fault out) r st of
                                       (Inl e, st) \<Rightarrow> (Inl (internal (About_Machine (NotRecorded (am_name add)))), ms, st)
                                     | (Inr _, st) \<Rightarrow>
                                         (case connect (ao_connect_fault out) (ao_ports out) r [] ms of
                                            (Inl e, ms) \<Rightarrow> (Inl (internal (About_Machine (SshTrouble e))), ms, st)
                                          | (Inr _, ms) \<Rightarrow> (Inr (), ms, st))))))"

definition machine_remove ::
  "string option \<Rightarrow> string option \<Rightarrow> string \<Rightarrow> machines \<Rightarrow> store \<Rightarrow> (api_error + unit) \<times> machines \<times> store" where
  "machine_remove fault unpin_fault name ms st =
     (case map_of (ms_entries ms) name of
        None \<Rightarrow> (Inl (ApiError NOT_FOUND (About_Machine (NoSuchMachine name))), ms, st)
      | Some m \<Rightarrow>
          if m_apps m \<noteq> [] then
            (Inl (ApiError CONFLICT (About_Machine (MachineHasApps name (map fst (m_apps m))))), ms, st)
          else
            (case delete_machine fault name st of
               (Inl e, st) \<Rightarrow> (Inl (internal (About_Machine (NotRemoved name))), ms, st)
             | (Inr _, st) \<Rightarrow>
                 (Inr (), snd (write_known_hosts unpin_fault None
                                 (ms\<lparr>ms_entries := bm_remove name (ms_entries ms)\<rparr>)), st)))"

definition disconnect_all :: "machines \<Rightarrow> machines" where
  "disconnect_all ms = ms\<lparr>ms_entries := []\<rparr>"

text \<open>\<open>outs\<close> gives, per Machine, the fault of pinning its key and the ports found for its tunnel.\<close>

definition record_apps :: "machine_app_record list \<Rightarrow> string \<Rightarrow> (string, route) bmap" where
  "record_apps apps name =
     fold (\<lambda>a. bm_insert (ma_name a) \<lparr>route_host = ma_host a, route_port = ma_port a, idle_park_secs = None\<rparr>)
       (filter (\<lambda>a. ma_machine a = name) apps) []"

definition restore ::
  "string option \<Rightarrow> string option \<Rightarrow> (string \<Rightarrow> string option \<times> (string + u16 list)) \<Rightarrow> machines \<Rightarrow> store
   \<Rightarrow> store_error + machines" where
  "restore f1 f2 outs ms st =
     bindr (load_machines f1 st) (\<lambda>records.
     bindr (load_machine_apps f2 st) (\<lambda>apps.
     Inr (fold (\<lambda>r ms. snd (connect (fst (outs (mr_name r))) (snd (outs (mr_name r))) r (record_apps apps (mr_name r)) ms))
            records ms)))"

subsection \<open>Targets read back as printed\<close>

lemma target_word_chars:
  assumes "target_word extra s" and "c \<in> set s" and "c \<notin> set extra" and "\<not> is_ascii_alphanumeric c"
  shows "c = CHR ''-'' \<or> c = CHR ''.''"
  using assms by (auto simp: target_word_def list_all_iff)

lemma target_word_plain:
  assumes "target_word ''_'' s \<or> target_word [] s"
  shows "CHR ''@'' \<notin> set s" "CHR '':'' \<notin> set s"
proof -
  have "\<not> is_ascii_alphanumeric CHR ''@''" "\<not> is_ascii_alphanumeric CHR '':''"
    by (simp_all add: char_class_defs char_le_iff)
  then show "CHR ''@'' \<notin> set s" "CHR '':'' \<notin> set s"
    using assms target_word_chars by fastforce+
qed

lemma target_parse_text: "target_ok t \<Longrightarrow> target_parse (target_text t) = Inr t"
  by (cases "tgt_port t = 22")
    (simp_all add: target_parse_def target_text_def target_ok_def target_word_plain Let_def)

lemma target_parse_ok:
  assumes "target_parse s = Inr t"
  shows "target_ok t"
proof -
  obtain user rest where at: "split_once CHR ''@'' s = Some (user, rest)"
    using assms by (auto simp: target_parse_def Let_def)
  show ?thesis
    using assms at by (cases "split_once CHR '':'' rest") (auto simp: target_parse_def target_ok_def Let_def)
qed

subsection \<open>The tunnel's retries\<close>

lemma tunnel_turn_sleep:
  assumes "tunnel_turn said wait l = (l', Some (slept, wait'))" and "1 \<le> wait" "wait \<le> RETRY_MAX"
  shows "1 \<le> slept" "slept \<le> RETRY_MAX" "1 \<le> wait'" "wait' \<le> RETRY_MAX"
  using assms
  by (auto simp: tunnel_turn_def Let_def RETRY_FIRST_def RETRY_MAX_def split: if_splits)

lemma run_tunnel_sleeps:
  assumes "1 \<le> wait" "wait \<le> RETRY_MAX" and "t \<in> set (fst (run_tunnel runs wait l))"
  shows "1 \<le> t \<and> t \<le> RETRY_MAX"
  using assms
proof (induction runs arbitrary: wait l)
  case (Cons said runs)
  obtain l' r where turn: "tunnel_turn said wait l = (l', r)" by fastforce
  show ?case
  proof (cases r)
    case (Some p)
    obtain slept wait' where p: "p = (slept, wait')" by fastforce
    note b = tunnel_turn_sleep[OF turn[unfolded Some p] Cons.prems(1,2)]
    from Cons.prems(3) turn Some p have "t = slept \<or> t \<in> set (fst (run_tunnel runs wait' l'))"
      by (auto simp: case_prod_unfold Let_def)
    with b Cons.IH[of wait' l'] show ?thesis by auto
  qed (use Cons.prems turn in simp)
qed simp

lemma run_tunnel_doubles:
  assumes "\<forall>said \<in> set runs. \<forall>l. \<not> logged_in (fst (run_ssh said l)) \<and> \<not> key_changed (fst (run_ssh said l))"
    and "wait = min (2 ^ k) RETRY_MAX"
  shows "fst (run_tunnel runs wait l) = map (\<lambda>i. min (2 ^ (k + i)) RETRY_MAX) [0..<length runs]"
  using assms
proof (induction runs arbitrary: wait l k)
  case (Cons said runs)
  have turn: "tunnel_turn said wait l =
     (fst (tunnel_turn said wait l), Some (wait, min (2 ^ Suc k) RETRY_MAX))"
    using Cons.prems by (auto simp: tunnel_turn_def Let_def min_def RETRY_MAX_def)
  have "fst (run_tunnel (said # runs) wait l) =
        wait # fst (run_tunnel runs (min (2 ^ Suc k) RETRY_MAX) (fst (tunnel_turn said wait l)))"
    by (subst run_tunnel.simps, subst turn) (simp add: case_prod_unfold Let_def)
  also have "\<dots> = wait # map (\<lambda>i. min (2 ^ (Suc k + i)) RETRY_MAX) [0..<length runs]"
    using Cons.IH[of "min (2 ^ Suc k) RETRY_MAX" "Suc k"] Cons.prems(1) by simp
  also have "\<dots> = map (\<lambda>i. min (2 ^ (k + i)) RETRY_MAX) [0..<Suc (length runs)]"
    using Cons.prems(2) by (subst upt_conv_Cons) (simp_all add: map_Suc_upt[symmetric] comp_def del: upt_Suc)
  finally show ?case by simp
qed simp

lemma run_tunnel_key_changed:
  assumes "key_changed (fst (run_ssh said l))"
  shows "run_tunnel (said # runs) wait l = ([], fst (tunnel_turn said wait l))"
    and "host_key_changed (fst (tunnel_turn said wait l))"
    and "link_status (fst (tunnel_turn said wait l)) = Unreachable"
  using assms by (simp_all add: tunnel_turn_def Let_def)

subsection \<open>Machines and their Apps\<close>

text \<open>Every Machine-backed App, with its Machine and its route.\<close>

definition machine_routes :: "machine \<Rightarrow> (string \<times> route) list" where
  "machine_routes m = map (\<lambda>(a, app). (a, mapp_route app)) (m_apps m)"

definition all_apps :: "machines \<Rightarrow> (string \<times> string \<times> route) list" where
  "all_apps ms = concat (map (\<lambda>(n, m). map (\<lambda>(a, r). (a, n, r)) (machine_routes m)) (ms_entries ms))"

definition app_hosts :: "machines \<Rightarrow> string list" where
  "app_hosts ms = map (\<lambda>(_, _, r). route_host r) (all_apps ms)"

definition machine_ok :: "nat \<Rightarrow> string \<times> machine \<Rightarrow> bool" where
  "machine_ok next e \<longleftrightarrow>
     mr_name (m_record (snd e)) = fst e \<and> bm_wf (m_apps (snd e)) \<and> m_link (snd e) < next \<and>
     (\<exists>t. target_parse (mr_ssh (m_record (snd e))) = Inr t)"

definition machines_wf :: "machines \<Rightarrow> bool" where
  "machines_wf ms \<longleftrightarrow>
     bm_wf (ms_entries ms) \<and> (\<forall>e \<in> set (ms_entries ms). machine_ok (ms_next_link ms) e) \<and>
     distinct (map fst (all_apps ms)) \<and> distinct (app_hosts ms)"

lemma machine_routes_assign [simp]: "machine_routes (m\<lparr>m_apps := assign_ports (m_apps m) ports\<rparr>) = machine_routes m"
proof -
  have "map (\<lambda>(a, app). (a, mapp_route app)) (assign_ports apps ports) = map (\<lambda>(a, app). (a, mapp_route app)) apps" for apps
    by (induction apps ports rule: assign_ports.induct) auto
  then show ?thesis by (simp add: machine_routes_def)
qed

lemma bm_wf_assign [simp]: "bm_wf (assign_ports apps ports) \<longleftrightarrow> bm_wf apps"
proof -
  have "map fst (assign_ports apps ports) = map fst apps"
    by (induction apps ports rule: assign_ports.induct) auto
  then show ?thesis by (simp add: bm_wf_def)
qed

lemma start_tunnel_outcome:
  assumes "start_tunnel ports m ms = Inr (m', ms')"
  shows "m_record m' = m_record m" "machine_routes m' = machine_routes m"
    "bm_wf (m_apps m') = bm_wf (m_apps m)"
    "ms_entries ms' = ms_entries ms" "ms_known_hosts ms' = ms_known_hosts ms"
    "ms_next_link ms \<le> ms_next_link ms'" "m_link m < ms_next_link ms \<Longrightarrow> m_link m' < ms_next_link ms'"
  using assms machine_routes_assign[of m]
  by (auto simp: start_tunnel_def Let_def machine_routes_def split: sum.splits if_splits)

text \<open>
  No \<open>ssh\<close> is started for a Machine whose host key changed, and a new \<open>ssh\<close> gets a link of its own,
  down until it says otherwise, so what the one before it still writes is never read.
\<close>

lemma start_tunnel_link:
  assumes "start_tunnel ports m ms = Inr (m', ms')"
  shows "host_key_changed (link_of ms m) \<Longrightarrow> m_link m' = m_link m \<and> ms' = ms"
    and "\<not> host_key_changed (link_of ms m) \<Longrightarrow> m_link m' = ms_next_link ms \<and> link_of ms' m' = fresh_link"
  using assms
  by (auto simp: start_tunnel_def Let_def link_of_def split: sum.splits if_splits)

lemma mset_bm_insert_new:
  "map_of m k = None \<Longrightarrow> mset (bm_insert k v m) = add_mset (k, v) (mset m)"
  by (induction k v m rule: bm_insert.induct) (auto split: if_splits)

lemma mset_bm_remove:
  assumes "bm_wf m" and "map_of m k = Some v"
  shows "mset m = add_mset (k, v) (mset (bm_remove k m))"
  using assms
proof (induction m)
  case (Cons e m)
  have tail: "bm_wf m" "fst e \<notin> fst ` set m"
    using Cons.prems(1) by (auto simp: bm_wf_def)
  show ?case
  proof (cases "fst e = k")
    case True
    then have "filter (\<lambda>e. fst e \<noteq> k) m = m"
      using tail(2) by (intro filter_True) (metis image_eqI)
    with True Cons.prems(2) show ?thesis by (cases e) (auto simp: bm_remove_def)
  next
    case False
    with Cons tail show ?thesis by (cases e) (auto simp: bm_remove_def)
  qed
qed simp

lemma mset_concat_bm_insert:
  assumes "bm_wf e" and "map_of e n = Some m"
  shows "mset (concat (map f (bm_insert n m' e))) + mset (f (n, m)) =
         mset (concat (map f e)) + mset (f (n, m'))"
  using assms
proof (induction e)
  case (Cons x e)
  obtain n0 m0 where x: "x = (n0, m0)" by fastforce
  have lt: "\<forall>k \<in> fst ` set e. n0 < k" and wf: "bm_wf e"
    using Cons.prems(1) x by (auto simp: bm_wf_def)
  show ?case
  proof (cases "n = n0")
    case False
    then have m: "map_of e n = Some m"
      using Cons.prems(2) x by simp
    then have "n \<in> fst ` set e"
      using map_of_SomeD by force
    with lt have "n0 < n" by blast
    then have "\<not> n < n0" "n \<noteq> n0" by auto
    with Cons.IH[OF wf m] x show ?thesis by (simp add: ac_simps)
  qed (use Cons.prems(2) x in simp)
qed simp

lemma set_all_apps:
  "x \<in> set (all_apps ms) \<longleftrightarrow>
   (\<exists>m app. (fst (snd x), m) \<in> set (ms_entries ms) \<and> (fst x, app) \<in> set (m_apps m) \<and> snd (snd x) = mapp_route app)"
  by (cases x) (force simp: all_apps_def machine_routes_def)

lemma has_app_iff:
  assumes "machines_wf ms"
  shows "has_app ms name \<longleftrightarrow> name \<in> fst ` set (all_apps ms)"
proof -
  have "map_of (m_apps m) name \<noteq> None \<longleftrightarrow> name \<in> fst ` set (machine_routes m)" for m
    by (force simp: machine_routes_def map_of_eq_None_iff)
  then show ?thesis
    by (force simp: has_app_def list_ex_iff all_apps_def)
qed

lemma machine_app_with_host_None:
  "machine_app_with_host ms host = None \<longleftrightarrow> host \<notin> set (app_hosts ms)"
  by (force simp: machine_app_with_host_def find_map_None find_None_iff app_hosts_def all_apps_def
        machine_routes_def)

lemma mset_all_apps_set_machine:
  assumes "bm_wf (ms_entries ms)" and "map_of (ms_entries ms) n = Some m"
  shows "mset (all_apps (set_machine n m' ms)) + mset (map (\<lambda>(a, r). (a, n, r)) (machine_routes m)) =
         mset (all_apps ms) + mset (map (\<lambda>(a, r). (a, n, r)) (machine_routes m'))"
  using mset_concat_bm_insert[OF assms, of "\<lambda>(n, m). map (\<lambda>(a, r). (a, n, r)) (machine_routes m)" m']
  by (simp add: all_apps_def set_machine_def)

lemma machines_wf_set_machine:
  assumes wf: "machines_wf ms" and n: "map_of (ms_entries ms) n = Some m"
    and ok: "machine_ok (ms_next_link ms') (n, m')"
    and same: "ms_entries ms' = ms_entries ms" "ms_next_link ms \<le> ms_next_link ms'"
    and apps: "mset (all_apps (set_machine n m' ms')) = M"
    and names: "image_mset fst M = mset ns" "distinct ns"
    and hosts: "image_mset (\<lambda>(_, _, r). route_host r) M = mset hs" "distinct hs"
  shows "machines_wf (set_machine n m' ms')"
proof -
  have "distinct (map fst (all_apps (set_machine n m' ms')))"
    using apps names by (metis mset_eq_imp_distinct_iff mset_map)
  moreover have "distinct (app_hosts (set_machine n m' ms'))"
    using apps hosts unfolding app_hosts_def by (metis mset_eq_imp_distinct_iff mset_map)
  moreover have "machine_ok (ms_next_link ms') e" if "e \<in> set (bm_insert n m' (ms_entries ms))" for e
  proof -
    have "bm_wf (ms_entries ms)" using wf by (simp add: machines_wf_def)
    from set_bm_insert[OF this that] have "e = (n, m') \<or> e \<in> set (ms_entries ms)" .
    with ok wf same(2) show ?thesis
      by (auto simp: machines_wf_def machine_ok_def intro: order_less_le_trans)
  qed
  ultimately show ?thesis
    using wf same by (auto simp: machines_wf_def set_machine_def)
qed

lemma machine_routes_insert:
  assumes "map_of (m_apps m) a = None"
  shows "mset (machine_routes (m\<lparr>m_apps := bm_insert a app (m_apps m)\<rparr>)) =
         add_mset (a, mapp_route app) (mset (machine_routes m))"
  using mset_bm_insert_new[OF assms] by (simp add: machine_routes_def)

lemma machine_routes_remove:
  assumes "bm_wf (m_apps m)" and "map_of (m_apps m) a = Some app"
  shows "mset (machine_routes m) =
         add_mset (a, mapp_route app) (mset (machine_routes (m\<lparr>m_apps := bm_remove a (m_apps m)\<rparr>)))"
  using mset_bm_remove[OF assms] by (simp add: machine_routes_def)

lemma replace_machine_apps:
  assumes wf: "machines_wf ms" and n: "map_of (ms_entries ms) n = Some m"
    and same: "ms_entries ms' = ms_entries ms"
    and routes: "mset (machine_routes m') + R = mset (machine_routes m) + A"
  shows "mset (all_apps (set_machine n m' ms')) + image_mset (\<lambda>(a, r). (a, n, r)) R =
         mset (all_apps ms) + image_mset (\<lambda>(a, r). (a, n, r)) A"
proof -
  let ?tag = "\<lambda>(a, r). (a, n, r)"
  have e: "all_apps (set_machine n m' ms') = all_apps (set_machine n m' ms)"
    using same by (simp add: all_apps_def set_machine_def)
  have "bm_wf (ms_entries ms)" using wf by (simp add: machines_wf_def)
  note swap = mset_all_apps_set_machine[OF this n, of m']
  have "image_mset ?tag (mset (machine_routes m') + R) = image_mset ?tag (mset (machine_routes m) + A)"
    using routes by simp
  then have images: "image_mset ?tag (mset (machine_routes m')) + image_mset ?tag R =
        image_mset ?tag (mset (machine_routes m)) + image_mset ?tag A" by simp
  have cancel: "p + r = q + a" if "p + x = q + x'" "x' + r = x + a"
    for p q r a x x' :: "(string \<times> string \<times> route) multiset"
  proof -
    have "x + (p + r) = (p + x) + r" by (simp add: ac_simps)
    also have "\<dots> = q + (x' + r)" using that(1) by (simp add: ac_simps)
    also have "\<dots> = x + (q + a)" using that(2) by (simp add: ac_simps)
    finally show ?thesis by simp
  qed
  have "mset (all_apps (set_machine n m' ms)) + image_mset ?tag R =
        mset (all_apps ms) + image_mset ?tag A"
    by (rule cancel[OF _ images]) (use swap in simp)
  then show ?thesis using e by simp
qed

text \<open>A failed or successful restart of a Machine's tunnel changes nothing but its ports and link.\<close>

definition retunnel :: "string + u16 list \<Rightarrow> machine \<Rightarrow> machines \<Rightarrow> machine \<times> machines" where
  "retunnel ports m ms = (case start_tunnel ports m ms of Inl _ \<Rightarrow> (m, ms) | Inr r \<Rightarrow> r)"

lemma retunnel_outcome:
  assumes "retunnel ports m ms = (m', ms')"
  shows "m_record m' = m_record m" "machine_routes m' = machine_routes m"
    "bm_wf (m_apps m') = bm_wf (m_apps m)" "ms_entries ms' = ms_entries ms"
    "ms_next_link ms \<le> ms_next_link ms'" "m_link m < ms_next_link ms \<Longrightarrow> m_link m' < ms_next_link ms'"
  using assms start_tunnel_outcome[of ports m ms m' ms']
  by (auto simp: retunnel_def split: sum.splits)

lemma machine_entry_ok:
  "machines_wf ms \<Longrightarrow> map_of (ms_entries ms) n = Some m \<Longrightarrow> machine_ok (ms_next_link ms) (n, m)"
  by (auto simp: machines_wf_def dest!: map_of_SomeD)

lemma machines_wf_same_apps:
  assumes wf: "machines_wf ms" and n: "map_of (ms_entries ms) n = Some m"
    and ok: "machine_ok (ms_next_link ms') (n, m')"
    and same: "ms_entries ms' = ms_entries ms" "ms_next_link ms \<le> ms_next_link ms'"
    and routes: "mset (machine_routes m') = mset (machine_routes m)"
  shows "machines_wf (set_machine n m' ms')" and "mset (all_apps (set_machine n m' ms')) = mset (all_apps ms)"
proof -
  show apps: "mset (all_apps (set_machine n m' ms')) = mset (all_apps ms)"
    using replace_machine_apps[OF wf n same(1), of m' "{#}" "{#}"] routes by simp
  show "machines_wf (set_machine n m' ms')"
    by (rule machines_wf_set_machine[OF wf n ok same apps, of "map fst (all_apps ms)" "app_hosts ms"])
      (use wf in \<open>simp_all add: machines_wf_def app_hosts_def\<close>)
qed

lemma add_app_failure:
  assumes wf: "machines_wf ms" and run: "add_app ports ports' fault req ms st = (Inl e, ms', st')"
  shows "machines_wf ms'" "mset (all_apps ms') = mset (all_apps ms)" "st' = st"
proof -
  let ?n = "mar_machine req" and ?a = "mar_name req"
  let ?app = "\<lparr>mapp_route = mar_route req, local_port = 0\<rparr>"
  have *: "machines_wf ms' \<and> mset (all_apps ms') = mset (all_apps ms) \<and> st' = st"
  proof (cases "ms' = ms \<and> st' = st")
    case False
    with run obtain m m2 ms2 where fresh: "\<not> has_app ms ?a"
      and n: "map_of (ms_entries ms) ?n = Some m"
      and t: "start_tunnel ports (m\<lparr>m_apps := bm_insert ?a ?app (m_apps m)\<rparr>) ms = Inr (m2, ms2)"
      and st: "st' = st"
      and ms': "ms' = (let (m4, ms4) = retunnel ports' (m2\<lparr>m_apps := bm_remove ?a (m_apps m2)\<rparr>) ms2
                       in set_machine ?n m4 ms4)"
      by (auto simp: add_app_def retunnel_def insert_machine_app_def db_exec_def Let_def case_prod_unfold
            split: if_splits option.splits sum.splits)
    define m3 where "m3 = m2\<lparr>m_apps := bm_remove ?a (m_apps m2)\<rparr>"
    obtain m4 ms4 where r: "retunnel ports' m3 ms2 = (m4, ms4)" by fastforce
    note ok = machine_entry_ok[OF wf n]
    have new: "map_of (m_apps m) ?a = None"
      using fresh n by (auto simp: has_app_def list_ex_iff dest!: map_of_SomeD)
    note t_out = start_tunnel_outcome[OF t] and r_out = retunnel_outcome[OF r]
    have wf1: "bm_wf (m_apps m2)"
      using t_out(3) ok by (simp add: machine_ok_def bm_wf_insert)
    have m2r: "mset (machine_routes m2) = add_mset (?a, mar_route req) (mset (machine_routes m))"
      using t_out(2) machine_routes_insert[OF new, of ?app] by simp
    then have "(?a, mar_route req) \<in> set (machine_routes m2)"
      by (metis set_mset_mset union_single_eq_member)
    then obtain app where app: "map_of (m_apps m2) ?a = Some app" "mapp_route app = mar_route req"
      using wf1 by (auto simp: machine_routes_def bm.entry_iff)
    have m3r: "mset (machine_routes m3) = mset (machine_routes m)"
      using machine_routes_remove[OF wf1 app(1)] m2r app(2) by (simp add: m3_def)
    have ok4: "machine_ok (ms_next_link ms4) (?n, m4)"
      using ok r_out t_out wf1 by (auto simp: machine_ok_def m3_def bm_wf_remove)
    have "ms' = set_machine ?n m4 ms4" using ms' r by (simp add: m3_def)
    then show ?thesis
      using machines_wf_same_apps[OF wf n ok4] r_out t_out m3r st by simp
  qed (use wf in simp)
  then show "machines_wf ms'" "mset (all_apps ms') = mset (all_apps ms)" "st' = st" by simp_all
qed

lemma add_app_success:
  assumes wf: "machines_wf ms" and run: "add_app ports ports' fault req ms st = (Inr info, ms', st')"
  shows "machines_wf ms'"
    "mset (all_apps ms') = add_mset (mar_name req, mar_machine req, mar_route req) (mset (all_apps ms))"
    "insert_machine_app None
       \<lparr>ma_name = mar_name req, ma_machine = mar_machine req, ma_host = route_host (mar_route req),
        ma_port = route_port (mar_route req)\<rparr> st = (Inr (), st')"
    "mar_name req \<notin> fst ` set (all_apps ms)" "route_host (mar_route req) \<notin> set (app_hosts ms)"
proof -
  let ?n = "mar_machine req" and ?a = "mar_name req"
  let ?app = "\<lparr>mapp_route = mar_route req, local_port = 0\<rparr>"
  from run obtain m m2 ms2 where fresh: "\<not> has_app ms ?a"
    and host: "machine_app_with_host ms (route_host (mar_route req)) = None"
    and n: "map_of (ms_entries ms) ?n = Some m"
    and t: "start_tunnel ports (m\<lparr>m_apps := bm_insert ?a ?app (m_apps m)\<rparr>) ms = Inr (m2, ms2)"
    and ms': "ms' = set_machine ?n m2 ms2"
    and st: "insert_machine_app None
       \<lparr>ma_name = ?a, ma_machine = ?n, ma_host = route_host (mar_route req),
        ma_port = route_port (mar_route req)\<rparr> st = (Inr (), st')"
    by (auto simp: add_app_def insert_machine_app_def db_exec_def Let_def case_prod_unfold
          split: if_splits option.splits sum.splits)
  show "insert_machine_app None
       \<lparr>ma_name = ?a, ma_machine = ?n, ma_host = route_host (mar_route req),
        ma_port = route_port (mar_route req)\<rparr> st = (Inr (), st')" by (rule st)
  show f1: "?a \<notin> fst ` set (all_apps ms)" using fresh wf by (simp add: has_app_iff)
  show f2: "route_host (mar_route req) \<notin> set (app_hosts ms)"
    using host by (simp add: machine_app_with_host_None)
  note ok = machine_entry_ok[OF wf n] and t_out = start_tunnel_outcome[OF t]
  have new: "map_of (m_apps m) ?a = None"
    using fresh n by (auto simp: has_app_def list_ex_iff dest!: map_of_SomeD)
  have m2r: "mset (machine_routes m2) + {#} = mset (machine_routes m) + {#(?a, mar_route req)#}"
    using t_out(2) machine_routes_insert[OF new, of ?app] by simp
  show apps: "mset (all_apps ms') = add_mset (?a, ?n, mar_route req) (mset (all_apps ms))"
    using replace_machine_apps[OF wf n t_out(4) m2r] ms' by simp
  have ok2: "machine_ok (ms_next_link ms2) (?n, m2)"
    using ok t_out by (auto simp: machine_ok_def bm_wf_insert)
  show "machines_wf ms'"
    unfolding ms'
    by (rule machines_wf_set_machine[OF wf n ok2 t_out(4,6) apps[unfolded ms'],
          of "?a # map fst (all_apps ms)" "route_host (mar_route req) # app_hosts ms"])
      (use wf f1 f2 in \<open>auto simp: machines_wf_def app_hosts_def\<close>)
qed

lemma remove_app_outcome:
  assumes wf: "machines_wf ms" and run: "remove_app ports fault name ms st = (r, ms', st')"
  shows "machines_wf ms'"
    and "r = Inr True \<Longrightarrow> \<exists>n route. mset (all_apps ms) = add_mset (name, n, route) (mset (all_apps ms'))"
    and "r = Inr True \<Longrightarrow> delete_machine_app None name st = (Inr (), st')"
    and "r \<noteq> Inr True \<Longrightarrow> ms' = ms \<and> st' = st"
    and "r = Inr False \<longleftrightarrow> \<not> has_app ms name"
proof -
  let ?found = "find (\<lambda>(_, m). map_of (m_apps m) name \<noteq> None) (ms_entries ms)"
  have none: "?found = None \<longleftrightarrow> \<not> has_app ms name"
    by (auto simp: find_None_iff has_app_def list_ex_iff)
  show "r = Inr False \<longleftrightarrow> \<not> has_app ms name"
    using run none
    by (auto simp: remove_app_def delete_machine_app_def db_exec_def Let_def case_prod_unfold
          split: option.splits sum.splits)
  show "r \<noteq> Inr True \<Longrightarrow> ms' = ms \<and> st' = st"
    using run
    by (auto simp: remove_app_def delete_machine_app_def db_exec_def Let_def case_prod_unfold
          split: option.splits sum.splits)
  show "r = Inr True \<Longrightarrow> delete_machine_app None name st = (Inr (), st')"
    using run
    by (auto simp: remove_app_def delete_machine_app_def db_exec_def Let_def case_prod_unfold
          split: option.splits sum.splits)
  have removed: "machines_wf ms' \<and> (\<exists>n route. mset (all_apps ms) = add_mset (name, n, route) (mset (all_apps ms')))"
    if r: "r = Inr True"
  proof -
    from run r obtain n m where found: "?found = Some (n, m)"
      and ms': "ms' = (let (m2, ms2) = retunnel ports (m\<lparr>m_apps := bm_remove name (m_apps m)\<rparr>) ms
                       in set_machine n m2 ms2)"
      by (auto simp: remove_app_def retunnel_def delete_machine_app_def db_exec_def Let_def case_prod_unfold
            split: option.splits sum.splits)
    define m1 where "m1 = m\<lparr>m_apps := bm_remove name (m_apps m)\<rparr>"
    obtain m2 ms2 where t: "retunnel ports m1 ms = (m2, ms2)" by fastforce
    note out = retunnel_outcome[OF t]
    have mem: "(n, m) \<in> set (ms_entries ms)" and "map_of (m_apps m) name \<noteq> None"
      using found by (auto simp: find_Some_iff) (metis nth_mem)
    then obtain app where app: "map_of (m_apps m) name = Some app" by blast
    have n: "map_of (ms_entries ms) n = Some m"
      using mem wf by (simp add: machines_wf_def bm.entry_iff)
    note ok = machine_entry_ok[OF wf n]
    then have "bm_wf (m_apps m)" by (simp add: machine_ok_def)
    note gone = machine_routes_remove[OF this app, folded m1_def]
    have "mset (machine_routes m2) + {#(name, mapp_route app)#} = mset (machine_routes m) + {#}"
      using out(2) gone by simp
    from replace_machine_apps[OF wf n out(4) this]
    have apps: "mset (all_apps ms) = add_mset (name, n, mapp_route app) (mset (all_apps ms'))"
      using ms' t by (simp add: m1_def)
    have ok2: "machine_ok (ms_next_link ms2) (n, m2)"
      using ok out by (auto simp: machine_ok_def m1_def bm_wf_remove)
    have "image_mset fst (mset (all_apps ms)) = mset (map fst (all_apps ms))"
      "image_mset (\<lambda>(_, _, r). route_host r) (mset (all_apps ms)) = mset (app_hosts ms)"
      by (simp_all add: app_hosts_def)
    then have names: "mset (map fst (all_apps ms)) = mset (name # map fst (all_apps ms'))"
      and hosts: "mset (app_hosts ms) = mset (route_host (mapp_route app) # app_hosts ms')"
      unfolding apps by (simp_all add: app_hosts_def)
    have "distinct (map fst (all_apps ms'))" "distinct (app_hosts ms')"
      using wf mset_eq_imp_distinct_iff[OF names] mset_eq_imp_distinct_iff[OF hosts]
      by (simp_all add: machines_wf_def)
    moreover have eq: "ms' = set_machine n m2 ms2" using ms' t by (simp add: m1_def)
    ultimately have "machines_wf ms'"
      using machines_wf_set_machine[OF wf n ok2 out(4,5), of "mset (all_apps ms')" "map fst (all_apps ms')" "app_hosts ms'"]
      by (simp add: app_hosts_def)
    with apps show ?thesis by blast
  qed
  then show "r = Inr True \<Longrightarrow> \<exists>n route. mset (all_apps ms) = add_mset (name, n, route) (mset (all_apps ms'))"
    by blast
  show "machines_wf ms'"
    using removed \<open>r \<noteq> Inr True \<Longrightarrow> ms' = ms \<and> st' = st\<close> wf by blast
qed

lemma machines_frame [simp]:
  "machines_wf (ms\<lparr>ms_known_hosts := k\<rparr>) = machines_wf ms"
  "machines_wf (ms\<lparr>ms_public_key := p\<rparr>) = machines_wf ms"
  "all_apps (ms\<lparr>ms_known_hosts := k\<rparr>) = all_apps ms"
  "all_apps (ms\<lparr>ms_public_key := p\<rparr>) = all_apps ms"
  by (simp_all add: machines_wf_def all_apps_def app_hosts_def)

lemma write_known_hosts_frame:
  "machines_wf (snd (write_known_hosts fault pending ms)) = machines_wf ms"
  "all_apps (snd (write_known_hosts fault pending ms)) = all_apps ms"
  "ms_entries (snd (write_known_hosts fault pending ms)) = ms_entries ms"
  by (simp_all add: write_known_hosts_def split: option.splits)

lemma concat_bm_insert_new:
  "map_of e n = None \<Longrightarrow> mset (concat (map f (bm_insert n m e))) = mset (f (n, m)) + mset (concat (map f e))"
  by (induction n m e rule: bm_insert.induct) (auto simp: ac_simps split: if_splits)

lemma connect_outcome:
  assumes wf: "machines_wf ms" and fresh: "map_of (ms_entries ms) (mr_name r) = None"
    and tgt: "target_parse (mr_ssh r) = Inr t"
    and apps: "bm_wf apps" "set (map fst apps) \<inter> fst ` set (all_apps ms) = {}"
    "distinct (map (route_host \<circ> snd) apps)" "set (map (route_host \<circ> snd) apps) \<inter> set (app_hosts ms) = {}"
    and run: "connect fault ports r apps ms = (res, ms')"
  shows "machines_wf ms'"
    and "res = Inr () \<Longrightarrow> mset (all_apps ms') = mset (map (\<lambda>(a, route). (a, mr_name r, route)) apps) + mset (all_apps ms)"
    and "res = Inr () \<Longrightarrow> \<exists>m. map_of (ms_entries ms') (mr_name r) = Some m \<and> m_record m = r"
    and "\<And>e. res = Inl e \<Longrightarrow> ms_entries ms' = ms_entries ms"
proof -
  define m where "m = \<lparr>m_record = r, m_apps = map (\<lambda>(n, route). (n, \<lparr>mapp_route = route, local_port = 0\<rparr>)) apps,
                       m_link = ms_next_link ms\<rparr>"
  obtain w ms0 where w: "write_known_hosts fault (Some r) ms = (w, ms0)" by fastforce
  note w_out = write_known_hosts_frame[of fault "Some r" ms, unfolded w, simplified]
  have next0: "ms_next_link ms0 = ms_next_link ms"
    using w by (auto simp: write_known_hosts_def split: option.splits)
  define ms1 where "ms1 = ms0\<lparr>ms_links := (ms_links ms0)(ms_next_link ms := fresh_link), ms_next_link := ms_next_link ms + 1\<rparr>"
  have e1: "ms_entries ms1 = ms_entries ms" using w_out by (simp add: ms1_def)
  have grow: "machines_wf ms1"
    using wf e1 by (auto simp: machines_wf_def all_apps_def app_hosts_def ms1_def machine_ok_def less_SucI)
  have run': "connect fault ports r apps ms =
      (case w of Inl e \<Rightarrow> (Inl e, ms0) | Inr _ \<Rightarrow>
         (case start_tunnel ports m ms1 of Inl e \<Rightarrow> (Inl e, ms1)
          | Inr (m2, ms2) \<Rightarrow> (Inr (), set_machine (mr_name r) m2 ms2)))"
    by (simp add: connect_def w next0 m_def ms1_def Let_def split: sum.splits)
  have routes: "machine_routes m = apps"
    by (simp add: machine_routes_def m_def comp_def case_prod_unfold)
  have done_: "machines_wf ms' \<and> mset (all_apps ms') = mset (map (\<lambda>(a, route). (a, mr_name r, route)) apps) + mset (all_apps ms) \<and>
      map_of (ms_entries ms') (mr_name r) = Some m2 \<and> m_record m2 = r"
    if t: "start_tunnel ports m ms1 = Inr (m2, ms2)" and ms': "ms' = set_machine (mr_name r) m2 ms2" for m2 ms2
  proof -
    note out = start_tunnel_outcome[OF t]
    have e2: "ms_entries ms2 = ms_entries ms" using out(4) e1 by simp
    have all: "mset (all_apps ms') = mset (map (\<lambda>(a, route). (a, mr_name r, route)) apps) + mset (all_apps ms)"
      using concat_bm_insert_new[OF fresh, of "\<lambda>(n, m). map (\<lambda>(a, r). (a, n, r)) (machine_routes m)" m2]
      by (simp add: ms' all_apps_def set_machine_def e2 out(2) routes)
    have ok: "machine_ok (ms_next_link ms2) (mr_name r, m2)"
      using out tgt apps(1) by (simp add: machine_ok_def m_def ms1_def bm_wf_map_values[of "\<lambda>_ route. \<lparr>mapp_route = route, local_port = 0\<rparr>"])
    have dist: "distinct (map fst (all_apps ms'))" "distinct (app_hosts ms')"
    proof -
      have "mset (map fst (all_apps ms')) = mset (map fst apps @ map fst (all_apps ms))"
        "mset (app_hosts ms') = mset (map (route_host \<circ> snd) apps @ app_hosts ms)"
        using all by (simp_all add: app_hosts_def image_mset.compositionality comp_def case_prod_unfold)
      from this[THEN mset_eq_imp_distinct_iff] show "distinct (map fst (all_apps ms'))" "distinct (app_hosts ms')"
        using apps wf bm.distinct_keys[OF apps(1)] by (auto simp: machines_wf_def)
    qed
    have "\<forall>e \<in> set (ms_entries ms'). machine_ok (ms_next_link ms') e"
    proof
      fix e
      assume "e \<in> set (ms_entries ms')"
      then have "e = (mr_name r, m2) \<or> e \<in> set (ms_entries ms)"
        using wf set_bm_insert[of "ms_entries ms" e "mr_name r" m2] by (auto simp: ms' set_machine_def e2 machines_wf_def)
      then show "machine_ok (ms_next_link ms') e"
        using ok wf out(6) by (auto simp: ms' set_machine_def machines_wf_def machine_ok_def ms1_def)
    qed
    then have "machines_wf ms'"
      using dist wf by (auto simp: machines_wf_def ms' set_machine_def e2)
    with all out(1) show ?thesis by (simp add: ms' set_machine_def e2 m_def)
  qed
  show "machines_wf ms'"
    using run run' done_ grow w_out wf by (auto split: sum.splits)
  show "res = Inr () \<Longrightarrow> mset (all_apps ms') = mset (map (\<lambda>(a, route). (a, mr_name r, route)) apps) + mset (all_apps ms)"
    using run run' done_ by (auto split: sum.splits)
  show "res = Inr () \<Longrightarrow> \<exists>m. map_of (ms_entries ms') (mr_name r) = Some m \<and> m_record m = r"
    using run run' done_ by (force split: sum.splits)
  show "\<And>e. res = Inl e \<Longrightarrow> ms_entries ms' = ms_entries ms"
    using run run' e1 w_out by (auto split: sum.splits)
qed

lemma mset_concat_cong: "mset xs = mset ys \<Longrightarrow> mset (concat (map f xs)) = mset (concat (map f ys))"
proof -
  assume "mset xs = mset ys"
  then have "mset (map (mset \<circ> f) xs) = mset (map (mset \<circ> f) ys)" by simp
  then have "sum_list (map (mset \<circ> f) xs) = sum_list (map (mset \<circ> f) ys)"
    by (metis sum_mset_sum_list)
  then show ?thesis by (simp add: mset_concat comp_def)
qed

lemma pick_key_SomeD: "pick_key fp want ks = Inr (Some k) \<Longrightarrow> k \<in> set ks \<and> fp k = Inr want"
  by (induction ks) (auto split: if_splits)

lemma machine_add_success:
  assumes wf: "machines_wf ms" and run: "machine_add out add ms st = (Inr u, ms', st')"
  shows "machines_wf ms'" "mset (all_apps ms') = mset (all_apps ms)"
    and "map_of (ms_entries ms) (am_name add) = None"
    and "\<exists>m keys t. map_of (ms_entries ms') (am_name add) = Some m \<and>
           target_parse (am_ssh add) = Inr t \<and> mr_ssh (m_record m) = target_text t \<and>
           host_keys out t = Inr keys \<and> mr_pinned_key (m_record m) \<in> set keys \<and>
           ao_fingerprint out (mr_pinned_key (m_record m)) = Inr (am_host_key add) \<and>
           insert_machine None (m_record m) st = (Inr (), st')"
    and "ao_login out = None"
proof -
  from run obtain t keys key pub ms1 ms2 where v: "valid_name (am_name add)" "target_parse (am_ssh add) = Inr t"
    and fresh: "map_of (ms_entries ms) (am_name add) = None"
    and keys: "host_keys out t = Inr keys"
    and pick: "pick_key (ao_fingerprint out) (am_host_key add) keys = Inr (Some key)"
    and pin: "write_known_hosts (ao_pin_fault out)
               (Some \<lparr>mr_name = am_name add, mr_ssh = target_text t, mr_pinned_key = key, mr_fingerprint = am_host_key add\<rparr>)
               (ms\<lparr>ms_public_key := Some pub\<rparr>) = (Inr (), ms1)"
    and login: "ao_login out = None"
    and ins: "insert_machine (ao_db_fault out)
               \<lparr>mr_name = am_name add, mr_ssh = target_text t, mr_pinned_key = key, mr_fingerprint = am_host_key add\<rparr> st
              = (Inr (), st')"
    and conn: "connect (ao_connect_fault out) (ao_ports out)
               \<lparr>mr_name = am_name add, mr_ssh = target_text t, mr_pinned_key = key, mr_fingerprint = am_host_key add\<rparr> [] ms1
              = (Inr (), ms')"
    by (auto simp: machine_add_def Let_def validate_name_def split: sum.splits if_splits option.splits prod.splits)
  define r where "r = \<lparr>mr_name = am_name add, mr_ssh = target_text t, mr_pinned_key = key, mr_fingerprint = am_host_key add\<rparr>"
  note frame = write_known_hosts_frame[of "ao_pin_fault out" "Some r" "ms\<lparr>ms_public_key := Some pub\<rparr>", unfolded r_def pin, simplified]
  have wf1: "machines_wf ms1" and e1: "ms_entries ms1 = ms_entries ms"
    using frame wf by (simp_all add: r_def)
  have tgt: "target_parse (mr_ssh r) = Inr t"
    using target_parse_text[OF target_parse_ok[OF v(2)]] by (simp add: r_def)
  have fresh1: "map_of (ms_entries ms1) (mr_name r) = None"
    using fresh e1 by (simp add: r_def)
  note out = connect_outcome[OF wf1 fresh1 tgt _ _ _ _ conn[folded r_def], simplified]
  show "machines_wf ms'" by (rule out(1))
  show "mset (all_apps ms') = mset (all_apps ms)" using out(2) frame by (simp add: r_def)
  show "map_of (ms_entries ms) (am_name add) = None" by (rule fresh)
  show "ao_login out = None" by (rule login)
  from out(3) obtain m where m: "map_of (ms_entries ms') (mr_name r) = Some m" "m_record m = r" by blast
  have "ao_db_fault out = None" using ins by (auto simp: insert_machine_def db_exec_def split: option.splits)
  then have "insert_machine None r st = (Inr (), st')" using ins by (simp add: r_def)
  with m v(2) keys pick_key_SomeD[OF pick]
  show "\<exists>m keys t. map_of (ms_entries ms') (am_name add) = Some m \<and>
           target_parse (am_ssh add) = Inr t \<and> mr_ssh (m_record m) = target_text t \<and>
           host_keys out t = Inr keys \<and> mr_pinned_key (m_record m) \<in> set keys \<and>
           ao_fingerprint out (mr_pinned_key (m_record m)) = Inr (am_host_key add) \<and>
           insert_machine None (m_record m) st = (Inr (), st')"
    by (intro exI[of _ m] exI[of _ keys] exI[of _ t]) (simp add: r_def)
qed

lemma machine_remove_outcome:
  assumes wf: "machines_wf ms" and run: "machine_remove fault unpin name ms st = (res, ms', st')"
  shows "machines_wf ms'" "mset (all_apps ms') = mset (all_apps ms)"
    and "res = Inr () \<Longrightarrow> map_of (ms_entries ms') = (map_of (ms_entries ms))(name := None)"
    and "res \<noteq> Inr () \<Longrightarrow> ms' = ms \<and> st' = st"
proof -
  show fail: "res \<noteq> Inr () \<Longrightarrow> ms' = ms \<and> st' = st"
    using run by (auto simp: machine_remove_def delete_machine_def db_exec_def split: option.splits if_splits)
  have ok: "machines_wf ms' \<and> mset (all_apps ms') = mset (all_apps ms) \<and>
      map_of (ms_entries ms') = (map_of (ms_entries ms))(name := None)" if r: "res = Inr ()"
  proof -
    define ms0 where "ms0 = ms\<lparr>ms_entries := bm_remove name (ms_entries ms)\<rparr>"
    from run r obtain m where m: "map_of (ms_entries ms) name = Some m" "m_apps m = []"
      and ms': "ms' = snd (write_known_hosts unpin None ms0)"
      by (auto simp: machine_remove_def ms0_def split: option.splits if_splits sum.splits prod.splits)
    have wfe: "bm_wf (ms_entries ms)" using wf by (simp add: machines_wf_def)
    let ?f = "\<lambda>(n, m). map (\<lambda>(a, r). (a, n, r)) (machine_routes m)"
    have "mset (concat (map ?f (ms_entries ms))) = mset (concat (map ?f ((name, m) # bm_remove name (ms_entries ms))))"
      by (rule mset_concat_cong) (simp add: mset_bm_remove[OF wfe m(1)])
    also have "\<dots> = mset (concat (map ?f (bm_remove name (ms_entries ms))))"
      using m(2) by (simp add: machine_routes_def)
    finally have apps: "mset (all_apps ms) = mset (all_apps ms0)"
      by (simp add: all_apps_def ms0_def)
    then have "mset (map fst (all_apps ms0)) = mset (map fst (all_apps ms))" "mset (app_hosts ms0) = mset (app_hosts ms)"
      by (simp_all add: app_hosts_def)
    from this[THEN mset_eq_imp_distinct_iff] have "machines_wf ms0"
      using wf by (auto simp: machines_wf_def ms0_def dest: set_bm_remove)
    with apps show ?thesis
      by (simp add: ms' write_known_hosts_frame) (simp add: ms0_def)
  qed
  show "machines_wf ms'" "mset (all_apps ms') = mset (all_apps ms)"
    using ok fail wf by (cases "res = Inr ()"; simp)+
  show "res = Inr () \<Longrightarrow> map_of (ms_entries ms') = (map_of (ms_entries ms))(name := None)"
    using ok by blast
qed

lemma disconnect_all_apps [simp]: "all_apps (disconnect_all ms) = []" "machines_wf (disconnect_all ms)"
  by (simp_all add: disconnect_all_def all_apps_def machines_wf_def app_hosts_def)

lemma no_machines_wf [simp]: "machines_wf no_machines" "all_apps no_machines = []"
  by (simp_all add: no_machines_def machines_wf_def all_apps_def app_hosts_def)

end
