(* ===== verification/Registry.thy ===== *)
theory Registry
  imports
    Machines
begin

section \<open>The agent's registry\<close>

text \<open>
  The state of the Node agent (\<open>Agent\<close> in \<open>crates/cirro-node/src/agent.rs\<close>) and the sections of its
  handlers that run under the VM table's lock, one definition each. Work a handler leaves to a task of
  its own (a start, a wake, a park) is an element of \<open>ag_tasks\<close>; the channels and the traffic counter
  of a supervised VM are reached through its number, \<open>sid\<close>. What the outside decides (whether a VM
  boots, what the state database reports, the time) is an argument.
\<close>

subsection \<open>State\<close>

record traffic =
  in_flight :: nat
  last_at :: nat
  parking :: bool

datatype entry =
    Starting ipv4 path "route option"
  | Running vm_info path nat
  | Ended vm_info path

record replaced =
  rp_info :: vm_info
  rp_log :: path

record vm_spec =
  vs_vm_address :: ipv4
  vs_rootfs :: path
  vs_mem_mib :: u32
  vs_vcpus :: u8
  vs_guest :: guest_config
  vs_console_log :: path

record wake_spec =
  ws_vm_address :: ipv4
  ws_mem_mib :: u32
  ws_vcpus :: u8
  ws_snapshot :: path
  ws_console_log :: path

text \<open>
  How far a start or wake has come: \<open>Vm::start\<close> is running; it has returned a VM; the VM is on
  record. A park has its claim; it has reached the supervisor of a VM.
\<close>

datatype boot = Booting | Booted process_id | Recorded vm_info process_id

datatype park_phase = Claimed | Sent nat

datatype task =
    StartTask string vm_spec "route option" "replaced option" boot
  | WakeTask string wake_spec replaced boot
  | ParkTask string nat bool park_phase

record agent =
  ag_subnet :: subnet
  ag_logs_dir :: path
  ag_parked_dir :: path
  ag_vms :: "(string, entry) bmap"
  ag_store :: store
  ag_next_log :: u64
  ag_shutting_down :: bool
  ag_wake_failures :: "(string, api_message) bmap"
  ag_machines :: machines
  ag_traffic :: "nat \<Rightarrow> traffic"
  ag_next_sid :: nat
  ag_live :: "(nat \<times> string) list"
  ag_tasks :: "task list"
  ag_leases :: "nat list"
  ag_hosts :: "ipv4 list"
  ag_logs :: "path list"
  ag_parked :: "string list"
  ag_settled :: nat

fun entry_vm_address :: "entry \<Rightarrow> ipv4 option" where
  "entry_vm_address (Starting a _ _) = Some a"
| "entry_vm_address (Running info _ _) = vi_vm_address info"
| "entry_vm_address (Ended _ _) = None"

fun entry_route :: "entry \<Rightarrow> route option" where
  "entry_route (Starting _ _ r) = r"
| "entry_route (Running info _ _) = vi_route info"
| "entry_route (Ended info _) = vi_route info"

fun entry_log :: "entry \<Rightarrow> path" where
  "entry_log (Starting _ l _) = l"
| "entry_log (Running _ l _) = l"
| "entry_log (Ended _ l) = l"

definition entry_host :: "entry \<Rightarrow> string option" where
  "entry_host e = map_option route_host (entry_route e)"

definition new_traffic :: "nat \<Rightarrow> traffic" where
  "new_traffic now = \<lparr>in_flight = 0, last_at = now, parking = False\<rparr>"

definition idle_for :: "nat \<Rightarrow> traffic \<Rightarrow> nat \<Rightarrow> bool" where
  "idle_for now t idle \<longleftrightarrow> in_flight t = 0 \<and> now - last_at t \<ge> idle"

subsection \<open>Looking things up\<close>

definition app_with_host :: "(string, entry) bmap \<Rightarrow> string \<Rightarrow> (string \<times> entry) option" where
  "app_with_host vms host = find (\<lambda>(_, e). entry_host e = Some host) vms"

definition held_addresses :: "(string, entry) bmap \<Rightarrow> ipv4 list" where
  "held_addresses vms = List.map_filter (\<lambda>(_, e). entry_vm_address e) vms"

definition free_vm_address :: "subnet \<Rightarrow> (string, entry) bmap \<Rightarrow> api_error + ipv4" where
  "free_vm_address s vms =
     ok_or (ApiError SERVICE_UNAVAILABLE NoFreeAddresses)
       (find (\<lambda>a. a \<notin> set (held_addresses vms)) (vm_addresses s))"

definition list_vms :: "bool \<Rightarrow> agent \<Rightarrow> vm_info list" where
  "list_vms all ag =
     List.map_filter
       (\<lambda>(_, e). case e of
                   Running info _ _ \<Rightarrow> Some info
                 | Ended info _ \<Rightarrow> if all then Some info else None
                 | Starting _ _ _ \<Rightarrow> None)
       (ag_vms ag)"

definition running :: "string \<Rightarrow> agent \<Rightarrow> api_error + nat" where
  "running name ag =
     (case map_of (ag_vms ag) name of
        None \<Rightarrow> Inl (no_such_vm name)
      | Some (Starting _ _ _) \<Rightarrow> Inl (ApiError CONFLICT (About_VM name StillStarting))
      | Some (Ended info _) \<Rightarrow>
          if is_parked info then Inl (ApiError CONFLICT (About_VM name ParkedWakeFirst))
          else Inl (ApiError CONFLICT (About_VM name AlreadyEnded))
      | Some (Running _ _ sid) \<Rightarrow> Inr sid)"

definition ended_response :: "string \<Rightarrow> agent \<Rightarrow> api_error + vm_info" where
  "ended_response name ag =
     (case map_of (ag_vms ag) name of
        Some (Ended info _) \<Rightarrow> Inr info
      | _ \<Rightarrow> Inl (internal (About_VM name RecordGone)))"

text \<open>\<open>read\<close> is what is in a log file, or the error of reading it.\<close>

definition logs :: "(path \<Rightarrow> string + string option) \<Rightarrow> string \<Rightarrow> u64 \<Rightarrow> agent \<Rightarrow> api_error + (string \<times> string)" where
  "logs read name offset ag =
     (case map_of (ag_vms ag) name of
        None \<Rightarrow> Inl (no_such_vm name)
      | Some e \<Rightarrow>
          (case read (entry_log e) of
             Inl err \<Rightarrow> Inl (internal (ReadLogFailed err))
           | Inr content \<Rightarrow>
               Inr (case e of Ended _ _ \<Rightarrow> ''ended'' | _ \<Rightarrow> ''running'', read_log content offset)))"

subsection \<open>Starting a VM\<close>

definition new_log_path :: "string \<Rightarrow> agent \<Rightarrow> path \<times> agent" where
  "new_log_path name ag =
     (path_join (ag_logs_dir ag) (log_file_name name (ag_next_log ag)),
      ag\<lparr>ag_next_log := ag_next_log ag + 1\<rparr>)"

definition shutting_down_error :: api_error where
  "shutting_down_error = ApiError SERVICE_UNAVAILABLE ShuttingDown"

text \<open>The section of \<open>run_vm\<close> under the VM table's lock: it reserves the name and an address.\<close>

definition reserve :: "run_request \<Rightarrow> path \<Rightarrow> agent \<Rightarrow> api_error + (ipv4 \<times> replaced option \<times> agent)" where
  "reserve run log ag =
     (let name = rr_name run; vms = ag_vms ag
      in bindr (check (\<not> ag_shutting_down ag) shutting_down_error) (\<lambda>_.
         bindr (check (\<not> has_app (ag_machines ag) name) (ApiError CONFLICT (Starting_VM name MachineAppExists))) (\<lambda>_.
         bindr (case rr_route run of
                  None \<Rightarrow> Inr ()
                | Some r \<Rightarrow>
                    (case machine_app_with_host (ag_machines ag) (route_host r) of
                       Some owner \<Rightarrow> Inl (hostname_taken (route_host r) owner False)
                     | None \<Rightarrow> Inr ())) (\<lambda>_.
         bindr (case map_of vms name of
                  Some (Starting _ _ _) \<Rightarrow> Inl (ApiError CONFLICT (Starting_VM name VmExists))
                | Some (Running _ _ _) \<Rightarrow> Inl (ApiError CONFLICT (Starting_VM name VmExists))
                | Some (Ended info _) \<Rightarrow>
                    check (\<not> is_parked info) (ApiError CONFLICT (Starting_VM name ParkedNameInUse))
                | None \<Rightarrow> Inr ()) (\<lambda>_.
         bindr (case rr_route run of
                  None \<Rightarrow> Inr ()
                | Some r \<Rightarrow>
                    (case app_with_host vms (route_host r) of
                       Some (owner, _) \<Rightarrow>
                         check (owner = name) (hostname_taken (route_host r) owner True)
                     | None \<Rightarrow> Inr ())) (\<lambda>_.
         bindr (free_vm_address (ag_subnet ag) vms) (\<lambda>vm_address.
         Inr (vm_address,
              case map_of vms name of
                Some (Ended info old_log) \<Rightarrow> Some \<lparr>rp_info = info, rp_log = old_log\<rparr>
              | _ \<Rightarrow> None,
              ag\<lparr>ag_vms := bm_insert name (Starting vm_address log (rr_route run)) vms\<rparr>))))))))"

text \<open>
  \<open>run_vm\<close> up to the task it spawns; \<open>rootfs\<close> is how opening the rootfs as the caller went.
\<close>

definition run_vm :: "run_request \<Rightarrow> api_error + unit \<Rightarrow> agent \<Rightarrow> (api_error + task) \<times> agent" where
  "run_vm run rootfs ag =
     (case bindr (validate_run run) (\<lambda>guest. bindr rootfs (\<lambda>_. Inr guest)) of
        Inl e \<Rightarrow> (Inl e, ag)
      | Inr guest \<Rightarrow>
          let (log, ag) = new_log_path (rr_name run) ag
          in case reserve run log ag of
               Inl e \<Rightarrow> (Inl e, ag)
             | Inr (vm_address, old, ag) \<Rightarrow>
                 let spec = \<lparr>vs_vm_address = vm_address, vs_rootfs = rr_rootfs run, vs_mem_mib = rr_mem_mib run,
                             vs_vcpus = rr_vcpus run, vs_guest = guest, vs_console_log = log\<rparr>;
                     task = StartTask (rr_name run) spec (rr_route run) old Booting
                 in (Inr task, ag\<lparr>ag_tasks := task # ag_tasks ag\<rparr>))"

text \<open>\<open>forget_start\<close>: the reservation of a start that failed is undone.\<close>

definition forget_start :: "string \<Rightarrow> replaced option \<Rightarrow> path \<Rightarrow> agent \<Rightarrow> agent" where
  "forget_start name old log ag =
     (let vms = bm_remove name (ag_vms ag);
          vms = (case old of None \<Rightarrow> vms | Some r \<Rightarrow> bm_insert name (Ended (rp_info r) (rp_log r)) vms)
      in ag\<lparr>ag_vms := vms, ag_logs := removeAll log (ag_logs ag)\<rparr>)"

definition start_info :: "string \<Rightarrow> vm_spec \<Rightarrow> route option \<Rightarrow> u64 \<Rightarrow> vm_info" where
  "start_info name spec rt now =
     \<lparr>vi_name = name, vi_vm_address = Some (vs_vm_address spec), vi_mem_mib = vs_mem_mib spec,
      vi_vcpus = vs_vcpus spec, vi_started_at = now, vi_ended = None, vi_route = rt\<rparr>"

definition settle :: "task \<Rightarrow> agent \<Rightarrow> agent" where
  "settle t ag = ag\<lparr>ag_tasks := remove1 t (ag_tasks ag), ag_settled := ag_settled ag + 1\<rparr>"

definition advance :: "task \<Rightarrow> task \<Rightarrow> agent \<Rightarrow> agent" where
  "advance t t' ag = ag\<lparr>ag_tasks := t' # remove1 t (ag_tasks ag)\<rparr>"

text \<open>
  A VM in the registry as running, with a supervisor of its own.
\<close>

definition start_supervising :: "nat \<Rightarrow> vm_info \<Rightarrow> path \<Rightarrow> agent \<Rightarrow> agent" where
  "start_supervising now info log ag =
     (let sid = ag_next_sid ag
      in ag\<lparr>ag_vms := bm_insert (vi_name info) (Running info log sid) (ag_vms ag),
            ag_traffic := (ag_traffic ag)(sid := new_traffic now),
            ag_live := (sid, vi_name info) # ag_live ag,
            ag_next_sid := sid + 1\<rparr>)"

text \<open>
  \<open>start_vm\<close>, cut where it waits or gives up a lock: \<open>Vm::start\<close> fails; it returns a VM (whose host
  objects and console log then exist); the VM is recorded, or destroyed when that fails; it is handed
  to its supervisor.
\<close>

definition start_failed :: "task \<Rightarrow> agent \<Rightarrow> agent" where
  "start_failed t ag =
     (case t of
        StartTask name spec rt old Booting \<Rightarrow> settle t (forget_start name old (vs_console_log spec) ag)
      | _ \<Rightarrow> ag)"

definition start_booted :: "process_id \<Rightarrow> task \<Rightarrow> agent \<Rightarrow> agent" where
  "start_booted p t ag =
     (case t of
        StartTask name spec rt old Booting \<Rightarrow>
          advance t (StartTask name spec rt old (Booted p))
            (ag\<lparr>ag_hosts := vs_vm_address spec # ag_hosts ag, ag_logs := vs_console_log spec # ag_logs ag\<rparr>)
      | _ \<Rightarrow> ag)"

definition start_record :: "u64 \<Rightarrow> string option \<Rightarrow> task \<Rightarrow> agent \<Rightarrow> agent" where
  "start_record now fault t ag =
     (case t of
        StartTask name spec rt old (Booted p) \<Rightarrow>
          (let info = start_info name spec rt now
           in case insert_running fault info (vs_console_log spec) p (ag_store ag) of
                (Inl e, st) \<Rightarrow>
                  settle t (forget_start name old (vs_console_log spec)
                    (ag\<lparr>ag_store := st, ag_hosts := removeAll (vs_vm_address spec) (ag_hosts ag)\<rparr>))
              | (Inr _, st) \<Rightarrow>
                  advance t (StartTask name spec rt old (Recorded info p)) (ag\<lparr>ag_store := st\<rparr>))
      | _ \<Rightarrow> ag)"

definition start_finish :: "nat \<Rightarrow> task \<Rightarrow> agent \<Rightarrow> agent" where
  "start_finish now t ag =
     (case t of
        StartTask name spec rt old (Recorded info p) \<Rightarrow>
          settle t (start_supervising now info (vs_console_log spec)
            (case old of None \<Rightarrow> ag | Some r \<Rightarrow> ag\<lparr>ag_logs := removeAll (rp_log r) (ag_logs ag)\<rparr>))
      | _ \<Rightarrow> ag)"

subsection \<open>Waking a parked VM\<close>

definition wake_vm :: "string \<Rightarrow> agent \<Rightarrow> (api_error + task) \<times> agent" where
  "wake_vm name ag =
     (if ag_shutting_down ag then (Inl shutting_down_error, ag)
      else case map_of (ag_vms ag) name of
        None \<Rightarrow> (Inl (no_such_vm name), ag)
      | Some (Ended info log) \<Rightarrow>
          if is_parked info then
            if name \<notin> set (ag_parked ag) then (Inl (ApiError CONFLICT (Starting_VM name SnapshotGone)), ag)
            else (case free_vm_address (ag_subnet ag) (ag_vms ag) of
                    Inl e \<Rightarrow> (Inl e, ag)
                  | Inr vm_address \<Rightarrow>
                      let spec = \<lparr>ws_vm_address = vm_address, ws_mem_mib = vi_mem_mib info, ws_vcpus = vi_vcpus info,
                                  ws_snapshot = path_join (ag_parked_dir ag) name, ws_console_log = log\<rparr>;
                          task = WakeTask name spec \<lparr>rp_info = info, rp_log = log\<rparr> Booting
                      in (Inr task, ag\<lparr>ag_vms := bm_insert name (Starting vm_address log (vi_route info)) (ag_vms ag),
                                       ag_tasks := task # ag_tasks ag\<rparr>))
          else (Inl (ApiError CONFLICT (Starting_VM name NotParkedEnded)), ag)
      | Some _ \<Rightarrow> (Inl (ApiError CONFLICT (Starting_VM name NotParkedRunning)), ag))"

definition wake_info :: "string \<Rightarrow> wake_spec \<Rightarrow> replaced \<Rightarrow> u64 \<Rightarrow> vm_info" where
  "wake_info name spec old now =
     \<lparr>vi_name = name, vi_vm_address = Some (ws_vm_address spec), vi_mem_mib = ws_mem_mib spec,
      vi_vcpus = ws_vcpus spec, vi_started_at = now, vi_ended = None, vi_route = vi_route (rp_info old)\<rparr>"

text \<open>\<open>finish_wake\<close> with the end of \<open>wake_vm\<close>'s task, cut like a start.\<close>

definition wake_failed :: "string \<Rightarrow> task \<Rightarrow> agent \<Rightarrow> agent" where
  "wake_failed err t ag =
     (case t of
        WakeTask name spec old Booting \<Rightarrow>
          settle t (ag\<lparr>ag_vms := bm_insert name (Ended (rp_info old) (rp_log old)) (ag_vms ag),
                       ag_wake_failures := bm_insert name (Starting_VM name (FailedToWake err)) (ag_wake_failures ag)\<rparr>)
      | _ \<Rightarrow> ag)"

definition wake_booted :: "process_id \<Rightarrow> task \<Rightarrow> agent \<Rightarrow> agent" where
  "wake_booted p t ag =
     (case t of
        WakeTask name spec old Booting \<Rightarrow>
          advance t (WakeTask name spec old (Booted p)) (ag\<lparr>ag_hosts := ws_vm_address spec # ag_hosts ag\<rparr>)
      | _ \<Rightarrow> ag)"

definition wake_record :: "u64 \<Rightarrow> string option \<Rightarrow> string option \<Rightarrow> task \<Rightarrow> agent \<Rightarrow> agent" where
  "wake_record now fault fault' t ag =
     (case t of
        WakeTask name spec old (Booted p) \<Rightarrow>
          (let info = wake_info name spec old now
           in case insert_running fault info (ws_console_log spec) p (ag_store ag) of
                (Inl e, st) \<Rightarrow>
                  let e = \<lparr>ended_at = now, ended_reason = Forced\<rparr>
                  in settle t
                       (ag\<lparr>ag_store := snd (mark_ended fault' name e st),
                           ag_hosts := removeAll (ws_vm_address spec) (ag_hosts ag),
                           ag_vms := bm_insert name (Ended (ended_info (rp_info old) e) (rp_log old)) (ag_vms ag),
                           ag_wake_failures := bm_insert name (Starting_VM name WokeNotRecorded) (ag_wake_failures ag)\<rparr>)
              | (Inr _, st) \<Rightarrow> advance t (WakeTask name spec old (Recorded info p)) (ag\<lparr>ag_store := st\<rparr>))
      | _ \<Rightarrow> ag)"

definition wake_finish :: "nat \<Rightarrow> task \<Rightarrow> agent \<Rightarrow> agent" where
  "wake_finish now t ag =
     (case t of
        WakeTask name spec old (Recorded info p) \<Rightarrow>
          settle t
            (let ag = start_supervising now info (ws_console_log spec) (ag\<lparr>ag_parked := removeAll name (ag_parked ag)\<rparr>)
             in ag\<lparr>ag_wake_failures := bm_remove name (ag_wake_failures ag)\<rparr>)
      | _ \<Rightarrow> ag)"

subsection \<open>The end of a VM\<close>

definition record_end :: "u64 \<Rightarrow> string option \<Rightarrow> string \<Rightarrow> end_reason \<Rightarrow> agent \<Rightarrow> agent" where
  "record_end now fault name reason ag =
     (case map_of (ag_vms ag) name of
        Some (Running info log _) \<Rightarrow>
          let e = \<lparr>ended_at = now, ended_reason = reason\<rparr>
          in ag\<lparr>ag_store := snd (mark_ended fault name e (ag_store ag)),
                ag_vms := bm_insert name (Ended (ended_info info e) log) (bm_remove name (ag_vms ag))\<rparr>
      | _ \<Rightarrow> ag\<lparr>ag_vms := bm_remove name (ag_vms ag)\<rparr>)"

text \<open>
  The supervisor of the VM numbered \<open>sid\<close> returns: its host state is gone (a parked VM's snapshot is
  in its place), its end is recorded, and those waiting on its \<open>ended\<close> channel are told.
\<close>

definition supervisor_ends :: "u64 \<Rightarrow> string option \<Rightarrow> nat \<Rightarrow> end_reason \<Rightarrow> agent \<Rightarrow> agent" where
  "supervisor_ends now fault sid reason ag =
     (case map_of (ag_live ag) sid of
        None \<Rightarrow> ag
      | Some name \<Rightarrow>
          let gone = (case map_of (ag_vms ag) name of
                        Some (Running info _ _) \<Rightarrow> vi_vm_address info
                      | _ \<Rightarrow> None);
              ag = ag\<lparr>ag_hosts := (case gone of None \<Rightarrow> ag_hosts ag | Some a \<Rightarrow> removeAll a (ag_hosts ag)),
                      ag_parked := (if reason = Parked then name # ag_parked ag else ag_parked ag)\<rparr>;
              ag = record_end now fault name reason ag
          in ag\<lparr>ag_live := filter (\<lambda>e. fst e \<noteq> sid) (ag_live ag)\<rparr>)"

subsection \<open>Parking\<close>

definition take_claim :: "nat \<Rightarrow> agent \<Rightarrow> agent option" where
  "take_claim sid ag =
     (if parking (ag_traffic ag sid) then None
      else Some (ag\<lparr>ag_traffic := (ag_traffic ag)(sid := (ag_traffic ag sid)\<lparr>parking := True\<rparr>)\<rparr>))"

definition release_claim :: "nat \<Rightarrow> agent \<Rightarrow> agent" where
  "release_claim sid ag = ag\<lparr>ag_traffic := (ag_traffic ag)(sid := (ag_traffic ag sid)\<lparr>parking := False\<rparr>)\<rparr>"

text \<open>
  \<open>claim_park\<close> and \<open>park_vm\<close>: the claim is taken under the lock and handed to the park's task. When
  the VM isn't running, why is read under a second lock, when the registry may be another, \<open>later\<close>.
\<close>

definition claim_park :: "string \<Rightarrow> agent \<Rightarrow> agent \<Rightarrow> api_error + (nat \<times> agent)" where
  "claim_park name later ag =
     (case map_of (ag_vms ag) name of
        Some (Running _ _ sid) \<Rightarrow>
          (case take_claim sid ag of
             None \<Rightarrow> Inl (ApiError CONFLICT (About_VM name AlreadyParking))
           | Some ag \<Rightarrow> Inr (sid, ag))
      | _ \<Rightarrow>
          (case running name later of
             Inl e \<Rightarrow> Inl e
           | Inr _ \<Rightarrow> Inl (ApiError CONFLICT (About_VM name StartedWhileParking))))"

definition park_vm :: "string \<Rightarrow> agent \<Rightarrow> agent \<Rightarrow> (api_error + task) \<times> agent" where
  "park_vm name later ag =
     (case claim_park name later ag of
        Inl e \<Rightarrow> (Inl e, ag)
      | Inr (sid, ag) \<Rightarrow>
          let task = ParkTask name sid False Claimed in (Inr task, ag\<lparr>ag_tasks := task # ag_tasks ag\<rparr>))"

text \<open>One round of \<open>park_idle_apps\<close>: every idle App whose claim is free is claimed.\<close>

definition idle_candidate :: "nat \<Rightarrow> agent \<Rightarrow> string \<times> entry \<Rightarrow> (string \<times> nat) option" where
  "idle_candidate now ag e =
     (case snd e of
        Running info _ sid \<Rightarrow>
          (case Option.bind (vi_route info) idle_park_secs of
             None \<Rightarrow> None
           | Some secs \<Rightarrow>
               if idle_for now (ag_traffic ag sid) (unat secs) \<and> \<not> parking (ag_traffic ag sid)
               then Some (fst e, sid) else None)
      | _ \<Rightarrow> None)"

definition claim_idle :: "string \<times> nat \<Rightarrow> agent \<Rightarrow> agent" where
  "claim_idle c ag =
     (case take_claim (snd c) ag of
        None \<Rightarrow> ag
      | Some ag \<Rightarrow> ag\<lparr>ag_tasks := ParkTask (fst c) (snd c) True Claimed # ag_tasks ag\<rparr>)"

definition park_idle_apps :: "nat \<Rightarrow> agent \<Rightarrow> agent" where
  "park_idle_apps now ag = fold claim_idle (List.map_filter (idle_candidate now ag) (ag_vms ag)) ag"

text \<open>
  \<open>park\<close>: it looks its VM up again, reaches that VM's supervisor, and waits for its answer: the VM was
  parked (its end is then recorded), it couldn't be and why, or it ended first. However the park ends,
  the claim is released and those held by it are told; an idle App that couldn't be parked counts as
  just used.
\<close>

datatype park_answer = ParkDone | ParkRefused string | ParkLost

definition park_send :: "nat \<Rightarrow> task \<Rightarrow> agent \<Rightarrow> agent" where
  "park_send now t ag =
     (case t of
        ParkTask name sid idle Claimed \<Rightarrow>
          (case running name ag of
             Inl _ \<Rightarrow>
               let ag = release_claim sid ag
               in settle t (if idle then ag\<lparr>ag_traffic := (ag_traffic ag)(sid := (ag_traffic ag sid)\<lparr>last_at := now\<rparr>)\<rparr> else ag)
           | Inr sid' \<Rightarrow> advance t (ParkTask name sid idle (Sent sid')) ag)
      | _ \<Rightarrow> ag)"

definition park_result :: "string \<Rightarrow> park_answer \<Rightarrow> agent \<Rightarrow> api_error + vm_info" where
  "park_result name answer ag =
     (case answer of
        ParkDone \<Rightarrow> ended_response name ag
      | ParkRefused e \<Rightarrow> Inl (ApiError UNPROCESSABLE_ENTITY (About_VM name (CouldNotPark e)))
      | ParkLost \<Rightarrow> Inl (ApiError CONFLICT (About_VM name EndedBeforePark)))"

definition park_finish :: "nat \<Rightarrow> park_answer \<Rightarrow> task \<Rightarrow> agent \<Rightarrow> agent" where
  "park_finish now answer t ag =
     (case t of
        ParkTask name sid idle (Sent sid') \<Rightarrow>
          let failed = (case park_result name answer ag of Inl _ \<Rightarrow> True | Inr _ \<Rightarrow> False);
              ag = release_claim sid ag
          in settle t (if idle \<and> failed
                       then ag\<lparr>ag_traffic := (ag_traffic ag)(sid := (ag_traffic ag sid)\<lparr>last_at := now\<rparr>)\<rparr>
                       else ag)
      | _ \<Rightarrow> ag)"

subsection \<open>Machine-backed Apps, removal and shutdown\<close>

definition run_on_machine ::
  "string + u16 list \<Rightarrow> string + u16 list \<Rightarrow> string option \<Rightarrow> machine_app_request \<Rightarrow> agent
   \<Rightarrow> (api_error + machine_app_info) \<times> agent" where
  "run_on_machine ports ports' fault req ag =
     (case bindr (validate_name ''App'' (mar_name req)) (\<lambda>_.
           bindr (validate_route (mar_route req)) (\<lambda>_.
           bindr (check (idle_park_secs (mar_route req) = None) (bad_request (Request CannotIdlePark))) (\<lambda>_.
           bindr (check (map_of (ag_vms ag) (mar_name req) = None) (ApiError CONFLICT (About_VM (mar_name req) VmNameTaken))) (\<lambda>_.
           case app_with_host (ag_vms ag) (route_host (mar_route req)) of
             Some (owner, _) \<Rightarrow> Inl (hostname_taken (route_host (mar_route req)) owner True)
           | None \<Rightarrow> Inr ())))) of
        Inl e \<Rightarrow> (Inl e, ag)
      | Inr _ \<Rightarrow>
          (case add_app ports ports' fault req (ag_machines ag) (ag_store ag) of
             (r, ms, st) \<Rightarrow> (r, ag\<lparr>ag_machines := ms, ag_store := st\<rparr>)))"

text \<open>
  \<open>remove\<close>: \<open>f_app\<close> and \<open>f_db\<close> are the database's errors, \<open>f_snap\<close> the error of removing a snapshot
  that is there.
\<close>

definition remove_vm ::
  "string + u16 list \<Rightarrow> string option \<Rightarrow> string option \<Rightarrow> string option \<Rightarrow> string \<Rightarrow> agent
   \<Rightarrow> (api_error + unit) \<times> agent" where
  "remove_vm ports f_app f_snap f_db name ag =
     (case remove_app ports f_app name (ag_machines ag) (ag_store ag) of
        (Inl e, ms, st) \<Rightarrow> (Inl e, ag\<lparr>ag_machines := ms, ag_store := st\<rparr>)
      | (Inr True, ms, st) \<Rightarrow> (Inr (), ag\<lparr>ag_machines := ms, ag_store := st\<rparr>)
      | (Inr False, ms, st) \<Rightarrow>
          (case map_of (ag_vms ag) name of
             None \<Rightarrow> (Inl (no_such_vm name), ag)
           | Some (Ended info log) \<Rightarrow>
               (case if is_parked info then f_snap else None of
                  Some e \<Rightarrow> (Inl (internal (About_VM name (SnapshotNotRemoved e))), ag)
                | None \<Rightarrow>
                    let ag = (if is_parked info then ag\<lparr>ag_parked := removeAll name (ag_parked ag)\<rparr> else ag)
                    in case delete f_db name (ag_store ag) of
                         (Inl e, st) \<Rightarrow> (Inl (internal (About_VM name RecordNotRemoved)), ag\<lparr>ag_store := st\<rparr>)
                       | (Inr _, st) \<Rightarrow>
                           (Inr (), ag\<lparr>ag_store := st, ag_logs := removeAll log (ag_logs ag),
                                       ag_vms := bm_remove name (ag_vms ag)\<rparr>))
           | Some _ \<Rightarrow> (Inl (ApiError CONFLICT (About_VM name StillRunning)), ag)))"

definition begin_shutdown :: "agent \<Rightarrow> agent" where
  "begin_shutdown ag = ag\<lparr>ag_shutting_down := True, ag_machines := disconnect_all (ag_machines ag)\<rparr>"

definition shutdown_waits :: "agent \<Rightarrow> bool" where
  "shutdown_waits ag \<longleftrightarrow> list_ex (\<lambda>(_, e). case e of Starting _ _ _ \<Rightarrow> True | _ \<Rightarrow> False) (ag_vms ag)"

subsection \<open>Reading the registry\<close>

lemma app_with_host_None: "app_with_host vms host = None \<longleftrightarrow> (\<forall>(n, e) \<in> set vms. entry_host e \<noteq> Some host)"
  by (auto simp: app_with_host_def find_None_iff)

lemma app_with_host_SomeD:
  "app_with_host vms host = Some (n, e) \<Longrightarrow> (n, e) \<in> set vms \<and> entry_host e = Some host"
  by (auto simp: app_with_host_def find_Some_iff) (metis nth_mem)

lemma app_with_host_unique:
  assumes "bm_wf vms" and "exclusive entry_host (map_of vms)"
    and "map_of vms n = Some e" and "entry_host e = Some host"
  shows "app_with_host vms host = Some (n, e)"
  using bm.find_unique[OF assms] by (simp add: app_with_host_def case_prod_unfold)

lemma in_held_addresses:
  assumes "bm_wf vms"
  shows "a \<in> set (held_addresses vms) \<longleftrightarrow> (\<exists>n e. map_of vms n = Some e \<and> entry_vm_address e = Some a)"
  unfolding held_addresses_def set_map_filter
  using bm.entry_iff[OF assms] by (force split: prod.splits)

lemma free_vm_address_spec:
  assumes "bm_wf vms" and "free_vm_address s vms = Inr a"
  shows "a \<in> set (vm_addresses s)" "free_of entry_vm_address a (map_of vms)"
    "\<And>b. b \<in> set (vm_addresses s) \<Longrightarrow> b < a \<Longrightarrow> \<not> free_of entry_vm_address b (map_of vms)"
proof -
  from assms(2) have f: "find (\<lambda>a. a \<notin> set (held_addresses vms)) (vm_addresses s) = Some a"
    by (simp add: free_vm_address_def)
  then obtain i where i: "i < length (vm_addresses s)" "vm_addresses s ! i = a" "a \<notin> set (held_addresses vms)"
    and before: "\<forall>j<i. vm_addresses s ! j \<in> set (held_addresses vms)"
    by (auto simp: find_Some_iff)
  show "a \<in> set (vm_addresses s)" using i nth_mem by blast
  show "free_of entry_vm_address a (map_of vms)"
    using i(3) by (auto simp: in_held_addresses[OF assms(1)] free_of_def)
  show "\<not> free_of entry_vm_address b (map_of vms)" if "b \<in> set (vm_addresses s)" "b < a" for b
  proof -
    obtain j where j: "j < length (vm_addresses s)" "vm_addresses s ! j = b"
      using \<open>b \<in> set (vm_addresses s)\<close> by (auto simp: in_set_conv_nth)
    have "j < i"
    proof (rule ccontr)
      assume "\<not> j < i"
      then have "vm_addresses s ! i \<le> vm_addresses s ! j"
        using sorted_vm_addresses[of s] j(1)
        by (cases "i = j") (auto simp: sorted_wrt_iff_nth_less order_less_imp_le)
      with i j \<open>b < a\<close> show False by simp
    qed
    with before j(2) show ?thesis
      by (auto simp: in_held_addresses[OF assms(1)] free_of_def)
  qed
qed

lemma free_vm_address_error:
  assumes "bm_wf vms"
  shows "(\<exists>e. free_vm_address s vms = Inl e) \<longleftrightarrow>
         (\<forall>a \<in> set (vm_addresses s). \<not> free_of entry_vm_address a (map_of vms))"
  by (auto simp: free_vm_address_def find_None_iff in_held_addresses[OF assms] free_of_def)

end
