(* ===== verification/Lifecycle.thy ===== *)
theory Lifecycle
  imports
    Registry
begin

section \<open>The life of VMs under concurrent requests\<close>

text \<open>
  The agent serves requests concurrently; what it does under one lock is atomic. \<open>agent_step\<close> has a
  rule per such section (of \<open>Registry\<close>), with what the outside decides left open, so its executions
  are the interleavings the agent can run into. The invariants, one group each:

  \<^item> \<open>agent_reg\<close>, here: no two VMs hold the same address; an entry is starting exactly while one start
    or wake task owns it, and running exactly while one supervisor does;
  \<^item> \<open>agent_rec\<close>, in \<open>Recording\<close>: a running VM is on record, with its process, whatever the database failed
    to do;
  \<^item> \<open>agent_names\<close> and \<open>agent_hostnames\<close>, in \<open>Sharing\<close>: no Machine-backed App has a VM's name, and when a
    hostname has one App;
  \<^item> \<open>agent_claims\<close>, in \<open>Claims\<close>: one park claims a VM at a time, and an idle park's VM has no request in
    flight.
\<close>

subsection \<open>Tasks and the entries they own\<close>

fun task_slot :: "task \<Rightarrow> (string \<times> entry) option" where
  "task_slot (StartTask n spec rt old b) = Some (n, Starting (vs_vm_address spec) (vs_console_log spec) rt)"
| "task_slot (WakeTask n spec old b) =
     Some (n, Starting (ws_vm_address spec) (ws_console_log spec) (vi_route (rp_info old)))"
| "task_slot (ParkTask _ _ _ _) = None"

definition slots :: "task list \<Rightarrow> (string \<times> entry) list" where
  "slots ts = List.map_filter task_slot ts"

fun is_starting :: "entry \<Rightarrow> bool" where
  "is_starting (Starting _ _ _) = True"
| "is_starting _ = False"

fun entry_ok :: "string \<Rightarrow> entry \<Rightarrow> bool" where
  "entry_ok n (Starting _ _ _) = True"
| "entry_ok n (Running info _ _) = (vi_name info = n \<and> vi_ended info = None \<and> vi_vm_address info \<noteq> None)"
| "entry_ok n (Ended info _) = (vi_name info = n \<and> vi_ended info \<noteq> None \<and> vi_vm_address info = None)"

definition recorded_ok :: "string \<Rightarrow> ipv4 \<Rightarrow> route option \<Rightarrow> boot \<Rightarrow> bool" where
  "recorded_ok n a rt b \<longleftrightarrow>
     (case b of
        Recorded info p \<Rightarrow> vi_name info = n \<and> vi_vm_address info = Some a \<and> vi_route info = rt \<and> vi_ended info = None
      | _ \<Rightarrow> True)"

fun task_ok :: "task \<Rightarrow> bool" where
  "task_ok (StartTask n spec rt old b) =
     (recorded_ok n (vs_vm_address spec) rt b \<and>
      (case old of None \<Rightarrow> True
       | Some r \<Rightarrow> entry_ok n (Ended (rp_info r) (rp_log r)) \<and> \<not> is_parked (rp_info r)))"
| "task_ok (WakeTask n spec old b) =
     (recorded_ok n (ws_vm_address spec) (vi_route (rp_info old)) b \<and>
      entry_ok n (Ended (rp_info old) (rp_log old)) \<and> is_parked (rp_info old))"
| "task_ok (ParkTask _ _ _ _) = True"

definition starting_of :: "(string, entry) bmap \<Rightarrow> (string \<times> entry) set" where
  "starting_of vms = {(n, e). map_of vms n = Some e \<and> is_starting e}"

definition running_of :: "(string, entry) bmap \<Rightarrow> (nat \<times> string) set" where
  "running_of vms = {(sid, n). \<exists>info log. map_of vms n = Some (Running info log sid)}"

definition reg_ok :: "subnet \<Rightarrow> (string, entry) bmap \<Rightarrow> task list \<Rightarrow> (nat \<times> string) list \<Rightarrow> nat \<Rightarrow> bool" where
  "reg_ok s vms ts live next \<longleftrightarrow>
     bm_wf vms \<and> exclusive entry_vm_address (map_of vms) \<and>
     (\<forall>n e. map_of vms n = Some e \<longrightarrow> entry_ok n e \<and> set_option (entry_vm_address e) \<subseteq> set (vm_addresses s)) \<and>
     distinct (map fst (slots ts)) \<and> set (slots ts) = starting_of vms \<and> (\<forall>t \<in> set ts. task_ok t) \<and>
     distinct (map fst live) \<and> set live = running_of vms \<and> (\<forall>e \<in> set live. fst e < next)"

lemma reg_okD:
  assumes "reg_ok s vms ts live next"
  shows "bm_wf vms" "exclusive entry_vm_address (map_of vms)"
    "\<And>n e. map_of vms n = Some e \<Longrightarrow> entry_ok n e"
    "\<And>n e a. map_of vms n = Some e \<Longrightarrow> entry_vm_address e = Some a \<Longrightarrow> a \<in> set (vm_addresses s)"
    "distinct (map fst (slots ts))" "set (slots ts) = starting_of vms" "\<And>t. t \<in> set ts \<Longrightarrow> task_ok t"
    "distinct (map fst live)" "set live = running_of vms" "\<And>sid n. (sid, n) \<in> set live \<Longrightarrow> sid < next"
  using assms unfolding reg_ok_def by fastforce+

lemma slots_Cons: "slots (t # ts) = (case task_slot t of None \<Rightarrow> slots ts | Some s \<Rightarrow> s # slots ts)"
  by (simp add: slots_def List.map_filter_simps split: option.splits)

lemma mset_slots_remove1:
  "t \<in> set ts \<Longrightarrow> task_slot t = Some s \<Longrightarrow> mset (slots ts) = add_mset s (mset (slots (remove1 t ts)))"
  by (induction ts) (auto simp: slots_Cons split: option.splits)

lemma slots_remove1_None: "task_slot t = None \<Longrightarrow> slots (remove1 t ts) = slots ts"
  by (induction ts) (auto simp: slots_Cons split: option.splits)

lemma slot_owner:
  assumes "reg_ok s vms ts live next" and "t \<in> set ts" and "task_slot t = Some (n, e)"
  shows "map_of vms n = Some e" "is_starting e"
proof -
  have "(n, e) \<in> set (slots ts)" using assms(2,3) by (auto simp: slots_def set_map_filter)
  then show "map_of vms n = Some e" "is_starting e"
    using reg_okD(6)[OF assms(1)] by (auto simp: starting_of_def)
qed

lemma slots_after_remove1:
  assumes "reg_ok s vms ts live next" and "t \<in> set ts" and "task_slot t = Some (n, e)"
  shows "distinct (map fst (slots (remove1 t ts)))"
    "set (slots (remove1 t ts)) = {x \<in> starting_of vms. fst x \<noteq> n}"
proof -
  note m = mset_slots_remove1[OF assms(2,3)]
  have "mset (map fst (slots ts)) = mset (n # map fst (slots (remove1 t ts)))"
    using m by simp
  from mset_eq_imp_distinct_iff[OF this]
  have d: "distinct (map fst (slots (remove1 t ts)))" "n \<notin> fst ` set (slots (remove1 t ts))"
    using reg_okD(5)[OF assms(1)] by simp_all
  then show "distinct (map fst (slots (remove1 t ts)))" by simp
  have "set (slots ts) = insert (n, e) (set (slots (remove1 t ts)))"
    using m by (metis set_mset_add_mset_insert set_mset_mset)
  then show "set (slots (remove1 t ts)) = {x \<in> starting_of vms. fst x \<noteq> n}"
    using d(2) reg_okD(6)[OF assms(1)] by force
qed

subsection \<open>How an entry can change\<close>

text \<open>A task goes on to its next phase: the registry stays as it is.\<close>

lemma reg_ok_task:
  assumes ok: "reg_ok s vms ts live next" and t: "t \<in> set ts"
    and same: "task_slot t' = task_slot t" and t': "task_ok t'"
  shows "reg_ok s vms (t' # remove1 t ts) live next"
proof -
  have "mset (slots (t' # remove1 t ts)) = mset (slots ts)"
    using t same
    by (cases "task_slot t") (simp_all add: slots_Cons mset_slots_remove1 slots_remove1_None)
  then have m: "mset (map fst (slots (t' # remove1 t ts))) = mset (map fst (slots ts))"
    and e: "set (slots (t' # remove1 t ts)) = set (slots ts)"
    by (simp, metis set_mset_mset)
  have "\<forall>x \<in> set (t' # remove1 t ts). task_ok x"
    using reg_okD(7)[OF ok] t' set_remove1_subset[of t ts] by auto
  then show ?thesis
    using ok mset_eq_imp_distinct_iff[OF m] e unfolding reg_ok_def by simp
qed

lemma reg_ok_park_task:
  assumes "reg_ok s vms ts live next" and "task_slot t = None"
  shows "reg_ok s vms (remove1 t ts) live next" "task_ok t \<Longrightarrow> reg_ok s vms (t # ts) live next"
  using assms set_remove1_subset[of t ts]
  by (auto simp: reg_ok_def slots_remove1_None slots_Cons)

text \<open>A free or ended name is reserved, with an address no entry holds.\<close>

lemma reg_ok_reserve:
  assumes ok: "reg_ok s vms ts live next"
    and before: "\<And>e. map_of vms n = Some e \<Longrightarrow> \<exists>info log. e = Ended info log"
    and a: "a \<in> set (vm_addresses s)" "free_of entry_vm_address a (map_of vms)"
    and t: "task_slot t = Some (n, Starting a log rt)" "task_ok t"
  shows "reg_ok s (bm_insert n (Starting a log rt) vms) (t # ts) live next"
proof -
  let ?vms = "bm_insert n (Starting a log rt) vms"
  have ex: "exclusive entry_vm_address (map_of ?vms)"
    using reg_okD(2)[OF ok] a(2) by (intro bm.exclusive_ins_free) auto
  have fresh: "n \<notin> fst ` set (slots ts)"
    using reg_okD(6)[OF ok] before by (force simp: starting_of_def)
  have start: "starting_of ?vms = insert (n, Starting a log rt) (starting_of vms)"
    using before by (force simp: starting_of_def split: if_splits)
  have run: "running_of ?vms = running_of vms"
    using before by (force simp: running_of_def split: if_splits)
  show ?thesis
    using ok ex fresh t a(1) unfolding reg_ok_def start run
    by (auto simp: slots_Cons bm_wf_insert)
qed

text \<open>A start or wake gives up: its name is free or ended again, and its task is done.\<close>

lemma reg_ok_give_up:
  assumes ok: "reg_ok s vms ts live next" and t: "t \<in> set ts" "task_slot t = Some (n, e)"
    and vms': "map_of vms' = (map_of vms)(n := x)" "bm_wf vms'"
    and x: "\<And>y. x = Some y \<Longrightarrow> entry_ok n y \<and> (\<exists>info log. y = Ended info log)"
  shows "reg_ok s vms' (remove1 t ts) live next"
proof -
  note own = slot_owner[OF ok t] and sl = slots_after_remove1[OF ok t]
  have addr: "entry_vm_address y = None" if "x = Some y" for y using x[OF that] by auto
  have ex: "exclusive entry_vm_address (map_of vms')"
  proof (cases x)
    case None
    then show ?thesis
      unfolding vms' by (intro exclusive_submap[OF reg_okD(2)[OF ok]]) (simp split: if_splits)
  next
    case (Some y)
    then show ?thesis
      unfolding vms' using reg_okD(2)[OF ok] addr by (simp add: exclusive_upd_none)
  qed
  have start: "starting_of vms' = {x \<in> starting_of vms. fst x \<noteq> n}"
    using x by (force simp: starting_of_def vms' split: if_splits)
  have run: "running_of vms' = running_of vms"
    using x own by (force simp: running_of_def vms' split: if_splits)
  have each: "entry_ok k y \<and> set_option (entry_vm_address y) \<subseteq> set (vm_addresses s)" if "map_of vms' k = Some y" for k y
    using that ok x addr unfolding reg_ok_def vms' by (auto split: if_splits)
  show ?thesis
    using ok ex sl vms'(2) each set_remove1_subset[of t ts] unfolding reg_ok_def start run
    by auto
qed

text \<open>A start or wake ends in a VM that runs at the address it reserved, with a supervisor.\<close>

lemma reg_ok_supervise:
  assumes ok: "reg_ok s vms ts live next" and t: "t \<in> set ts" "task_slot t = Some (n, e)"
    and info: "vi_name info = n" "vi_ended info = None" "vi_vm_address info = entry_vm_address e"
  shows "reg_ok s (bm_insert n (Running info log next) vms) (remove1 t ts) ((next, n) # live) (Suc next)"
proof -
  let ?vms = "bm_insert n (Running info log next) vms"
  note own = slot_owner[OF ok t] and sl = slots_after_remove1[OF ok t]
  obtain a where a: "entry_vm_address e = Some a" using own(2) by (cases e) auto
  have ex: "exclusive entry_vm_address (map_of ?vms)"
    using reg_okD(2)[OF ok] own(1) info(3) by (intro bm.exclusive_ins_same[where u = e]) auto
  have start: "starting_of ?vms = {x \<in> starting_of vms. fst x \<noteq> n}"
    by (force simp: starting_of_def split: if_splits)
  have run: "running_of ?vms = insert (next, n) (running_of vms)"
    using own by (force simp: running_of_def split: if_splits)
  have fresh: "next \<notin> fst ` set live" using reg_okD(10)[OF ok] by fastforce
  have each: "entry_ok k y \<and> set_option (entry_vm_address y) \<subseteq> set (vm_addresses s)" if "map_of ?vms k = Some y" for k y
    using that reg_okD(3,4)[OF ok] own(1) a info by (auto split: if_splits)
  show ?thesis
    using ok ex sl fresh each set_remove1_subset[of t ts] unfolding reg_ok_def start run
    by (auto simp: bm_wf_insert less_SucI)
qed

text \<open>A supervisor's VM ends; an Ended VM is removed.\<close>

lemma reg_ok_end:
  assumes ok: "reg_ok s vms ts live next" and live: "(sid, n) \<in> set live"
    and n: "map_of vms n = Some (Running info log sid)"
    and y: "entry_ok n (Ended info' log')"
  shows "reg_ok s (bm_insert n (Ended info' log') (bm_remove n vms)) ts (filter (\<lambda>e. fst e \<noteq> sid) live) next"
proof -
  let ?vms = "bm_insert n (Ended info' log') (bm_remove n vms)"
  have m: "map_of ?vms = (map_of vms)(n \<mapsto> Ended info' log')" by (auto simp: fun_eq_iff)
  have ex: "exclusive entry_vm_address (map_of ?vms)"
    unfolding m using reg_okD(2)[OF ok] by (simp add: exclusive_upd_none)
  have start: "starting_of ?vms = starting_of vms"
    using n by (force simp: starting_of_def m split: if_splits)
  have run: "running_of ?vms = {e \<in> running_of vms. fst e \<noteq> sid}"
  proof -
    have uniq: "k = n" if "map_of vms k = Some (Running i l sid)" for k i l
    proof -
      have "(sid, k) \<in> set live" using reg_okD(9)[OF ok] that by (auto simp: running_of_def)
      with live reg_okD(8)[OF ok] show ?thesis by (metis eq_key_imp_eq_value)
    qed
    have "(x, k) \<in> running_of ?vms \<longleftrightarrow> (x, k) \<in> running_of vms \<and> x \<noteq> sid" for x k
    proof (cases "k = n")
      case True
      with n show ?thesis by (auto simp: running_of_def m)
    next
      case False
      then have "(x, k) \<in> running_of vms \<Longrightarrow> x \<noteq> sid"
        unfolding running_of_def using uniq by blast
      with False show ?thesis by (auto simp: running_of_def m)
    qed
    then show ?thesis by auto
  qed
  have each: "entry_ok k y \<and> set_option (entry_vm_address y) \<subseteq> set (vm_addresses s)" if "map_of ?vms k = Some y" for k y
    using that reg_okD(3,4)[OF ok] y unfolding m by (auto split: if_splits)
  have "distinct (map fst (filter (\<lambda>e. fst e \<noteq> sid) live))"
    using reg_okD(8)[OF ok] by (rule distinct_map_filter)
  then show ?thesis
    using ok ex each unfolding reg_ok_def start run
    by (auto simp: bm_wf_insert bm_wf_remove)
qed

lemma reg_ok_remove:
  assumes ok: "reg_ok s vms ts live next" and n: "map_of vms n = Some (Ended info log)"
  shows "reg_ok s (bm_remove n vms) ts live next"
proof -
  have "starting_of (bm_remove n vms) = starting_of vms" "running_of (bm_remove n vms) = running_of vms"
    using n by (force simp: starting_of_def running_of_def split: if_splits)+
  moreover have "exclusive entry_vm_address (map_of (bm_remove n vms))"
    using reg_okD(2)[OF ok] by (rule bm.exclusive_rem)
  ultimately show ?thesis
    using ok unfolding reg_ok_def by (auto simp: bm_wf_remove split: if_splits)
qed

subsection \<open>Every section keeps the registry in order\<close>

definition agent_reg :: "agent \<Rightarrow> bool" where
  "agent_reg ag \<longleftrightarrow> reg_ok (ag_subnet ag) (ag_vms ag) (ag_tasks ag) (ag_live ag) (ag_next_sid ag)"

lemma reserve_spec:
  assumes "reserve run log ag = Inr (a, old, ag')" and "bm_wf (ag_vms ag)"
  shows "ag' = ag\<lparr>ag_vms := bm_insert (rr_name run) (Starting a log (rr_route run)) (ag_vms ag)\<rparr>"
    "a \<in> set (vm_addresses (ag_subnet ag))" "free_of entry_vm_address a (map_of (ag_vms ag))"
    "\<not> ag_shutting_down ag" "\<not> has_app (ag_machines ag) (rr_name run)"
    "\<And>r. rr_route run = Some r \<Longrightarrow> machine_app_with_host (ag_machines ag) (route_host r) = None"
    "\<And>r. rr_route run = Some r \<Longrightarrow>
       app_with_host (ag_vms ag) (route_host r) = None \<or>
       (\<exists>e. app_with_host (ag_vms ag) (route_host r) = Some (rr_name run, e))"
    "map_of (ag_vms ag) (rr_name run) = None \<and> old = None \<or>
     (\<exists>info l. map_of (ag_vms ag) (rr_name run) = Some (Ended info l) \<and> \<not> is_parked info \<and>
               old = Some \<lparr>rp_info = info, rp_log = l\<rparr>)"
proof -
  have free: "free_vm_address (ag_subnet ag) (ag_vms ag) = Inr a"
    and res: "ag' = ag\<lparr>ag_vms := bm_insert (rr_name run) (Starting a log (rr_route run)) (ag_vms ag)\<rparr>"
    using assms(1) by (auto simp: reserve_def Let_def)
  show "ag' = ag\<lparr>ag_vms := bm_insert (rr_name run) (Starting a log (rr_route run)) (ag_vms ag)\<rparr>" by (rule res)
  show "a \<in> set (vm_addresses (ag_subnet ag))" "free_of entry_vm_address a (map_of (ag_vms ag))"
    using free_vm_address_spec[OF assms(2) free] by simp_all
  show "\<not> ag_shutting_down ag" "\<not> has_app (ag_machines ag) (rr_name run)"
    using assms(1) by (simp_all add: reserve_def Let_def)
  show "machine_app_with_host (ag_machines ag) (route_host r) = None" if "rr_route run = Some r" for r
    using assms(1) that by (simp add: reserve_def Let_def split: option.splits)
  show "app_with_host (ag_vms ag) (route_host r) = None \<or>
       (\<exists>e. app_with_host (ag_vms ag) (route_host r) = Some (rr_name run, e))" if "rr_route run = Some r" for r
    using assms(1) that
    by (cases "app_with_host (ag_vms ag) (route_host r)") (auto simp: reserve_def Let_def)
  show "map_of (ag_vms ag) (rr_name run) = None \<and> old = None \<or>
     (\<exists>info l. map_of (ag_vms ag) (rr_name run) = Some (Ended info l) \<and> \<not> is_parked info \<and>
               old = Some \<lparr>rp_info = info, rp_log = l\<rparr>)"
    using assms(1)
    by (cases "map_of (ag_vms ag) (rr_name run)")
      (auto simp: reserve_def Let_def split: entry.split_asm)
qed

lemma run_vm_success:
  assumes "run_vm run rootfs ag = (Inr t, ag')"
  obtains guest log a old ag1 where "validate_run run = Inr guest" "rootfs = Inr ()"
    "log = path_join (ag_logs_dir ag) (log_file_name (rr_name run) (ag_next_log ag))"
    "reserve run log (ag\<lparr>ag_next_log := ag_next_log ag + 1\<rparr>) = Inr (a, old, ag1)"
    "t = StartTask (rr_name run) \<lparr>vs_vm_address = a, vs_rootfs = rr_rootfs run, vs_mem_mib = rr_mem_mib run,
          vs_vcpus = rr_vcpus run, vs_guest = guest, vs_console_log = log\<rparr> (rr_route run) old Booting"
    "ag' = ag1\<lparr>ag_tasks := t # ag_tasks ag1\<rparr>"
  using assms
  by (auto simp: run_vm_def new_log_path_def Let_def split: sum.split_asm prod.split_asm)

lemma run_vm_failure:
  "run_vm run rootfs ag = (Inl e, ag') \<Longrightarrow> ag' = ag \<or> ag' = ag\<lparr>ag_next_log := ag_next_log ag + 1\<rparr>"
  by (auto simp: run_vm_def new_log_path_def Let_def split: sum.split_asm prod.split_asm)

lemma agent_reg_run:
  assumes ok: "agent_reg ag" and run: "run_vm run rootfs ag = (r, ag')"
  shows "agent_reg ag'"
proof (cases r)
  case (Inl e)
  with run_vm_failure[of run rootfs ag e ag'] run ok show ?thesis by (auto simp: agent_reg_def)
next
  case (Inr t)
  from run[unfolded Inr] show ?thesis
  proof (rule run_vm_success)
    fix guest log a old ag1
    assume res: "reserve run log (ag\<lparr>ag_next_log := ag_next_log ag + 1\<rparr>) = Inr (a, old, ag1)"
      and t: "t = StartTask (rr_name run) \<lparr>vs_vm_address = a, vs_rootfs = rr_rootfs run, vs_mem_mib = rr_mem_mib run,
          vs_vcpus = rr_vcpus run, vs_guest = guest, vs_console_log = log\<rparr> (rr_route run) old Booting"
      and ag': "ag' = ag1\<lparr>ag_tasks := t # ag_tasks ag1\<rparr>"
    have reg: "reg_ok (ag_subnet ag) (ag_vms ag) (ag_tasks ag) (ag_live ag) (ag_next_sid ag)"
      using ok by (simp add: agent_reg_def)
    note sp = reserve_spec[OF res, simplified, OF reg_okD(1)[OF reg]]
    have "task_ok t"
      using sp(8) reg_okD(3)[OF reg] by (fastforce simp: t recorded_ok_def)
    moreover have "\<exists>info l. e = Ended info l" if "map_of (ag_vms ag) (rr_name run) = Some e" for e
      using sp(8) that by auto
    ultimately have "reg_ok (ag_subnet ag) (bm_insert (rr_name run) (Starting a log (rr_route run)) (ag_vms ag))
        (t # ag_tasks ag) (ag_live ag) (ag_next_sid ag)"
      using reg_ok_reserve[OF reg _ sp(2,3), of "rr_name run" t log "rr_route run"] by (simp add: t)
    then show ?thesis by (simp add: agent_reg_def ag' sp(1))
  qed
qed

lemma agent_reg_wake:
  assumes ok: "agent_reg ag" and run: "wake_vm name ag = (r, ag')"
  shows "agent_reg ag'"
proof (cases "ag' = ag")
  case False
  have reg: "reg_ok (ag_subnet ag) (ag_vms ag) (ag_tasks ag) (ag_live ag) (ag_next_sid ag)"
    using ok by (simp add: agent_reg_def)
  from run False obtain info log a where e: "map_of (ag_vms ag) name = Some (Ended info log)" "is_parked info"
    and free: "free_vm_address (ag_subnet ag) (ag_vms ag) = Inr a"
    and ag': "ag' = ag\<lparr>ag_vms := bm_insert name (Starting a log (vi_route info)) (ag_vms ag),
       ag_tasks := WakeTask name \<lparr>ws_vm_address = a, ws_mem_mib = vi_mem_mib info, ws_vcpus = vi_vcpus info,
          ws_snapshot = path_join (ag_parked_dir ag) name, ws_console_log = log\<rparr> \<lparr>rp_info = info, rp_log = log\<rparr> Booting
          # ag_tasks ag\<rparr>"
    by (auto simp: wake_vm_def Let_def split: if_splits option.split_asm entry.split_asm sum.split_asm)
  note f = free_vm_address_spec[OF reg_okD(1)[OF reg] free]
  show ?thesis
    using reg_ok_reserve[OF reg _ f(1,2), of name _ log "vi_route info"] e reg_okD(3)[OF reg e(1)]
    by (simp add: agent_reg_def ag' recorded_ok_def)
qed (use ok in simp)

lemma map_of_forget:
  "map_of (ag_vms (forget_start name old log ag)) =
   (map_of (ag_vms ag))(name := map_option (\<lambda>r. Ended (rp_info r) (rp_log r)) old)"
  by (auto simp: forget_start_def Let_def split: option.splits)

lemma forget_start_frame [simp]:
  "ag_subnet (forget_start name old log ag) = ag_subnet ag"
  "ag_tasks (forget_start name old log ag) = ag_tasks ag"
  "ag_live (forget_start name old log ag) = ag_live ag"
  "ag_next_sid (forget_start name old log ag) = ag_next_sid ag"
  "ag_store (forget_start name old log ag) = ag_store ag"
  "ag_machines (forget_start name old log ag) = ag_machines ag"
  "ag_hosts (forget_start name old log ag) = ag_hosts ag"
  "ag_traffic (forget_start name old log ag) = ag_traffic ag"
  "ag_leases (forget_start name old log ag) = ag_leases ag"
  by (simp_all add: forget_start_def Let_def)

lemma bm_wf_forget: "bm_wf (ag_vms ag) \<Longrightarrow> bm_wf (ag_vms (forget_start name old log ag))"
  by (auto simp: forget_start_def Let_def bm_wf_insert bm_wf_remove split: option.splits)

lemma agent_reg_forget:
  assumes ok: "agent_reg ag" and t: "t \<in> set (ag_tasks ag)" "t = StartTask name spec rt old b"
    and same: "ag_subnet ag1 = ag_subnet ag" "ag_vms ag1 = ag_vms ag" "ag_tasks ag1 = ag_tasks ag"
      "ag_live ag1 = ag_live ag" "ag_next_sid ag1 = ag_next_sid ag"
  shows "agent_reg (settle t (forget_start name old log ag1))"
proof -
  have reg: "reg_ok (ag_subnet ag) (ag_vms ag) (ag_tasks ag) (ag_live ag) (ag_next_sid ag)"
    using ok by (simp add: agent_reg_def)
  have slot: "task_slot t = Some (name, Starting (vs_vm_address spec) (vs_console_log spec) rt)"
    using t(2) by simp
  have x: "entry_ok name y \<and> (\<exists>info log. y = Ended info log)"
    if "map_option (\<lambda>r. Ended (rp_info r) (rp_log r)) old = Some y" for y
    using that reg_okD(7)[OF reg t(1)] t(2) by (cases old) auto
  have "reg_ok (ag_subnet ag) (ag_vms (forget_start name old log ag1)) (remove1 t (ag_tasks ag)) (ag_live ag) (ag_next_sid ag)"
    by (rule reg_ok_give_up[OF reg t(1) slot map_of_forget[of name old log ag1, unfolded same] _ x])
      (use bm_wf_forget[of ag1] reg_okD(1)[OF reg] same in auto)
  then show ?thesis by (simp add: agent_reg_def settle_def same)
qed

lemma settle_frame [simp]:
  "ag_subnet (settle t ag) = ag_subnet ag" "ag_vms (settle t ag) = ag_vms ag" "ag_live (settle t ag) = ag_live ag"
  "ag_next_sid (settle t ag) = ag_next_sid ag" "ag_store (settle t ag) = ag_store ag"
  "ag_machines (settle t ag) = ag_machines ag" "ag_hosts (settle t ag) = ag_hosts ag"
  "ag_traffic (settle t ag) = ag_traffic ag" "ag_leases (settle t ag) = ag_leases ag"
  "ag_tasks (settle t ag) = remove1 t (ag_tasks ag)"
  by (simp_all add: settle_def)

lemma advance_frame [simp]:
  "ag_subnet (advance t t' ag) = ag_subnet ag" "ag_vms (advance t t' ag) = ag_vms ag"
  "ag_live (advance t t' ag) = ag_live ag"
  "ag_next_sid (advance t t' ag) = ag_next_sid ag" "ag_store (advance t t' ag) = ag_store ag"
  "ag_machines (advance t t' ag) = ag_machines ag" "ag_hosts (advance t t' ag) = ag_hosts ag"
  "ag_traffic (advance t t' ag) = ag_traffic ag" "ag_leases (advance t t' ag) = ag_leases ag"
  "ag_tasks (advance t t' ag) = t' # remove1 t (ag_tasks ag)"
  by (simp_all add: advance_def)

lemma agent_reg_advance:
  assumes "agent_reg ag" and "t \<in> set (ag_tasks ag)" and "task_slot t' = task_slot t" and "task_ok t'"
    and "ag_subnet ag1 = ag_subnet ag" "ag_vms ag1 = ag_vms ag" "ag_tasks ag1 = ag_tasks ag"
      "ag_live ag1 = ag_live ag" "ag_next_sid ag1 = ag_next_sid ag"
  shows "agent_reg (advance t t' ag1)"
  using assms reg_ok_task[of "ag_subnet ag" "ag_vms ag" "ag_tasks ag" "ag_live ag" "ag_next_sid ag" t t']
  by (simp add: agent_reg_def)

lemma agent_reg_task_ok: "agent_reg ag \<Longrightarrow> t \<in> set (ag_tasks ag) \<Longrightarrow> task_ok t"
  by (auto simp: agent_reg_def reg_ok_def)

lemma agent_reg_start_failed:
  "agent_reg ag \<Longrightarrow> t \<in> set (ag_tasks ag) \<Longrightarrow> agent_reg (start_failed t ag)"
  using agent_reg_forget[of ag t]
  by (auto simp: start_failed_def split: task.splits boot.splits)

lemma agent_reg_start_booted:
  assumes "agent_reg ag" and "t \<in> set (ag_tasks ag)"
  shows "agent_reg (start_booted p t ag)"
proof (cases t)
  case (StartTask name spec rt old b)
  show ?thesis
  proof (cases b)
    case Booting
    note mem = assms(2)[unfolded StartTask Booting]
    show ?thesis
      using agent_reg_task_ok[OF assms(1) mem]
      by (simp add: start_booted_def StartTask Booting recorded_ok_def agent_reg_advance[OF assms(1) mem])
  qed (use assms StartTask in \<open>simp_all add: start_booted_def\<close>)
qed (use assms in \<open>simp_all add: start_booted_def\<close>)

lemma agent_reg_start_record:
  assumes "agent_reg ag" and "t \<in> set (ag_tasks ag)"
  shows "agent_reg (start_record now fault t ag)"
proof (cases t)
  case (StartTask name spec rt old b)
  show ?thesis
  proof (cases b)
    case (Booted p)
    let ?info = "start_info name spec rt now"
    obtain r st where ins: "insert_running fault ?info (vs_console_log spec) p (ag_store ag) = (r, st)" by fastforce
    have ok': "task_ok (StartTask name spec rt old (Recorded ?info p))"
      using agent_reg_task_ok[OF assms] StartTask by (simp add: recorded_ok_def start_info_def)
    show ?thesis
    proof (cases r)
      case (Inl e)
      then show ?thesis
        using ins StartTask Booted agent_reg_forget[OF assms, of name spec rt old b]
        by (simp add: start_record_def Let_def)
    next
      case (Inr u)
      then show ?thesis
        using ins ok' unfolding start_record_def StartTask Booted
        by (simp add: Let_def agent_reg_advance[OF assms(1) assms(2)[unfolded StartTask Booted]])
    qed
  qed (use assms StartTask in \<open>simp_all add: start_record_def\<close>)
qed (use assms in \<open>simp_all add: start_record_def\<close>)

lemma start_supervising_frame [simp]:
  "ag_subnet (start_supervising now info log ag) = ag_subnet ag"
  "ag_tasks (start_supervising now info log ag) = ag_tasks ag"
  "ag_store (start_supervising now info log ag) = ag_store ag"
  "ag_machines (start_supervising now info log ag) = ag_machines ag"
  "ag_hosts (start_supervising now info log ag) = ag_hosts ag"
  "ag_leases (start_supervising now info log ag) = ag_leases ag"
  "ag_vms (start_supervising now info log ag) =
     bm_insert (vi_name info) (Running info log (ag_next_sid ag)) (ag_vms ag)"
  "ag_traffic (start_supervising now info log ag) = (ag_traffic ag)(ag_next_sid ag := new_traffic now)"
  "ag_live (start_supervising now info log ag) = (ag_next_sid ag, vi_name info) # ag_live ag"
  "ag_next_sid (start_supervising now info log ag) = Suc (ag_next_sid ag)"
  by (simp_all add: start_supervising_def Let_def)

lemma agent_reg_supervise:
  assumes "agent_reg ag" and "t \<in> set (ag_tasks ag)" and "task_slot t = Some (vi_name info, Starting a l rt)"
    and "vi_vm_address info = Some a" "vi_ended info = None"
    and "ag_subnet ag1 = ag_subnet ag" "ag_vms ag1 = ag_vms ag" "ag_tasks ag1 = ag_tasks ag"
      "ag_live ag1 = ag_live ag" "ag_next_sid ag1 = ag_next_sid ag"
  shows "agent_reg (settle t (start_supervising now info log ag1))"
  using assms reg_ok_supervise[of "ag_subnet ag" "ag_vms ag" "ag_tasks ag" "ag_live ag" "ag_next_sid ag" t
      "vi_name info" "Starting a l rt" info log]
  by (simp add: agent_reg_def)

lemma agent_reg_start_finish:
  assumes "agent_reg ag" and "t \<in> set (ag_tasks ag)"
  shows "agent_reg (start_finish now t ag)"
proof (cases t)
  case (StartTask name spec rt old b)
  show ?thesis
  proof (cases b)
    case (Recorded info p)
    note mem = assms(2)[unfolded StartTask Recorded]
    define ag1 where
      "ag1 = (case old of None \<Rightarrow> ag | Some r \<Rightarrow> ag\<lparr>ag_logs := removeAll (rp_log r) (ag_logs ag)\<rparr>)"
    have "agent_reg (settle (StartTask name spec rt old (Recorded info p))
            (start_supervising now info (vs_console_log spec) ag1))"
      using agent_reg_task_ok[OF assms(1) mem]
      by (intro agent_reg_supervise[OF assms(1) mem])
        (auto simp: recorded_ok_def ag1_def split: option.splits)
    then show ?thesis by (simp add: start_finish_def StartTask Recorded ag1_def)
  qed (use assms StartTask in \<open>simp_all add: start_finish_def\<close>)
qed (use assms in \<open>simp_all add: start_finish_def\<close>)

lemma agent_reg_give_up_wake:
  assumes ok: "agent_reg ag" and t: "t \<in> set (ag_tasks ag)" "t = WakeTask name spec old b"
    and y: "entry_ok name (Ended info log)"
    and same: "ag_subnet ag1 = ag_subnet ag" "ag_tasks ag1 = ag_tasks ag"
      "ag_live ag1 = ag_live ag" "ag_next_sid ag1 = ag_next_sid ag"
      "ag_vms ag1 = bm_insert name (Ended info log) (ag_vms ag)"
  shows "agent_reg (settle t ag1)"
proof -
  have reg: "reg_ok (ag_subnet ag) (ag_vms ag) (ag_tasks ag) (ag_live ag) (ag_next_sid ag)"
    using ok by (simp add: agent_reg_def)
  have slot: "task_slot t = Some (name, Starting (ws_vm_address spec) (ws_console_log spec) (vi_route (rp_info old)))"
    using t(2) by simp
  have "reg_ok (ag_subnet ag) (ag_vms ag1) (remove1 t (ag_tasks ag)) (ag_live ag) (ag_next_sid ag)"
    by (rule reg_ok_give_up[OF reg t(1) slot, of _ "Some (Ended info log)"])
      (use y reg_okD(1)[OF reg] same in \<open>auto simp: bm_wf_insert\<close>)
  then show ?thesis by (simp add: agent_reg_def same)
qed

lemma agent_reg_wake_failed:
  assumes "agent_reg ag" and "t \<in> set (ag_tasks ag)"
  shows "agent_reg (wake_failed err t ag)"
proof (cases t)
  case (WakeTask name spec old b)
  show ?thesis
  proof (cases b)
    case Booting
    note mem = assms(2)[unfolded WakeTask Booting]
    show ?thesis
      using agent_reg_task_ok[OF assms(1) mem]
      by (simp add: wake_failed_def WakeTask Booting)
        (rule agent_reg_give_up_wake[OF assms(1) mem refl], auto)
  qed (use assms WakeTask in \<open>simp_all add: wake_failed_def\<close>)
qed (use assms in \<open>simp_all add: wake_failed_def\<close>)

lemma agent_reg_wake_booted:
  assumes "agent_reg ag" and "t \<in> set (ag_tasks ag)"
  shows "agent_reg (wake_booted p t ag)"
proof (cases t)
  case (WakeTask name spec old b)
  show ?thesis
  proof (cases b)
    case Booting
    note mem = assms(2)[unfolded WakeTask Booting]
    show ?thesis
      using agent_reg_task_ok[OF assms(1) mem]
      by (simp add: wake_booted_def WakeTask Booting recorded_ok_def agent_reg_advance[OF assms(1) mem])
  qed (use assms WakeTask in \<open>simp_all add: wake_booted_def\<close>)
qed (use assms in \<open>simp_all add: wake_booted_def\<close>)

lemma agent_reg_wake_record:
  assumes "agent_reg ag" and "t \<in> set (ag_tasks ag)"
  shows "agent_reg (wake_record now fault fault' t ag)"
proof (cases t)
  case (WakeTask name spec old b)
  show ?thesis
  proof (cases b)
    case (Booted p)
    let ?info = "wake_info name spec old now"
    obtain r st where ins: "insert_running fault ?info (ws_console_log spec) p (ag_store ag) = (r, st)" by fastforce
    have ok: "task_ok (WakeTask name spec old b)" using agent_reg_task_ok[OF assms] WakeTask by simp
    show ?thesis
    proof (cases r)
      case (Inl e)
      have "entry_ok name (Ended (ended_info (rp_info old) x) (rp_log old))" for x
        using ok by (simp add: ended_info_def)
      from agent_reg_give_up_wake[OF assms(1) assms(2)[unfolded WakeTask Booted] refl this]
      show ?thesis
        using Inl ins unfolding wake_record_def WakeTask Booted by (simp add: Let_def)
    next
      case (Inr u)
      have "task_ok (WakeTask name spec old (Recorded ?info p))"
        using ok by (simp add: recorded_ok_def wake_info_def)
      then show ?thesis
        using Inr ins unfolding wake_record_def WakeTask Booted
        by (simp add: Let_def agent_reg_advance[OF assms(1) assms(2)[unfolded WakeTask Booted]])
    qed
  qed (use assms WakeTask in \<open>simp_all add: wake_record_def\<close>)
qed (use assms in \<open>simp_all add: wake_record_def\<close>)

lemma agent_reg_wake_finish:
  assumes "agent_reg ag" and "t \<in> set (ag_tasks ag)"
  shows "agent_reg (wake_finish now t ag)"
proof (cases t)
  case (WakeTask name spec old b)
  show ?thesis
  proof (cases b)
    case (Recorded info p)
    let ?ag = "ag\<lparr>ag_parked := removeAll name (ag_parked ag)\<rparr>"
    have "agent_reg (settle t (start_supervising now info (ws_console_log spec) ?ag))"
      using agent_reg_task_ok[OF assms] WakeTask Recorded
      by (intro agent_reg_supervise[OF assms]) (auto simp: recorded_ok_def)
    then show ?thesis
      using WakeTask Recorded by (simp add: wake_finish_def Let_def agent_reg_def)
  qed (use assms WakeTask in \<open>simp_all add: wake_finish_def\<close>)
qed (use assms in \<open>simp_all add: wake_finish_def\<close>)

lemma live_entry:
  assumes "agent_reg ag" and "map_of (ag_live ag) sid = Some name"
  obtains info log where "(sid, name) \<in> set (ag_live ag)" "map_of (ag_vms ag) name = Some (Running info log sid)"
    "vi_name info = name" "vi_ended info = None" "vi_vm_address info \<noteq> None"
proof -
  have "(sid, name) \<in> set (ag_live ag)" using assms(2) by (rule map_of_SomeD)
  moreover from this obtain info log where e: "map_of (ag_vms ag) name = Some (Running info log sid)"
    using assms(1) by (auto simp: agent_reg_def reg_ok_def running_of_def)
  moreover have "entry_ok name (Running info log sid)"
    using reg_okD(3)[OF assms(1)[unfolded agent_reg_def] e] .
  ultimately show ?thesis using that by simp
qed

lemma supervisor_ends_live:
  assumes "map_of (ag_live ag) sid = Some name" and "map_of (ag_vms ag) name = Some (Running info log sid)"
    and "vi_vm_address info = Some a"
  shows "supervisor_ends now fault sid reason ag =
    ag\<lparr>ag_hosts := removeAll a (ag_hosts ag),
       ag_parked := (if reason = Parked then name # ag_parked ag else ag_parked ag),
       ag_store := snd (mark_ended fault name \<lparr>ended_at = now, ended_reason = reason\<rparr> (ag_store ag)),
       ag_vms := bm_insert name (Ended (ended_info info \<lparr>ended_at = now, ended_reason = reason\<rparr>) log)
                   (bm_remove name (ag_vms ag)),
       ag_live := filter (\<lambda>e. fst e \<noteq> sid) (ag_live ag)\<rparr>"
  using assms by (simp add: supervisor_ends_def record_end_def Let_def)

lemma agent_reg_supervisor_ends:
  assumes ok: "agent_reg ag"
  shows "agent_reg (supervisor_ends now fault sid reason ag)"
proof (cases "map_of (ag_live ag) sid")
  case (Some name)
  from ok Some obtain info log where live: "(sid, name) \<in> set (ag_live ag)"
    and e: "map_of (ag_vms ag) name = Some (Running info log sid)" and info: "vi_name info = name"
    and a: "vi_vm_address info \<noteq> None" by (rule live_entry)
  obtain a where "vi_vm_address info = Some a" using a by blast
  then show ?thesis
    using reg_ok_end[OF ok[unfolded agent_reg_def] live e] info
    by (simp add: supervisor_ends_live[OF Some e] agent_reg_def ended_info_def)
qed (use ok in \<open>simp add: supervisor_ends_def\<close>)

lemma take_claim_frame:
  assumes "take_claim sid ag = Some ag'"
  shows "ag' = ag\<lparr>ag_traffic := (ag_traffic ag)(sid := (ag_traffic ag sid)\<lparr>parking := True\<rparr>)\<rparr>"
    "\<not> parking (ag_traffic ag sid)"
  using assms by (simp_all add: take_claim_def split: if_splits)

lemma agent_reg_park_task:
  assumes "agent_reg ag" and "task_slot t = None"
    and "ag_subnet ag1 = ag_subnet ag" "ag_vms ag1 = ag_vms ag" "ag_tasks ag1 = ag_tasks ag"
      "ag_live ag1 = ag_live ag" "ag_next_sid ag1 = ag_next_sid ag"
  shows "agent_reg (settle t ag1)" "task_ok t \<Longrightarrow> agent_reg (ag1\<lparr>ag_tasks := t # ag_tasks ag1\<rparr>)"
  using assms reg_ok_park_task[of "ag_subnet ag" "ag_vms ag" "ag_tasks ag" "ag_live ag" "ag_next_sid ag" t]
  by (simp_all add: agent_reg_def)

lemma agent_reg_park_vm:
  assumes "agent_reg ag" and "park_vm name later ag = (r, ag')"
  shows "agent_reg ag'"
  using assms agent_reg_park_task(2)[OF assms(1)]
  by (auto simp: park_vm_def claim_park_def Let_def dest!: take_claim_frame(1)
      split: sum.split_asm option.split_asm entry.split_asm)

lemma claim_idle_frame:
  "ag_subnet (claim_idle c ag) = ag_subnet ag" "ag_vms (claim_idle c ag) = ag_vms ag"
  "ag_live (claim_idle c ag) = ag_live ag" "ag_next_sid (claim_idle c ag) = ag_next_sid ag"
  "ag_store (claim_idle c ag) = ag_store ag" "ag_machines (claim_idle c ag) = ag_machines ag"
  "ag_hosts (claim_idle c ag) = ag_hosts ag" "ag_leases (claim_idle c ag) = ag_leases ag"
  by (auto simp: claim_idle_def dest!: take_claim_frame(1) split: option.splits)

lemma agent_reg_claim_idle: "agent_reg ag \<Longrightarrow> agent_reg (claim_idle c ag)"
  using agent_reg_park_task(2)[of ag "ParkTask (fst c) (snd c) True Claimed"]
  by (auto simp: claim_idle_def dest!: take_claim_frame(1) split: option.splits)

lemma agent_reg_park_idle: "agent_reg ag \<Longrightarrow> agent_reg (park_idle_apps now ag)"
proof -
  have "agent_reg ag \<Longrightarrow> agent_reg (fold claim_idle cs ag)" for cs ag
    by (induction cs arbitrary: ag) (simp_all add: agent_reg_claim_idle)
  then show "agent_reg ag \<Longrightarrow> agent_reg (park_idle_apps now ag)" by (simp add: park_idle_apps_def)
qed

lemma release_claim_frame [simp]:
  "ag_subnet (release_claim sid ag) = ag_subnet ag" "ag_vms (release_claim sid ag) = ag_vms ag"
  "ag_live (release_claim sid ag) = ag_live ag" "ag_next_sid (release_claim sid ag) = ag_next_sid ag"
  "ag_store (release_claim sid ag) = ag_store ag" "ag_machines (release_claim sid ag) = ag_machines ag"
  "ag_hosts (release_claim sid ag) = ag_hosts ag" "ag_leases (release_claim sid ag) = ag_leases ag"
  "ag_tasks (release_claim sid ag) = ag_tasks ag"
  by (simp_all add: release_claim_def)

lemma agent_reg_park_send:
  assumes "agent_reg ag" and "t \<in> set (ag_tasks ag)"
  shows "agent_reg (park_send now t ag)"
proof (cases t)
  case (ParkTask name sid idle ph)
  show ?thesis
    using assms(1) agent_reg_park_task(1)[OF assms(1)] agent_reg_advance[OF assms(1) assms(2)[unfolded ParkTask]]
    by (auto simp: park_send_def ParkTask Let_def split: park_phase.splits sum.splits)
qed (use assms in \<open>simp_all add: park_send_def\<close>)

lemma agent_reg_park_finish:
  assumes "agent_reg ag"
  shows "agent_reg (park_finish now answer t ag)"
  using assms agent_reg_park_task(1)[OF assms]
  by (auto simp: park_finish_def Let_def split: task.splits park_phase.splits)

lemma agent_reg_remove_vm:
  assumes "agent_reg ag" and "remove_vm ports f_app f_snap f_db name ag = (r, ag')"
  shows "agent_reg ag'"
proof -
  have "ag_subnet ag' = ag_subnet ag \<and> ag_tasks ag' = ag_tasks ag \<and> ag_live ag' = ag_live ag \<and>
    ag_next_sid ag' = ag_next_sid ag \<and>
    (ag_vms ag' = ag_vms ag \<or>
     ag_vms ag' = bm_remove name (ag_vms ag) \<and> (\<exists>info log. map_of (ag_vms ag) name = Some (Ended info log)))"
    using assms(2)
    by (auto simp: remove_vm_def Let_def split: sum.split_asm prod.split_asm bool.split_asm option.split_asm
        entry.split_asm if_splits)
  then show ?thesis
    using assms(1) reg_ok_remove by (auto simp: agent_reg_def)
qed

lemma agent_reg_run_on_machine:
  assumes "agent_reg ag" and "run_on_machine ports ports' fault req ag = (r, ag')"
  shows "agent_reg ag'"
  using assms
  by (auto simp: run_on_machine_def agent_reg_def split: sum.split_asm prod.split_asm)

lemma agent_reg_shutdown: "agent_reg ag \<Longrightarrow> agent_reg (begin_shutdown ag)"
  by (simp add: begin_shutdown_def agent_reg_def)

subsection \<open>Executions\<close>

text \<open>
  The edge hands out a lease on a running VM (\<open>step_for\<close>, under the VM table's lock) and gives it back.
\<close>

definition lease_start :: "nat \<Rightarrow> agent \<Rightarrow> agent" where
  "lease_start sid ag =
     ag\<lparr>ag_traffic := (ag_traffic ag)(sid := (ag_traffic ag sid)\<lparr>in_flight := in_flight (ag_traffic ag sid) + 1\<rparr>),
        ag_leases := sid # ag_leases ag\<rparr>"

definition lease_end :: "nat \<Rightarrow> nat \<Rightarrow> agent \<Rightarrow> agent" where
  "lease_end now sid ag =
     ag\<lparr>ag_traffic := (ag_traffic ag)(sid := (ag_traffic ag sid)\<lparr>last_at := now, in_flight := in_flight (ag_traffic ag sid) - 1\<rparr>),
        ag_leases := remove1 sid (ag_leases ag)\<rparr>"

inductive agent_step :: "agent \<Rightarrow> agent \<Rightarrow> bool" where
  run: "run_vm req rootfs ag = (r, ag') \<Longrightarrow> agent_step ag ag'"
| start_failed: "t \<in> set (ag_tasks ag) \<Longrightarrow> agent_step ag (start_failed t ag)"
| start_booted: "t \<in> set (ag_tasks ag) \<Longrightarrow> agent_step ag (start_booted p t ag)"
| start_record: "t \<in> set (ag_tasks ag) \<Longrightarrow> agent_step ag (start_record now fault t ag)"
| start_finish: "t \<in> set (ag_tasks ag) \<Longrightarrow> agent_step ag (start_finish time t ag)"
| wake: "wake_vm name ag = (r, ag') \<Longrightarrow> agent_step ag ag'"
| wake_failed: "t \<in> set (ag_tasks ag) \<Longrightarrow> agent_step ag (wake_failed err t ag)"
| wake_booted: "t \<in> set (ag_tasks ag) \<Longrightarrow> agent_step ag (wake_booted p t ag)"
| wake_record: "t \<in> set (ag_tasks ag) \<Longrightarrow> agent_step ag (wake_record now fault fault' t ag)"
| wake_finish: "t \<in> set (ag_tasks ag) \<Longrightarrow> agent_step ag (wake_finish time t ag)"
| supervisor_ends: "agent_step ag (supervisor_ends now fault sid reason ag)"
| park: "park_vm name later ag = (r, ag') \<Longrightarrow> agent_step ag ag'"
| park_idle: "agent_step ag (park_idle_apps time ag)"
| park_send: "t \<in> set (ag_tasks ag) \<Longrightarrow> agent_step ag (park_send time t ag)"
| park_finish: "t \<in> set (ag_tasks ag) \<Longrightarrow> agent_step ag (park_finish time answer t ag)"
| lease_start: "map_of (ag_vms ag) name = Some (Running info log sid) \<Longrightarrow> \<not> parking (ag_traffic ag sid) \<Longrightarrow>
    agent_step ag (lease_start sid ag)"
| lease_end: "sid \<in> set (ag_leases ag) \<Longrightarrow> agent_step ag (lease_end time sid ag)"
| run_on_machine: "run_on_machine ports ports' fault mreq ag = (mr, ag') \<Longrightarrow> agent_step ag ag'"
| remove: "remove_vm ports f_app f_snap f_db name ag = (u, ag') \<Longrightarrow> agent_step ag ag'"
| machine_add: "machine_add out add (ag_machines ag) (ag_store ag) = (mu, ms, st) \<Longrightarrow>
    agent_step ag (ag\<lparr>ag_machines := ms, ag_store := st\<rparr>)"
| machine_remove: "machine_remove fault unpin name (ag_machines ag) (ag_store ag) = (mu, ms, st) \<Longrightarrow>
    agent_step ag (ag\<lparr>ag_machines := ms, ag_store := st\<rparr>)"
| shutdown: "agent_step ag (begin_shutdown ag)"

inductive_cases agent_stepE: "agent_step ag ag'"

lemmas agent_reg_sections =
  agent_reg_run agent_reg_start_failed agent_reg_start_booted agent_reg_start_record agent_reg_start_finish
  agent_reg_wake agent_reg_wake_failed agent_reg_wake_booted agent_reg_wake_record agent_reg_wake_finish
  agent_reg_supervisor_ends agent_reg_park_vm agent_reg_park_idle agent_reg_park_send agent_reg_park_finish
  agent_reg_run_on_machine agent_reg_remove_vm agent_reg_shutdown

lemma agent_reg_step: "agent_step ag ag' \<Longrightarrow> agent_reg ag \<Longrightarrow> agent_reg ag'"
proof (induction rule: agent_step.induct)
  case lease_start
  then show ?case by (simp add: lease_start_def agent_reg_def)
next
  case lease_end
  then show ?case by (simp add: lease_end_def agent_reg_def)
next
  case machine_add
  then show ?case by (simp add: agent_reg_def)
next
  case machine_remove
  then show ?case by (simp add: agent_reg_def)
qed (blast intro: agent_reg_sections)+

end
