(* ===== verification/Recording.thy ===== *)
theory Recording
  imports
    Lifecycle
begin

section \<open>Running VMs are on record\<close>

text \<open>
  What the state database says while requests are served. Whatever statements fail, a VM the registry
  has as running is recorded with its process, so a restarted agent can find it; a name without an
  entry has no record, so a failed start leaves none behind; and every record of a running VM names
  its address and its process, so a restarted agent never has to refuse to start.
\<close>

definition record_sound :: "subnet \<Rightarrow> vm_record \<Rightarrow> bool" where
  "record_sound s r \<longleftrightarrow>
     (case vi_ended (rec_info r) of
        None \<Rightarrow> (\<exists>p. r = running_record (rec_info r) (rec_log r) p) \<and>
                (\<exists>a \<in> set (vm_addresses s). vi_vm_address (rec_info r) = Some a)
      | Some _ \<Rightarrow> vi_vm_address (rec_info r) = None)"

definition entry_recorded :: "subnet \<Rightarrow> entry option \<Rightarrow> vm_record option \<Rightarrow> bool" where
  "entry_recorded s e v \<longleftrightarrow>
     (\<forall>info log sid. e = Some (Running info log sid) \<longrightarrow> (\<exists>p. v = Some (running_record info log p))) \<and>
     (\<forall>r. v = Some r \<longrightarrow> e \<noteq> None \<and> record_sound s r)"

fun task_recorded :: "(string \<rightharpoonup> vm_record) \<Rightarrow> task \<Rightarrow> bool" where
  "task_recorded v (StartTask n spec rt old b) =
     (case b of
        Recorded info p \<Rightarrow> v n = Some (running_record info (vs_console_log spec) p)
      | _ \<Rightarrow> old = None \<longrightarrow> v n = None)"
| "task_recorded v (WakeTask n spec old b) =
     (case b of
        Recorded info p \<Rightarrow> v n = Some (running_record info (ws_console_log spec) p)
      | _ \<Rightarrow> True)"
| "task_recorded v (ParkTask _ _ _ _) = True"

definition recording :: "subnet \<Rightarrow> (string \<rightharpoonup> entry) \<Rightarrow> task list \<Rightarrow> (string \<rightharpoonup> vm_record) \<Rightarrow> bool" where
  "recording s vms ts v \<longleftrightarrow> (\<forall>n. entry_recorded s (vms n) (v n)) \<and> (\<forall>t \<in> set ts. task_recorded v t)"

definition agent_rec :: "agent \<Rightarrow> bool" where
  "agent_rec ag \<longleftrightarrow>
     store_wf (ag_store ag) \<and>
     recording (ag_subnet ag) (map_of (ag_vms ag)) (ag_tasks ag) (store_view (ag_store ag))"

definition task_name :: "task \<Rightarrow> string option" where
  "task_name t = map_option fst (task_slot t)"

lemma task_recorded_frame:
  "task_recorded v t \<Longrightarrow> task_name t \<noteq> Some n \<Longrightarrow> (\<And>m. m \<noteq> n \<Longrightarrow> v' m = v m) \<Longrightarrow> task_recorded v' t"
  by (cases t) (auto simp: task_name_def split: boot.splits)

lemma other_task_name:
  assumes "agent_reg ag" and "t \<in> set (ag_tasks ag)" and "task_name t = Some n"
    and "u \<in> set (remove1 t (ag_tasks ag))"
  shows "task_name u \<noteq> Some n"
proof
  assume "task_name u = Some n"
  then obtain e where "task_slot u = Some (n, e)" by (auto simp: task_name_def)
  with assms(4) have "(n, e) \<in> set (slots (remove1 t (ag_tasks ag)))"
    by (auto simp: slots_def set_map_filter)
  moreover obtain d where "task_slot t = Some (n, d)" using assms(3) by (auto simp: task_name_def)
  ultimately show False
    using slots_after_remove1(2)[OF assms(1)[unfolded agent_reg_def] assms(2)] by auto
qed

lemma recording_change:
  assumes "recording s vms ts v"
    and "\<And>m. m \<noteq> n \<Longrightarrow> vms' m = vms m" "\<And>m. m \<noteq> n \<Longrightarrow> v' m = v m"
    and "entry_recorded s (vms' n) (v' n)"
    and "\<And>t. t \<in> set ts' \<Longrightarrow> t \<in> set ts \<and> task_name t \<noteq> Some n \<or> task_recorded v' t"
  shows "recording s vms' ts' v'"
  unfolding recording_def
proof (intro conjI ballI allI)
  fix m
  show "entry_recorded s (vms' m) (v' m)"
    using assms(1-4) by (cases "m = n") (simp_all add: recording_def)
next
  fix t
  assume "t \<in> set ts'"
  then show "task_recorded v' t"
    using assms(1,3,5) task_recorded_frame[of v t n v'] by (auto simp: recording_def)
qed

lemma recordingD:
  "recording s vms ts v \<Longrightarrow> entry_recorded s (vms n) (v n)"
  "recording s vms ts v \<Longrightarrow> t \<in> set ts \<Longrightarrow> task_recorded v t"
  by (simp_all add: recording_def)

lemma recording_tasks:
  "recording s vms ts v \<Longrightarrow> (\<And>t. t \<in> set ts' \<Longrightarrow> t \<in> set ts \<or> task_recorded v t) \<Longrightarrow> recording s vms ts' v"
  by (auto simp: recording_def)

lemma running_record_again [simp]:
  "running_record (rec_info (running_record info log p)) log p = running_record info log p"
  by (simp add: running_record_def sql_time_def)

lemma record_sound_running:
  "vi_vm_address info = Some a \<Longrightarrow> a \<in> set (vm_addresses s) \<Longrightarrow>
   record_sound s (running_record info log p)"
  using running_record_again[of info log p]
  by (force simp: record_sound_def running_record_def)

lemma record_sound_ended [simp]: "record_sound s (ended_record e r)"
  by (simp add: record_sound_def ended_record_def)

lemma recorded_put:
  assumes "store_wf st" and "insert_running f info log p st = (r, st')"
  shows "store_wf st'" "\<And>u. r = Inr u \<Longrightarrow> store_view st' = (store_view st)(vi_name info \<mapsto> running_record info log p)"
    "\<And>e. r = Inl e \<Longrightarrow> st' = st"
  using assms vm_db.put_wf[OF assms(1), of f info log p] vm_db.put_success[OF assms(1), of f info log p]
    vm_db.put_failure[OF assms(1), of f info log p]
  by (auto simp del: fun_upd_apply)

lemma recorded_finish:
  assumes "store_wf st"
  shows "store_wf (snd (mark_ended f n e st))"
    "store_view (snd (mark_ended f n e st)) = store_view st \<or>
     store_view (snd (mark_ended f n e st)) = (store_view st)(n := map_option (ended_record e) (store_view st n))"
proof -
  show "store_wf (snd (mark_ended f n e st))" by (rule vm_db.finish_wf[OF assms])
  obtain r st' where m: "mark_ended f n e st = (r, st')" by fastforce
  show "store_view (snd (mark_ended f n e st)) = store_view st \<or>
     store_view (snd (mark_ended f n e st)) = (store_view st)(n := map_option (ended_record e) (store_view st n))"
    using vm_db.finish_success[OF assms, of f n e] vm_db.finish_failure[OF assms, of f n e]
    by (cases r) (simp_all add: m)
qed

subsection \<open>Starting\<close>

lemma agent_rec_run:
  assumes reg: "agent_reg ag" and rec: "agent_rec ag" and run: "run_vm run rootfs ag = (r, ag')"
  shows "agent_rec ag'"
proof (cases r)
  case (Inl e)
  with run_vm_failure[of run rootfs ag e ag'] run rec show ?thesis by (auto simp: agent_rec_def)
next
  case (Inr t)
  from run[unfolded Inr] show ?thesis
  proof (rule run_vm_success)
    fix guest log a old ag1
    assume res: "reserve run log (ag\<lparr>ag_next_log := ag_next_log ag + 1\<rparr>) = Inr (a, old, ag1)"
      and t: "t = StartTask (rr_name run) \<lparr>vs_vm_address = a, vs_rootfs = rr_rootfs run, vs_mem_mib = rr_mem_mib run,
          vs_vcpus = rr_vcpus run, vs_guest = guest, vs_console_log = log\<rparr> (rr_route run) old Booting"
      and ag': "ag' = ag1\<lparr>ag_tasks := t # ag_tasks ag1\<rparr>"
    note sp = reserve_spec[OF res, simplified, OF reg_okD(1)[OF reg[unfolded agent_reg_def]]]
    let ?v = "store_view (ag_store ag)" and ?n = "rr_name run"
    have ok: "recording (ag_subnet ag) (map_of (ag_vms ag)) (ag_tasks ag) ?v"
      using rec by (simp add: agent_rec_def)
    have name: "entry_recorded (ag_subnet ag) (map_of (ag_vms ag) ?n) (?v ?n)" by (rule recordingD(1)[OF ok])
    have "recording (ag_subnet ag) ((map_of (ag_vms ag))(?n \<mapsto> Starting a log (rr_route run))) (ag_tasks ag) ?v"
      by (rule recording_change[OF ok, of ?n])
        (use name ok in \<open>auto simp: entry_recorded_def recording_def\<close>)
    moreover have "task_recorded ?v t"
      using name sp(8) by (auto simp: t entry_recorded_def)
    ultimately have "recording (ag_subnet ag) ((map_of (ag_vms ag))(?n \<mapsto> Starting a log (rr_route run))) (t # ag_tasks ag) ?v"
      by (simp add: recording_def)
    then show ?thesis using rec by (simp add: agent_rec_def ag' sp(1))
  qed
qed

lemma agent_rec_forget:
  assumes reg: "agent_reg ag" and rec: "agent_rec ag" and t: "StartTask name spec rt old b \<in> set (ag_tasks ag)"
    and b: "\<And>info p. b \<noteq> Recorded info p"
    and same: "ag_subnet ag1 = ag_subnet ag" "ag_vms ag1 = ag_vms ag" "ag_tasks ag1 = ag_tasks ag" "ag_store ag1 = ag_store ag"
  shows "agent_rec (settle (StartTask name spec rt old b) (forget_start name old log ag1))"
proof -
  let ?t = "StartTask name spec rt old b" and ?v = "store_view (ag_store ag)"
  have ok: "recording (ag_subnet ag) (map_of (ag_vms ag)) (ag_tasks ag) ?v"
    using rec by (simp add: agent_rec_def)
  have "task_recorded ?v ?t" using recordingD(2)[OF ok t] .
  then have none: "old = None \<Longrightarrow> ?v name = None" using b by (auto split: boot.splits)
  have "recording (ag_subnet ag) (map_of (ag_vms (forget_start name old log ag1))) (remove1 ?t (ag_tasks ag)) ?v"
  proof (rule recording_change[OF ok, of name])
    show "entry_recorded (ag_subnet ag) (map_of (ag_vms (forget_start name old log ag1)) name) (?v name)"
      using recordingD(1)[OF ok, of name] none
      by (cases old) (auto simp: map_of_forget entry_recorded_def)
    show "u \<in> set (ag_tasks ag) \<and> task_name u \<noteq> Some name \<or> task_recorded ?v u"
      if "u \<in> set (remove1 ?t (ag_tasks ag))" for u
      using recordingD(2)[OF ok] that set_remove1_subset by fast
  qed (simp_all add: map_of_forget same)
  then show ?thesis using rec by (simp add: agent_rec_def same)
qed

lemma agent_rec_start_failed:
  assumes "agent_reg ag" and "agent_rec ag" and "t \<in> set (ag_tasks ag)"
  shows "agent_rec (start_failed t ag)"
  using assms(2) assms(3) agent_rec_forget[OF assms(1,2)]
  by (auto simp: start_failed_def split: task.splits boot.splits)

lemma agent_rec_advance:
  assumes "agent_rec ag" and "task_recorded (store_view (ag_store ag)) t'"
    and "ag_subnet ag1 = ag_subnet ag" "ag_vms ag1 = ag_vms ag" "ag_tasks ag1 = ag_tasks ag" "ag_store ag1 = ag_store ag"
  shows "agent_rec (advance t t' ag1)"
  using assms set_remove1_subset[of t "ag_tasks ag"] by (auto simp: agent_rec_def recording_def)

lemma agent_rec_start_booted:
  assumes "agent_reg ag" and "agent_rec ag" and "t \<in> set (ag_tasks ag)"
  shows "agent_rec (start_booted p t ag)"
proof -
  have "task_recorded (store_view (ag_store ag)) t"
    using assms(2,3) recordingD(2) by (auto simp: agent_rec_def)
  then show ?thesis
    using assms(2) by (auto simp: start_booted_def agent_rec_advance split: task.splits boot.splits)
qed

lemma agent_rec_start_record:
  assumes reg: "agent_reg ag" and rec: "agent_rec ag" and mem: "t \<in> set (ag_tasks ag)"
  shows "agent_rec (start_record now fault t ag)"
proof (cases "\<exists>name spec rt old p. t = StartTask name spec rt old (Booted p)")
  case True
  then obtain name spec rt old p where t: "t = StartTask name spec rt old (Booted p)" by blast
  let ?info = "start_info name spec rt now" and ?v = "store_view (ag_store ag)"
  obtain r st where ins: "insert_running fault ?info (vs_console_log spec) p (ag_store ag) = (r, st)" by fastforce
  have wf: "store_wf (ag_store ag)" and ok: "recording (ag_subnet ag) (map_of (ag_vms ag)) (ag_tasks ag) ?v"
    using rec by (simp_all add: agent_rec_def)
  note put = recorded_put[OF wf ins]
  show ?thesis
  proof (cases r)
    case (Inl e)
    then show ?thesis
      using ins put(3) agent_rec_forget[OF reg rec mem[unfolded t]]
      by (simp add: start_record_def t)
  next
    case (Inr u)
    note own = slot_owner[OF reg[unfolded agent_reg_def] mem, unfolded t, simplified]
    have a: "vs_vm_address spec \<in> set (vm_addresses (ag_subnet ag))"
      using reg_okD(4)[OF reg[unfolded agent_reg_def] own(1)] by simp
    let ?v' = "?v(name \<mapsto> running_record ?info (vs_console_log spec) p)"
    have view: "store_view st = ?v'" using put(2)[OF Inr] by (simp add: start_info_def)
    have sound: "record_sound (ag_subnet ag) (running_record ?info (vs_console_log spec) p)"
      using a by (intro record_sound_running) (simp_all add: start_info_def)
    have "recording (ag_subnet ag) (map_of (ag_vms ag))
        (StartTask name spec rt old (Recorded ?info p) # remove1 t (ag_tasks ag)) ?v'"
      by (rule recording_change[OF ok, of name])
        (use own sound other_task_name[OF reg mem] set_remove1_subset in
         \<open>fastforce simp: entry_recorded_def t task_name_def\<close>)+
    then show ?thesis
      using Inr ins put(1) view by (simp add: start_record_def t agent_rec_def)
  qed
next
  case False
  then have "start_record now fault t ag = ag"
    by (auto simp: start_record_def split: task.splits boot.splits)
  then show ?thesis using rec by simp
qed

lemma agent_rec_supervise:
  assumes reg: "agent_reg ag" and rec: "agent_rec ag" and mem: "t \<in> set (ag_tasks ag)" "task_name t = Some (vi_name info)"
    and v: "store_view (ag_store ag) (vi_name info) = Some (running_record info log p)"
    and same: "ag_subnet ag1 = ag_subnet ag" "ag_vms ag1 = ag_vms ag" "ag_tasks ag1 = ag_tasks ag" "ag_store ag1 = ag_store ag"
  shows "agent_rec (settle t (start_supervising now info log ag1))"
proof -
  have ok: "recording (ag_subnet ag) (map_of (ag_vms ag)) (ag_tasks ag) (store_view (ag_store ag))"
    using rec by (simp add: agent_rec_def)
  have "recording (ag_subnet ag) ((map_of (ag_vms ag))(vi_name info \<mapsto> Running info log (ag_next_sid ag1)))
      (remove1 t (ag_tasks ag)) (store_view (ag_store ag))"
    by (rule recording_change[OF ok, of "vi_name info"])
      (use recordingD(1)[OF ok, of "vi_name info"] v other_task_name[OF reg mem] set_remove1_subset in
       \<open>fastforce simp: entry_recorded_def\<close>)+
  then show ?thesis using rec by (simp add: agent_rec_def same)
qed

lemma agent_rec_start_finish:
  assumes reg: "agent_reg ag" and rec: "agent_rec ag" and mem: "t \<in> set (ag_tasks ag)"
  shows "agent_rec (start_finish now t ag)"
proof (cases "\<exists>name spec rt old info p. t = StartTask name spec rt old (Recorded info p)")
  case True
  then obtain name spec rt old info p where t: "t = StartTask name spec rt old (Recorded info p)" by blast
  have "vi_name info = name"
    using agent_reg_task_ok[OF reg mem] by (simp add: t recorded_ok_def)
  moreover have "task_recorded (store_view (ag_store ag)) t"
    using rec mem recordingD(2) by (auto simp: agent_rec_def)
  ultimately have "agent_rec (settle t (start_supervising now info (vs_console_log spec)
      (case old of None \<Rightarrow> ag | Some r \<Rightarrow> ag\<lparr>ag_logs := removeAll (rp_log r) (ag_logs ag)\<rparr>)))"
    by (intro agent_rec_supervise[OF reg rec mem, of _ _ p])
      (auto simp: t task_name_def split: option.splits)
  then show ?thesis by (simp add: start_finish_def t)
next
  case False
  then have "start_finish now t ag = ag"
    by (auto simp: start_finish_def split: task.splits boot.splits)
  then show ?thesis using rec by simp
qed

subsection \<open>Waking\<close>

lemma agent_rec_wake:
  assumes reg: "agent_reg ag" and rec: "agent_rec ag" and run: "wake_vm name ag = (r, ag')"
  shows "agent_rec ag'"
proof (cases "ag' = ag")
  case False
  from run False obtain info log a t where e: "map_of (ag_vms ag) name = Some (Ended info log)"
    and ag': "ag' = ag\<lparr>ag_vms := bm_insert name (Starting a log (vi_route info)) (ag_vms ag), ag_tasks := t # ag_tasks ag\<rparr>"
    and t: "\<exists>spec old. t = WakeTask name spec old Booting"
    by (auto simp: wake_vm_def Let_def split: if_splits option.split_asm entry.split_asm sum.split_asm)
  have ok: "recording (ag_subnet ag) (map_of (ag_vms ag)) (ag_tasks ag) (store_view (ag_store ag))"
    using rec by (simp add: agent_rec_def)
  have "recording (ag_subnet ag) ((map_of (ag_vms ag))(name \<mapsto> Starting a log (vi_route info)))
      (t # ag_tasks ag) (store_view (ag_store ag))"
    by (rule recording_change[OF ok, of name])
      (use recordingD[OF ok] t e in \<open>auto simp: entry_recorded_def\<close>)
  then show ?thesis using rec by (simp add: agent_rec_def ag')
qed (use rec in simp)

lemma agent_rec_put_back:
  assumes reg: "agent_reg ag" and rec: "agent_rec ag" and mem: "WakeTask name spec old b \<in> set (ag_tasks ag)"
    and same: "ag_subnet ag1 = ag_subnet ag" "ag_tasks ag1 = ag_tasks ag"
      "ag_vms ag1 = bm_insert name (Ended info log) (ag_vms ag)"
    and store: "ag_store ag1 = ag_store ag \<or> (\<exists>f e. ag_store ag1 = snd (mark_ended f name e (ag_store ag)))"
  shows "agent_rec (settle (WakeTask name spec old b) ag1)"
proof -
  let ?t = "WakeTask name spec old b" and ?v = "store_view (ag_store ag)" and ?v1 = "store_view (ag_store ag1)"
  have wf: "store_wf (ag_store ag)" and ok: "recording (ag_subnet ag) (map_of (ag_vms ag)) (ag_tasks ag) ?v"
    using rec by (simp_all add: agent_rec_def)
  have "store_wf (ag_store ag1) \<and> (?v1 = ?v \<or> (\<exists>e. ?v1 = ?v(name := map_option (ended_record e) (?v name))))"
    using store wf recorded_finish[OF wf] by metis
  then have wf1: "store_wf (ag_store ag1)" and frame: "\<And>m. m \<noteq> name \<Longrightarrow> ?v1 m = ?v m"
    and snd: "\<And>r. ?v1 name = Some r \<Longrightarrow> record_sound (ag_subnet ag) r"
    using recordingD(1)[OF ok, of name] by (auto simp: entry_recorded_def)
  have "recording (ag_subnet ag) ((map_of (ag_vms ag))(name \<mapsto> Ended info log)) (remove1 ?t (ag_tasks ag)) ?v1"
    by (rule recording_change[OF ok, of name])
      (use frame snd other_task_name[OF reg mem] set_remove1_subset in \<open>fastforce simp: entry_recorded_def task_name_def\<close>)+
  then show ?thesis using wf1 by (simp add: agent_rec_def same)
qed

lemma agent_rec_wake_failed:
  assumes "agent_reg ag" and "agent_rec ag" and "t \<in> set (ag_tasks ag)"
  shows "agent_rec (wake_failed err t ag)"
  using assms(2,3) agent_rec_put_back[OF assms(1,2)]
  by (auto simp: wake_failed_def split: task.splits boot.splits)

lemma agent_rec_wake_booted:
  assumes "agent_rec ag"
  shows "agent_rec (wake_booted p t ag)"
  using assms by (auto simp: wake_booted_def agent_rec_advance split: task.splits boot.splits)

lemma agent_rec_wake_record:
  assumes reg: "agent_reg ag" and rec: "agent_rec ag" and mem: "t \<in> set (ag_tasks ag)"
  shows "agent_rec (wake_record now fault fault' t ag)"
proof (cases "\<exists>name spec old p. t = WakeTask name spec old (Booted p)")
  case True
  then obtain name spec old p where t: "t = WakeTask name spec old (Booted p)" by blast
  let ?info = "wake_info name spec old now" and ?v = "store_view (ag_store ag)"
  obtain r st where ins: "insert_running fault ?info (ws_console_log spec) p (ag_store ag) = (r, st)" by fastforce
  have wf: "store_wf (ag_store ag)" and ok: "recording (ag_subnet ag) (map_of (ag_vms ag)) (ag_tasks ag) ?v"
    using rec by (simp_all add: agent_rec_def)
  note put = recorded_put[OF wf ins]
  show ?thesis
  proof (cases r)
    case (Inl e)
    then show ?thesis
      using ins put(3) by (simp add: wake_record_def t Let_def) (rule agent_rec_put_back[OF reg rec mem[unfolded t]], auto)
  next
    case (Inr u)
    note own = slot_owner[OF reg[unfolded agent_reg_def] mem, unfolded t, simplified]
    have a: "ws_vm_address spec \<in> set (vm_addresses (ag_subnet ag))"
      using reg_okD(4)[OF reg[unfolded agent_reg_def] own(1)] by simp
    let ?v' = "?v(name \<mapsto> running_record ?info (ws_console_log spec) p)"
    have view: "store_view st = ?v'" using put(2)[OF Inr] by (simp add: wake_info_def)
    have sound: "record_sound (ag_subnet ag) (running_record ?info (ws_console_log spec) p)"
      using a by (intro record_sound_running) (simp_all add: wake_info_def)
    have "recording (ag_subnet ag) (map_of (ag_vms ag))
        (WakeTask name spec old (Recorded ?info p) # remove1 t (ag_tasks ag)) ?v'"
      by (rule recording_change[OF ok, of name])
        (use own sound other_task_name[OF reg mem] set_remove1_subset in
         \<open>fastforce simp: entry_recorded_def t task_name_def\<close>)+
    then show ?thesis
      using Inr ins put(1) view by (simp add: wake_record_def t agent_rec_def)
  qed
next
  case False
  then have "wake_record now fault fault' t ag = ag"
    by (auto simp: wake_record_def split: task.splits boot.splits)
  then show ?thesis using rec by simp
qed

lemma agent_rec_wake_finish:
  assumes reg: "agent_reg ag" and rec: "agent_rec ag" and mem: "t \<in> set (ag_tasks ag)"
  shows "agent_rec (wake_finish now t ag)"
proof (cases "\<exists>name spec old info p. t = WakeTask name spec old (Recorded info p)")
  case True
  then obtain name spec old info p where t: "t = WakeTask name spec old (Recorded info p)" by blast
  have "vi_name info = name"
    using agent_reg_task_ok[OF reg mem] by (simp add: t recorded_ok_def)
  moreover have "task_recorded (store_view (ag_store ag)) t"
    using rec mem recordingD(2) by (auto simp: agent_rec_def)
  ultimately have "agent_rec (settle t (start_supervising now info (ws_console_log spec)
      (ag\<lparr>ag_parked := removeAll name (ag_parked ag)\<rparr>)))"
    by (intro agent_rec_supervise[OF reg rec mem, of _ _ p]) (auto simp: t task_name_def)
  then show ?thesis by (simp add: wake_finish_def t Let_def agent_rec_def)
next
  case False
  then have "wake_finish now t ag = ag"
    by (auto simp: wake_finish_def split: task.splits boot.splits)
  then show ?thesis using rec by simp
qed

subsection \<open>Ending, parking and removing\<close>

lemma agent_rec_supervisor_ends:
  assumes reg: "agent_reg ag" and rec: "agent_rec ag"
  shows "agent_rec (supervisor_ends now fault sid reason ag)"
proof (cases "map_of (ag_live ag) sid")
  case (Some name)
  from reg Some obtain info log where e: "map_of (ag_vms ag) name = Some (Running info log sid)"
    and a: "vi_vm_address info \<noteq> None" by (rule live_entry)
  obtain a where a: "vi_vm_address info = Some a" using a by blast
  let ?e = "\<lparr>ended_at = now, ended_reason = reason\<rparr>" and ?v = "store_view (ag_store ag)"
  let ?v' = "store_view (snd (mark_ended fault name ?e (ag_store ag)))"
  have wf: "store_wf (ag_store ag)" and ok: "recording (ag_subnet ag) (map_of (ag_vms ag)) (ag_tasks ag) ?v"
    using rec by (simp_all add: agent_rec_def)
  note fin = recorded_finish[OF wf, of fault name ?e]
  have not_starting: "task_name u \<noteq> Some name" if "u \<in> set (ag_tasks ag)" for u
    using slot_owner[OF reg[unfolded agent_reg_def] that, of name] e by (auto simp: task_name_def)
  have "entry_recorded (ag_subnet ag) (Some (Ended (ended_info info ?e) log)) (?v' name)"
    using recordingD(1)[OF ok, of name] fin(2) by (auto simp: entry_recorded_def)
  moreover have "?v' m = ?v m" if "m \<noteq> name" for m using fin(2) that by auto
  ultimately have "recording (ag_subnet ag) ((map_of (ag_vms ag))(name \<mapsto> Ended (ended_info info ?e) log)) (ag_tasks ag) ?v'"
    using not_starting by (intro recording_change[OF ok, of name]) simp_all
  moreover have "(map_of (ag_vms ag))(name := None, name \<mapsto> x) = (map_of (ag_vms ag))(name \<mapsto> x)" for x by simp
  ultimately show ?thesis
    using fin(1) by (simp add: supervisor_ends_live[OF Some e a] agent_rec_def)
qed (use rec in \<open>simp add: supervisor_ends_def\<close>)

lemma agent_rec_frame:
  assumes "agent_rec ag" and "ag_subnet ag' = ag_subnet ag" "ag_vms ag' = ag_vms ag" "ag_store ag' = ag_store ag"
    and "\<And>t. t \<in> set (ag_tasks ag') \<Longrightarrow> t \<in> set (ag_tasks ag) \<or> (\<exists>n sid i ph. t = ParkTask n sid i ph)"
  shows "agent_rec ag'"
  using assms by (force simp: agent_rec_def recording_def)

lemma agent_rec_park_vm:
  assumes "agent_rec ag" and "park_vm name later ag = (r, ag')"
  shows "agent_rec ag'"
  by (rule agent_rec_frame[OF assms(1)])
    (use assms(2) in \<open>auto simp: park_vm_def claim_park_def Let_def dest!: take_claim_frame(1)
      split: sum.split_asm option.split_asm entry.split_asm\<close>)

lemma agent_rec_park_idle:
  assumes "agent_rec ag"
  shows "agent_rec (park_idle_apps now ag)"
proof -
  have "agent_rec (fold claim_idle cs ag)" if "agent_rec ag" for cs ag
    using that
  proof (induction cs arbitrary: ag)
    case (Cons c cs)
    have "agent_rec (claim_idle c ag)"
      by (rule agent_rec_frame[OF Cons.prems])
        (auto simp: claim_idle_frame, auto simp: claim_idle_def dest!: take_claim_frame(1) split: option.splits)
    with Cons.IH show ?case by simp
  qed simp
  with assms show ?thesis by (simp add: park_idle_apps_def)
qed

lemma agent_rec_park_send:
  assumes "agent_rec ag" and "t \<in> set (ag_tasks ag)"
  shows "agent_rec (park_send now t ag)"
  by (rule agent_rec_frame[OF assms(1)])
    (use set_remove1_subset[of t "ag_tasks ag"] in \<open>auto simp: park_send_def Let_def
      split: task.splits park_phase.splits sum.splits if_splits\<close>)

lemma agent_rec_park_finish:
  assumes "agent_rec ag"
  shows "agent_rec (park_finish now answer t ag)"
  by (rule agent_rec_frame[OF assms(1)])
    (use set_remove1_subset[of t "ag_tasks ag"] in \<open>auto simp: park_finish_def Let_def
      split: task.splits park_phase.splits sum.splits if_splits\<close>)

lemma store_view_machine_statements:
  "store_view (snd (insert_machine_app f a st)) = store_view st"
  "store_view (snd (delete_machine_app f n st)) = store_view st"
  "store_view (snd (insert_machine f m st)) = store_view st"
  "store_view (snd (delete_machine f n st)) = store_view st"
  by (auto simp: store_view_def fun_eq_iff insert_machine_app_def delete_machine_app_def insert_machine_def
      delete_machine_def db_exec_def split: option.splits)

lemma add_app_store:
  "add_app ports ports' fault req ms st = (r, ms', st') \<Longrightarrow> \<exists>f a. st' = st \<or> st' = snd (insert_machine_app f a st)"
  by (auto simp: add_app_def Let_def case_prod_unfold split: if_splits option.split_asm sum.split_asm)

lemma remove_app_store:
  "remove_app ports fault name ms st = (r, ms', st') \<Longrightarrow> st' = st \<or> st' = snd (delete_machine_app fault name st)"
  by (auto simp: remove_app_def Let_def case_prod_unfold split: if_splits option.split_asm sum.split_asm)

lemma machine_add_store:
  "machine_add out add ms st = (r, ms', st') \<Longrightarrow> \<exists>f m. st' = st \<or> st' = snd (insert_machine f m st)"
  by (auto simp: machine_add_def Let_def split: if_splits option.split_asm sum.split_asm prod.split_asm) (metis sndI)+

lemma machine_remove_store:
  "machine_remove fault unpin name ms st = (r, ms', st') \<Longrightarrow> st' = st \<or> st' = snd (delete_machine fault name st)"
  by (auto simp: machine_remove_def Let_def split: if_splits option.split_asm sum.split_asm prod.split_asm)

lemma agent_rec_machines:
  assumes "agent_rec ag" and "store_view st = store_view (ag_store ag)" "store_wf st"
  shows "agent_rec (ag\<lparr>ag_machines := ms, ag_store := st\<rparr>)"
  using assms by (simp add: agent_rec_def)

lemma agent_rec_run_on_machine:
  assumes rec: "agent_rec ag" and run: "run_on_machine ports ports' fault req ag = (r, ag')"
  shows "agent_rec ag'"
proof -
  have wf: "store_wf (ag_store ag)" using rec by (simp add: agent_rec_def)
  from run have "ag' = ag \<or> (\<exists>ms st. add_app ports ports' fault req (ag_machines ag) (ag_store ag) = (r, ms, st) \<and>
      ag' = ag\<lparr>ag_machines := ms, ag_store := st\<rparr>)"
    by (auto simp: run_on_machine_def split: sum.split_asm prod.split_asm)
  then show ?thesis
    using rec add_app_store agent_rec_machines[OF rec] store_view_machine_statements(1)
      store_wf_machine_statements(3)[OF wf] wf by metis
qed

lemma agent_rec_remove_vm:
  assumes reg: "agent_reg ag" and rec: "agent_rec ag"
    and run: "remove_vm ports f_app f_snap f_db name ag = (r, ag')"
  shows "agent_rec ag'"
proof -
  have wf: "store_wf (ag_store ag)"
    and ok: "recording (ag_subnet ag) (map_of (ag_vms ag)) (ag_tasks ag) (store_view (ag_store ag))"
    using rec by (simp_all add: agent_rec_def)
  obtain q ms st where app: "remove_app ports f_app name (ag_machines ag) (ag_store ag) = (q, ms, st)"
    by (metis prod_cases3)
  have "store_view st = store_view (ag_store ag)" "store_wf st"
    using remove_app_store[OF app] store_view_machine_statements(2) store_wf_machine_statements(4)[OF wf] wf
    by metis+
  note machines = agent_rec_machines[OF rec this]
  consider (machines) "ag' = ag\<lparr>ag_machines := ms, ag_store := st\<rparr>"
    | (same) "ag_vms ag' = ag_vms ag" "ag_subnet ag' = ag_subnet ag" "ag_tasks ag' = ag_tasks ag"
        "ag_store ag' = ag_store ag"
    | (gone) info log st' where "map_of (ag_vms ag) name = Some (Ended info log)"
        "delete f_db name (ag_store ag) = (Inr (), st')" "ag_vms ag' = bm_remove name (ag_vms ag)"
        "ag_subnet ag' = ag_subnet ag" "ag_tasks ag' = ag_tasks ag" "ag_store ag' = st'"
    using run app vm_db.drop_failure[OF wf]
    by (auto simp: remove_vm_def Let_def split: sum.split_asm prod.split_asm bool.split_asm option.split_asm
        entry.split_asm if_splits)
  then show ?thesis
  proof cases
    case gone
    have v: "store_view st' = (store_view (ag_store ag))(name := None)"
      using vm_db.drop_success[OF wf gone(2)] .
    have wf': "store_wf st'" using vm_db.drop_wf[OF wf, of f_db name] gone(2) by simp
    have not_starting: "task_name u \<noteq> Some name" if "u \<in> set (ag_tasks ag)" for u
      using slot_owner[OF reg[unfolded agent_reg_def] that, of name] gone(1) by (auto simp: task_name_def)
    have "recording (ag_subnet ag) ((map_of (ag_vms ag))(name := None)) (ag_tasks ag) (store_view st')"
      by (rule recording_change[OF ok, of name]) (use v not_starting in \<open>auto simp: entry_recorded_def\<close>)
    then show ?thesis using gone wf' by (simp add: agent_rec_def)
  qed (use machines rec in \<open>simp_all add: agent_rec_def\<close>)
qed

lemma agent_rec_step:
  assumes "agent_step ag ag'" and "agent_reg ag" and "agent_rec ag"
  shows "agent_rec ag'"
  using assms
proof (induction rule: agent_step.induct)
  case (machine_add out add ag mu ms st)
  have wf: "store_wf (ag_store ag)" using machine_add(3) by (simp add: agent_rec_def)
  show ?case
    using machine_add_store[OF machine_add(1)] agent_rec_machines[OF machine_add(3)] wf
      store_view_machine_statements(3) store_wf_machine_statements(1)[OF wf] by metis
next
  case (machine_remove fault unpin name ag mu ms st)
  have wf: "store_wf (ag_store ag)" using machine_remove(3) by (simp add: agent_rec_def)
  show ?case
    using machine_remove_store[OF machine_remove(1)] agent_rec_machines[OF machine_remove(3)] wf
      store_view_machine_statements(4) store_wf_machine_statements(2)[OF wf] by metis
next
  case lease_start
  then show ?case by (simp add: lease_start_def agent_rec_def)
next
  case lease_end
  then show ?case by (simp add: lease_end_def agent_rec_def)
next
  case shutdown
  then show ?case by (simp add: begin_shutdown_def agent_rec_def)
qed (blast intro: agent_rec_run agent_rec_start_failed agent_rec_start_booted agent_rec_start_record
    agent_rec_start_finish agent_rec_wake agent_rec_wake_failed agent_rec_wake_booted agent_rec_wake_record
    agent_rec_wake_finish agent_rec_supervisor_ends agent_rec_park_vm agent_rec_park_idle agent_rec_park_send
    agent_rec_park_finish agent_rec_run_on_machine agent_rec_remove_vm)+

end
