(* ===== verification/Claims.thy ===== *)
theory Claims
  imports
    Lifecycle
begin

section \<open>Parks and the edge's requests\<close>

text \<open>
  The traffic counters the edge and the parks share: a VM's \<open>parking\<close> flag is set exactly while one
  park task holds its claim, \<open>in_flight\<close> counts the leases the edge has out, and a VM an idle park
  claims has none, from the moment it is claimed until the claim is released.
\<close>

fun claim_of :: "task \<Rightarrow> nat option" where
  "claim_of (ParkTask _ sid _ _) = Some sid"
| "claim_of _ = None"

definition claims :: "task list \<Rightarrow> nat list" where
  "claims ts = List.map_filter claim_of ts"

definition idle_claims :: "task list \<Rightarrow> nat set" where
  "idle_claims ts = {sid. \<exists>n ph. ParkTask n sid True ph \<in> set ts}"

definition claims_ok :: "(nat \<Rightarrow> traffic) \<Rightarrow> task list \<Rightarrow> nat list \<Rightarrow> nat \<Rightarrow> bool" where
  "claims_ok tr ts leases next \<longleftrightarrow>
     distinct (claims ts) \<and> (\<forall>sid. parking (tr sid) \<longleftrightarrow> sid \<in> set (claims ts)) \<and>
     (\<forall>sid. in_flight (tr sid) = count_list leases sid) \<and>
     (\<forall>sid \<in> idle_claims ts. in_flight (tr sid) = 0) \<and>
     (\<forall>sid \<in> set (claims ts) \<union> set leases. sid < next)"

definition agent_claims :: "agent \<Rightarrow> bool" where
  "agent_claims ag \<longleftrightarrow> claims_ok (ag_traffic ag) (ag_tasks ag) (ag_leases ag) (ag_next_sid ag)"

lemma claims_Cons: "claims (t # ts) = (case claim_of t of None \<Rightarrow> claims ts | Some sid \<Rightarrow> sid # claims ts)"
  by (simp add: claims_def List.map_filter_simps split: option.splits)

lemma claims_remove1_None: "claim_of t = None \<Longrightarrow> claims (remove1 t ts) = claims ts"
  by (induction ts) (auto simp: claims_Cons split: option.splits)

lemma mset_claims_remove1:
  "t \<in> set ts \<Longrightarrow> claim_of t = Some sid \<Longrightarrow> mset (claims ts) = add_mset sid (mset (claims (remove1 t ts)))"
  by (induction ts) (auto simp: claims_Cons split: option.splits)

lemma claims_after_remove1:
  assumes "distinct (claims ts)" and "t \<in> set ts" and "claim_of t = Some sid"
  shows "distinct (claims (remove1 t ts))" "set (claims (remove1 t ts)) = set (claims ts) - {sid}"
proof -
  have m: "mset (claims ts) = mset (sid # claims (remove1 t ts))"
    using mset_claims_remove1[OF assms(2,3)] by simp
  from mset_eq_imp_distinct_iff[OF this] assms(1)
  have d: "distinct (claims (remove1 t ts))" "sid \<notin> set (claims (remove1 t ts))" by simp_all
  then show "distinct (claims (remove1 t ts))" by simp
  have "set (claims ts) = insert sid (set (claims (remove1 t ts)))"
    using m by (metis list.simps(15) set_mset_mset)
  with d(2) show "set (claims (remove1 t ts)) = set (claims ts) - {sid}" by auto
qed

lemma idle_claims_simps [simp]:
  "idle_claims (StartTask n spec rt old b # ts) = idle_claims ts"
  "idle_claims (WakeTask n wspec r b # ts) = idle_claims ts"
  "idle_claims (ParkTask n sid False ph # ts) = idle_claims ts"
  "idle_claims (ParkTask n sid True ph # ts) = insert sid (idle_claims ts)"
  by (auto simp: idle_claims_def)

lemma idle_claims_remove1: "idle_claims (remove1 t ts) \<subseteq> idle_claims ts"
  using set_remove1_subset[of t ts] by (auto simp: idle_claims_def)

text \<open>Tasks other than parks come and go.\<close>

lemma claims_ok_tasks:
  assumes "claims_ok tr ts leases next" and "claim_of t = None"
  shows "claims_ok tr (remove1 t ts) leases next"
    and "claim_of t' = None \<Longrightarrow> claims_ok tr (t' # ts) leases next"
    and "claim_of t' = None \<Longrightarrow> claims_ok tr (t' # remove1 t ts) leases next"
proof -
  show rem: "claims_ok tr (remove1 t ts) leases next"
    using assms idle_claims_remove1[of t ts] by (auto simp: claims_ok_def claims_remove1_None)
  have add: "claims_ok tr (t' # ts) leases next" if "claims_ok tr ts leases next" "claim_of t' = None" for ts
    using that by (cases t') (auto simp: claims_ok_def claims_Cons)
  show "claim_of t' = None \<Longrightarrow> claims_ok tr (t' # ts) leases next" using add assms(1) by blast
  show "claim_of t' = None \<Longrightarrow> claims_ok tr (t' # remove1 t ts) leases next" using add rem by blast
qed

lemma claims_ok_supervise:
  assumes "claims_ok tr ts leases next"
  shows "claims_ok (tr(next := new_traffic now)) ts leases (Suc next)"
proof -
  have "next \<notin> set (claims ts)" "next \<notin> set leases" using assms by (auto simp: claims_ok_def)
  moreover have "idle_claims ts \<subseteq> set (claims ts)"
    by (force simp: idle_claims_def claims_def set_map_filter)
  ultimately show ?thesis
    using assms by (auto simp: claims_ok_def new_traffic_def less_SucI)
qed

lemma claims_ok_claim:
  assumes "claims_ok tr ts leases next" and "\<not> parking (tr sid)" and "sid < next"
    and "idle \<Longrightarrow> in_flight (tr sid) = 0"
  shows "claims_ok (tr(sid := (tr sid)\<lparr>parking := True\<rparr>)) (ParkTask n sid idle ph # ts) leases next"
  using assms by (cases idle) (auto simp: claims_ok_def claims_Cons)

lemma claims_ok_release:
  assumes ok: "claims_ok tr ts leases next" and t: "t \<in> set ts" "claim_of t = Some sid"
    and x: "parking x = False" "in_flight x = in_flight (tr sid)"
  shows "claims_ok (tr(sid := x)) (remove1 t ts) leases next"
proof -
  have "distinct (claims ts)" using ok by (simp add: claims_ok_def)
  note c = claims_after_remove1[OF this t]
  show ?thesis using ok c x idle_claims_remove1[of t ts] by (auto simp: claims_ok_def)
qed

lemma claims_ok_phase:
  assumes ok: "claims_ok tr ts leases next" and t: "ParkTask n sid idle ph \<in> set ts"
  shows "claims_ok tr (ParkTask n sid idle ph' # remove1 (ParkTask n sid idle ph) ts) leases next"
proof -
  let ?t = "ParkTask n sid idle ph"
  have d: "distinct (claims ts)" using ok by (simp add: claims_ok_def)
  have c: "distinct (claims (remove1 ?t ts))" "set (claims (remove1 ?t ts)) = set (claims ts) - {sid}"
    using claims_after_remove1[OF d t, of sid] by simp_all
  have mem: "sid \<in> set (claims ts)" using t by (force simp: claims_def set_map_filter)
  have idle: "idle_claims (ParkTask n sid idle ph' # remove1 ?t ts) \<subseteq> idle_claims ts"
  proof
    fix x assume "x \<in> idle_claims (ParkTask n sid idle ph' # remove1 ?t ts)"
    then consider "idle" "x = sid" | "x \<in> idle_claims (remove1 ?t ts)" by (cases idle) auto
    then show "x \<in> idle_claims ts"
    proof cases
      case 1
      then show ?thesis using t by (auto simp: idle_claims_def)
    next
      case 2
      then show ?thesis using idle_claims_remove1 by blast
    qed
  qed
  show ?thesis using ok c mem idle by (auto simp: claims_ok_def claims_Cons insert_absorb)
qed

subsection \<open>Every section keeps the counters in step\<close>

lemma running_sid_known:
  assumes "agent_reg ag" and "map_of (ag_vms ag) n = Some (Running info log sid)"
  shows "sid < ag_next_sid ag"
proof -
  have "(sid, n) \<in> set (ag_live ag)"
    using assms reg_okD(9)[of "ag_subnet ag" "ag_vms ag"] by (auto simp: agent_reg_def running_of_def)
  then show ?thesis using assms(1) reg_okD(10) by (auto simp: agent_reg_def)
qed

lemma agent_claims_settle:
  assumes "agent_claims ag" and "claim_of t = None"
    and "ag_traffic ag1 = ag_traffic ag" "ag_tasks ag1 = ag_tasks ag" "ag_leases ag1 = ag_leases ag"
      "ag_next_sid ag1 = ag_next_sid ag"
  shows "agent_claims (settle t ag1)"
  using assms claims_ok_tasks(1) by (simp add: agent_claims_def)

lemma agent_claims_advance:
  assumes "agent_claims ag" and "claim_of t = None" and "claim_of t' = None"
    and "ag_traffic ag1 = ag_traffic ag" "ag_tasks ag1 = ag_tasks ag" "ag_leases ag1 = ag_leases ag"
      "ag_next_sid ag1 = ag_next_sid ag"
  shows "agent_claims (advance t t' ag1)"
  using assms claims_ok_tasks(3) by (simp add: agent_claims_def)

lemma agent_claims_spawn:
  assumes "agent_claims ag" and "claim_of t = None"
    and "ag_traffic ag1 = ag_traffic ag" "ag_tasks ag1 = ag_tasks ag" "ag_leases ag1 = ag_leases ag"
      "ag_next_sid ag1 = ag_next_sid ag"
  shows "agent_claims (ag1\<lparr>ag_tasks := t # ag_tasks ag1\<rparr>)"
  using assms claims_ok_tasks(2)[OF _ assms(2) assms(2)] by (simp add: agent_claims_def)

lemma agent_claims_supervise:
  assumes "agent_claims ag" and "claim_of t = None"
    and "ag_traffic ag1 = ag_traffic ag" "ag_tasks ag1 = ag_tasks ag" "ag_leases ag1 = ag_leases ag"
      "ag_next_sid ag1 = ag_next_sid ag"
  shows "agent_claims (settle t (start_supervising now info log ag1))"
  using assms claims_ok_supervise claims_ok_tasks(1) by (simp add: agent_claims_def)

lemma agent_claims_run:
  assumes "agent_claims ag" and "run_vm req rootfs ag = (r, ag')"
  shows "agent_claims ag'"
proof (cases r)
  case (Inl e)
  with run_vm_failure[of req rootfs ag e ag'] assms show ?thesis by (auto simp: agent_claims_def)
next
  case (Inr t)
  from assms(2)[unfolded Inr] show ?thesis
  proof (rule run_vm_success)
    fix guest log a old ag1
    assume res: "reserve req log (ag\<lparr>ag_next_log := ag_next_log ag + 1\<rparr>) = Inr (a, old, ag1)"
      and t: "t = StartTask (rr_name req) \<lparr>vs_vm_address = a, vs_rootfs = rr_rootfs req, vs_mem_mib = rr_mem_mib req,
          vs_vcpus = rr_vcpus req, vs_guest = guest, vs_console_log = log\<rparr> (rr_route req) old Booting"
      and ag': "ag' = ag1\<lparr>ag_tasks := t # ag_tasks ag1\<rparr>"
    obtain vms where "ag1 = ag\<lparr>ag_next_log := ag_next_log ag + 1, ag_vms := vms\<rparr>"
      using res by (auto simp: reserve_def Let_def)
    then have "ag_traffic ag1 = ag_traffic ag" "ag_tasks ag1 = ag_tasks ag" "ag_leases ag1 = ag_leases ag"
      "ag_next_sid ag1 = ag_next_sid ag"
      by simp_all
    then show ?thesis
      unfolding ag' by (intro agent_claims_spawn[OF assms(1)]) (simp_all add: t)
  qed
qed

lemma agent_claims_start_sections:
  assumes "agent_claims ag"
  shows "agent_claims (start_failed t ag)" "agent_claims (start_booted p t ag)"
    "agent_claims (start_record now fault t ag)" "agent_claims (start_finish time t ag)"
  using assms
  by (auto intro!: agent_claims_settle[OF assms] agent_claims_advance[OF assms] agent_claims_supervise[OF assms] simp: start_failed_def start_booted_def start_record_def start_finish_def Let_def
      split: task.splits boot.splits option.splits sum.splits prod.splits)

lemma agent_claims_wake_sections:
  assumes "agent_claims ag"
  shows "agent_claims (wake_failed err t ag)" "agent_claims (wake_booted p t ag)"
    "agent_claims (wake_record now fault fault' t ag)"
  using assms
  by (auto intro!: agent_claims_settle[OF assms] agent_claims_advance[OF assms] agent_claims_supervise[OF assms] simp: wake_failed_def wake_booted_def wake_record_def Let_def
      split: task.splits boot.splits option.splits sum.splits prod.splits)

lemma agent_claims_wake_finish:
  assumes "agent_claims ag"
  shows "agent_claims (wake_finish time t ag)"
proof (cases "\<exists>name spec old info p. t = WakeTask name spec old (Recorded info p)")
  case True
  then obtain name spec old info p where t: "t = WakeTask name spec old (Recorded info p)" by blast
  have "agent_claims (settle t (start_supervising time info (ws_console_log spec) (ag\<lparr>ag_parked := removeAll name (ag_parked ag)\<rparr>)))"
    by (rule agent_claims_supervise[OF assms]) (simp_all add: t)
  then show ?thesis by (simp add: wake_finish_def t Let_def agent_claims_def)
next
  case False
  then have "wake_finish time t ag = ag" by (auto simp: wake_finish_def split: task.splits boot.splits)
  then show ?thesis using assms by simp
qed

lemma agent_claims_park_vm:
  assumes "agent_reg ag" and "agent_claims ag" and "park_vm name later ag = (r, ag')"
  shows "agent_claims ag'"
proof (cases "ag' = ag")
  case False
  with assms(3) obtain info log sid where e: "map_of (ag_vms ag) name = Some (Running info log sid)"
    and p: "\<not> parking (ag_traffic ag sid)"
    and ag': "ag' = ag\<lparr>ag_traffic := (ag_traffic ag)(sid := (ag_traffic ag sid)\<lparr>parking := True\<rparr>),
                       ag_tasks := ParkTask name sid False Claimed # ag_tasks ag\<rparr>"
    by (auto simp: park_vm_def claim_park_def Let_def take_claim_def
        split: sum.split_asm option.split_asm entry.split_asm if_splits)
  show ?thesis
    using claims_ok_claim[OF assms(2)[unfolded agent_claims_def] p running_sid_known[OF assms(1) e], of False]
    by (simp add: agent_claims_def ag')
qed (use assms in simp)

lemma agent_claims_claim_idle:
  assumes "agent_claims ag" and "sid < ag_next_sid ag" and "in_flight (ag_traffic ag sid) = 0"
  shows "agent_claims (claim_idle (n, sid) ag)"
  using assms claims_ok_claim[of "ag_traffic ag" "ag_tasks ag" "ag_leases ag" "ag_next_sid ag" sid True n Claimed]
  by (auto simp: claim_idle_def agent_claims_def take_claim_def)

lemma claim_idle_in_flight [simp]: "in_flight (ag_traffic (claim_idle c ag) sid) = in_flight (ag_traffic ag sid)"
  by (auto simp: claim_idle_def take_claim_def)

lemma agent_claims_park_idle:
  assumes "agent_reg ag" and "agent_claims ag"
  shows "agent_claims (park_idle_apps now ag)"
proof -
  have fold: "agent_claims (fold claim_idle cs ag)"
    if "agent_claims ag" "\<forall>c \<in> set cs. snd c < ag_next_sid ag \<and> in_flight (ag_traffic ag (snd c)) = 0" for cs ag
    using that
  proof (induction cs arbitrary: ag)
    case (Cons c cs)
    have "agent_claims (claim_idle c ag)"
      using agent_claims_claim_idle[of ag "snd c" "fst c"] Cons.prems by simp
    then show ?case using Cons by (simp add: claim_idle_frame)
  qed simp
  have "snd c < ag_next_sid ag \<and> in_flight (ag_traffic ag (snd c)) = 0"
    if "c \<in> set (List.map_filter (idle_candidate now ag) (ag_vms ag))" for c
  proof -
    have "\<exists>x \<in> set (ag_vms ag). idle_candidate now ag x = Some c"
      using that by (auto simp: set_map_filter)
    then obtain n e where mem: "(n, e) \<in> set (ag_vms ag)" and c: "idle_candidate now ag (n, e) = Some c" by auto
    then obtain info log where e: "e = Running info log (snd c)" and z: "in_flight (ag_traffic ag (snd c)) = 0"
      by (auto simp: idle_candidate_def idle_for_def split: entry.split_asm option.split_asm if_splits)
    have "map_of (ag_vms ag) n = Some e"
      using mem reg_okD(1)[OF assms(1)[unfolded agent_reg_def]] by (simp add: bm.entry_iff)
    with e z running_sid_known[OF assms(1)] show ?thesis by blast
  qed
  with fold[OF assms(2)] show ?thesis by (simp add: park_idle_apps_def)
qed

lemma agent_claims_park_send:
  assumes "agent_claims ag" and "t \<in> set (ag_tasks ag)"
  shows "agent_claims (park_send now t ag)"
proof (cases "\<exists>n sid idle. t = ParkTask n sid idle Claimed")
  case True
  then obtain n sid idle where t: "t = ParkTask n sid idle Claimed" by blast
  note ok = assms(1)[unfolded agent_claims_def]
  show ?thesis
    using claims_ok_release[OF ok assms(2)] claims_ok_phase[OF ok assms(2)[unfolded t]]
    by (auto simp: park_send_def t Let_def agent_claims_def release_claim_def split: sum.splits)
next
  case False
  then have "park_send now t ag = ag" by (auto simp: park_send_def split: task.splits park_phase.splits)
  then show ?thesis using assms by simp
qed

lemma agent_claims_park_finish:
  assumes "agent_claims ag" and "t \<in> set (ag_tasks ag)"
  shows "agent_claims (park_finish now answer t ag)"
proof (cases "\<exists>n sid idle s. t = ParkTask n sid idle (Sent s)")
  case True
  then obtain n sid idle s where t: "t = ParkTask n sid idle (Sent s)" by blast
  show ?thesis
    using claims_ok_release[OF assms(1)[unfolded agent_claims_def] assms(2)]
    by (auto simp: park_finish_def t Let_def agent_claims_def release_claim_def)
next
  case False
  then have "park_finish now answer t ag = ag" by (auto simp: park_finish_def split: task.splits park_phase.splits)
  then show ?thesis using assms by simp
qed

lemma agent_claims_lease_start:
  assumes "agent_reg ag" and "agent_claims ag" and "map_of (ag_vms ag) n = Some (Running info log sid)"
    and "\<not> parking (ag_traffic ag sid)"
  shows "agent_claims (lease_start sid ag)"
proof -
  have "sid \<notin> idle_claims (ag_tasks ag)"
  proof
    assume "sid \<in> idle_claims (ag_tasks ag)"
    then have "sid \<in> set (claims (ag_tasks ag))" by (force simp: idle_claims_def claims_def set_map_filter)
    then show False using assms(2,4) by (simp add: agent_claims_def claims_ok_def)
  qed
  then show ?thesis
    using assms(2) running_sid_known[OF assms(1,3)]
    by (auto simp: agent_claims_def claims_ok_def lease_start_def)
qed

lemma agent_claims_lease_end:
  assumes "agent_claims ag" and "sid \<in> set (ag_leases ag)"
  shows "agent_claims (lease_end now sid ag)"
proof -
  have "count_list (remove1 x xs) y = (if x = y then count_list xs y - 1 else count_list xs y)" for x y :: nat and xs
    by (induction xs) auto
  then show ?thesis
    using assms set_remove1_subset[of sid "ag_leases ag"]
    by (auto simp: agent_claims_def claims_ok_def lease_end_def)
qed

lemma agent_claims_frame:
  assumes "agent_claims ag" and "ag_traffic ag' = ag_traffic ag" "ag_tasks ag' = ag_tasks ag"
    "ag_leases ag' = ag_leases ag" "ag_next_sid ag' = ag_next_sid ag"
  shows "agent_claims ag'"
  using assms by (simp add: agent_claims_def)

lemma agent_claims_step:
  assumes "agent_step ag ag'" and "agent_reg ag" and "agent_claims ag"
  shows "agent_claims ag'"
  using assms
proof (induction rule: agent_step.induct)
  case (wake name ag r ag')
  then show ?case
    by (auto simp: wake_vm_def Let_def agent_claims_def
        intro!: claims_ok_tasks(2)[where t = "WakeTask name undefined undefined Booting"]
        split: if_splits option.split_asm entry.split_asm sum.split_asm)
next
  case (supervisor_ends ag now fault sid reason)
  show ?case
    by (rule agent_claims_frame[OF supervisor_ends(2)])
      (auto simp: supervisor_ends_def record_end_def Let_def split: option.splits entry.splits)
next
  case (run_on_machine ports ports' fault mreq ag mr ag')
  show ?case
    by (rule agent_claims_frame[OF run_on_machine(3)])
      (use run_on_machine(1) in \<open>auto simp: run_on_machine_def split: sum.split_asm prod.split_asm\<close>)
next
  case (remove ports f_app f_snap f_db name ag u ag')
  show ?case
    by (rule agent_claims_frame[OF remove(3)])
      (use remove(1) in \<open>auto simp: remove_vm_def Let_def split: sum.split_asm prod.split_asm bool.split_asm
        option.split_asm entry.split_asm if_splits\<close>)
next
  case machine_add
  then show ?case by (simp add: agent_claims_def)
next
  case machine_remove
  then show ?case by (simp add: agent_claims_def)
next
  case shutdown
  then show ?case by (simp add: agent_claims_def begin_shutdown_def)
qed (blast intro: agent_claims_run agent_claims_start_sections agent_claims_wake_sections agent_claims_wake_finish
    agent_claims_park_vm agent_claims_park_idle agent_claims_park_send agent_claims_park_finish
    agent_claims_lease_start agent_claims_lease_end)+

end
