(* ===== verification/Restart.thy ===== *)
theory Restart
  imports
    Recording
    Claims
begin

section \<open>Taking the Node back after the agent was down\<close>

text \<open>
  \<open>agent.rs\<close>: what \<open>run\<close> builds before the socket opens, and \<open>reconcile\<close>. What survives the agent is the
  state database, the console logs, the snapshots and the VMs' host objects; whether a recorded
  process still runs is up to the kernel (\<open>ro_alive\<close>). The lemmas show that an agent restarted over
  whatever an earlier one left takes back exactly the recorded VMs whose process runs, leaves every
  other as an Ended VM, and removes the host state of every address no VM holds and of no other.
\<close>

record reconcile_outside =
  ro_load :: "string option"
  ro_logs_dir :: "string option"
  ro_parked_dir :: "string option"
  ro_mark :: "string \<Rightarrow> string option"
  ro_alive :: "process_id \<Rightarrow> bool"
  ro_stuck :: "string \<Rightarrow> bool"
  ro_names :: "string list list"
  ro_now :: u64
  ro_time :: nat

datatype startup_error =
    StoreError store_error
  | ReadDirError string
  | NamesNoProcess string

text \<open>\<open>Path::file_name\<close>: the last component, unless it is \<open>..\<close>.\<close>

definition file_name :: "path \<Rightarrow> string option" where
  "file_name p =
     (case filter (\<lambda>c. c \<noteq> [] \<and> c \<noteq> ''.'') (split_on CHR ''/'' p) of
        [] \<Rightarrow> None
      | cs \<Rightarrow> if last cs = ''..'' then None else Some (last cs))"

definition agent_new :: "subnet \<Rightarrow> path \<Rightarrow> store \<Rightarrow> path list \<Rightarrow> string list \<Rightarrow> ipv4 list \<Rightarrow> agent" where
  "agent_new s state_dir st log_files snapshots hosts = \<lparr>
     ag_subnet = s, ag_logs_dir = path_join state_dir ''logs'', ag_parked_dir = path_join state_dir ''parked'',
     ag_vms = [], ag_store = st, ag_next_log = next_log_number (List.map_filter file_name log_files),
     ag_shutting_down = False, ag_wake_failures = [], ag_machines = no_machines,
     ag_traffic = (\<lambda>_. new_traffic 0), ag_next_sid = 0, ag_live = [], ag_tasks = [], ag_leases = [],
     ag_hosts = hosts, ag_logs = log_files, ag_parked = snapshots, ag_settled = 0\<rparr>"

definition remove_unrecorded_logs :: "vm_record list \<Rightarrow> agent \<Rightarrow> agent" where
  "remove_unrecorded_logs records ag =
     (let recorded = List.map_filter (\<lambda>r. file_name (rec_log r)) records
      in ag\<lparr>ag_logs := filter (\<lambda>p. case file_name p of None \<Rightarrow> False | Some f \<Rightarrow> f \<in> set recorded) (ag_logs ag)\<rparr>)"

definition remove_unowned_snapshots :: "(string \<Rightarrow> bool) \<Rightarrow> vm_record list \<Rightarrow> agent \<Rightarrow> agent" where
  "remove_unowned_snapshots stuck records ag =
     (let parked = map (\<lambda>r. vi_name (rec_info r)) (filter (\<lambda>r. is_parked (rec_info r)) records)
      in ag\<lparr>ag_parked := filter (\<lambda>n. n \<in> set parked \<or> stuck n) (ag_parked ag)\<rparr>)"

text \<open>
  One record. A VM recorded as running without an address or a process can't be told apart from a
  live one, so the agent refuses to start.
\<close>

definition reconcile_record :: "reconcile_outside \<Rightarrow> vm_record \<Rightarrow> agent \<Rightarrow> startup_error + agent" where
  "reconcile_record out r ag =
     (let info = rec_info r; name = vi_name info
      in if vi_ended info \<noteq> None
         then Inr (ag\<lparr>ag_vms := bm_insert name (Ended info (rec_log r)) (ag_vms ag)\<rparr>)
         else case (vi_vm_address info, rec_process r) of
             (Some vm_address, Some process) \<Rightarrow>
               if ro_alive out process then Inr (start_supervising (ro_time out) info (rec_log r) ag)
               else let e = \<lparr>ended_at = ro_now out, ended_reason = AgentDown\<rparr>
                    in (case mark_ended (ro_mark out name) name e (ag_store ag) of
                          (Inl err, _) \<Rightarrow> Inl (StoreError err)
                        | (Inr _, st) \<Rightarrow>
                            Inr (ag\<lparr>ag_store := st,
                                    ag_vms := bm_insert name (Ended (ended_info info e) (rec_log r)) (ag_vms ag)\<rparr>))
           | _ \<Rightarrow> Inl (NamesNoProcess name))"

fun reconcile_records :: "reconcile_outside \<Rightarrow> vm_record list \<Rightarrow> agent \<Rightarrow> startup_error + agent" where
  "reconcile_records out [] ag = Inr ag"
| "reconcile_records out (r # rs) ag = bindr (reconcile_record out r ag) (reconcile_records out rs)"

text \<open>
  \<open>vm::host_state_owners\<close> reads names from four directories: namespaces, network devices, jails and
  cgroups. The sweep turns what they own back into addresses of the Node subnet.
\<close>

definition host_state_owners :: "string list list \<Rightarrow> u16 list" where
  "host_state_owners names = sort (remdups (List.map_filter parse_host_id (concat names)))"

definition swept :: "subnet \<Rightarrow> (string, entry) bmap \<Rightarrow> string list list \<Rightarrow> ipv4 list" where
  "swept s vms names =
     (let held = held_addresses vms
      in filter (\<lambda>a. a \<notin> set held) (List.map_filter (vm_address_with_low16 s) (host_state_owners names)))"

definition sweep_host_state :: "string list list \<Rightarrow> agent \<Rightarrow> agent" where
  "sweep_host_state names ag =
     ag\<lparr>ag_hosts := filter (\<lambda>a. a \<notin> set (swept (ag_subnet ag) (ag_vms ag) names)) (ag_hosts ag)\<rparr>"

definition reconcile :: "reconcile_outside \<Rightarrow> agent \<Rightarrow> startup_error + agent" where
  "reconcile out ag =
     bindr (map_err StoreError (load (ro_load out) (ag_store ag))) (\<lambda>records.
     bindr (case ro_logs_dir out of Some e \<Rightarrow> Inl (ReadDirError e) | None \<Rightarrow> Inr (remove_unrecorded_logs records ag)) (\<lambda>ag.
     bindr (case ro_parked_dir out of
              Some e \<Rightarrow> Inl (ReadDirError e)
            | None \<Rightarrow> Inr (remove_unowned_snapshots (ro_stuck out) records ag)) (\<lambda>ag.
     bindr (reconcile_records out records ag) (\<lambda>ag.
     Inr (sweep_host_state (ro_names out) ag)))))"


subsection \<open>What a restart makes of a record\<close>

definition live_record :: "reconcile_outside \<Rightarrow> vm_record \<Rightarrow> bool" where
  "live_record out r \<longleftrightarrow>
     vi_ended (rec_info r) = None \<and> (case rec_process r of None \<Rightarrow> False | Some p \<Rightarrow> ro_alive out p)"

definition agent_down :: "reconcile_outside \<Rightarrow> ended" where
  "agent_down out = \<lparr>ended_at = ro_now out, ended_reason = AgentDown\<rparr>"

definition restored_as :: "reconcile_outside \<Rightarrow> vm_record \<Rightarrow> entry \<Rightarrow> bool" where
  "restored_as out r e \<longleftrightarrow>
     (if live_record out r then \<exists>sid. e = Running (rec_info r) (rec_log r) sid
      else if vi_ended (rec_info r) \<noteq> None then e = Ended (rec_info r) (rec_log r)
      else e = Ended (ended_info (rec_info r) (agent_down out)) (rec_log r))"

definition record_after :: "reconcile_outside \<Rightarrow> vm_record \<Rightarrow> vm_record" where
  "record_after out r =
     (if live_record out r \<or> vi_ended (rec_info r) \<noteq> None then r else ended_record (agent_down out) r)"

definition live_address :: "reconcile_outside \<Rightarrow> vm_record \<Rightarrow> ipv4 option" where
  "live_address out r = (if live_record out r then vi_vm_address (rec_info r) else None)"

definition rec_name :: "vm_record \<Rightarrow> string" where
  "rec_name r = vi_name (rec_info r)"

text \<open>The registry part-way through, when no request is served yet.\<close>

definition restoring :: "agent \<Rightarrow> bool" where
  "restoring ag \<longleftrightarrow> agent_reg ag \<and> agent_claims ag \<and> ag_tasks ag = [] \<and> store_wf (ag_store ag)"

lemma reg_ok_restore_ended:
  assumes ok: "reg_ok s vms ts live next" and n: "map_of vms n = None" and e: "entry_ok n (Ended info log)"
  shows "reg_ok s (bm_insert n (Ended info log) vms) ts live next"
proof -
  let ?vms = "bm_insert n (Ended info log) vms"
  have "exclusive entry_vm_address (map_of ?vms)"
    using reg_okD(2)[OF ok] by (simp add: exclusive_upd_none)
  moreover have "starting_of ?vms = starting_of vms" "running_of ?vms = running_of vms"
    using n by (force simp: starting_of_def running_of_def split: if_splits)+
  moreover have "entry_ok k y \<and> set_option (entry_vm_address y) \<subseteq> set (vm_addresses s)" if "map_of ?vms k = Some y" for k y
    using that reg_okD(3,4)[OF ok] e by (auto split: if_splits)
  ultimately show ?thesis using ok unfolding reg_ok_def by (auto simp: bm_wf_insert)
qed

lemma reg_ok_restore_running:
  assumes ok: "reg_ok s vms ts live next" and n: "map_of vms n = None"
    and info: "vi_name info = n" "vi_ended info = None" "vi_vm_address info = Some a"
    and a: "a \<in> set (vm_addresses s)" "free_of entry_vm_address a (map_of vms)"
  shows "reg_ok s (bm_insert n (Running info log next) vms) ts ((next, n) # live) (Suc next)"
proof -
  let ?vms = "bm_insert n (Running info log next) vms"
  have ex: "exclusive entry_vm_address (map_of ?vms)"
    using reg_okD(2)[OF ok] a(2) info(3) by (intro bm.exclusive_ins_free) auto
  have start: "starting_of ?vms = starting_of vms"
    using n by (force simp: starting_of_def split: if_splits)
  have run: "running_of ?vms = insert (next, n) (running_of vms)"
    using n by (force simp: running_of_def split: if_splits)
  have each: "entry_ok k y \<and> set_option (entry_vm_address y) \<subseteq> set (vm_addresses s)" if "map_of ?vms k = Some y" for k y
    using that reg_okD(3,4)[OF ok] info a(1) by (auto split: if_splits)
  have fresh: "next \<notin> fst ` set live" using reg_okD(10)[OF ok] by fastforce
  show ?thesis
    using ok ex fresh each unfolding reg_ok_def start run by (auto simp: bm_wf_insert less_SucI)
qed

definition restore_one :: "reconcile_outside \<Rightarrow> vm_record \<Rightarrow> agent \<Rightarrow> agent \<Rightarrow> bool" where
  "restore_one out r ag ag' \<longleftrightarrow>
     restoring ag' \<and> ag_subnet ag' = ag_subnet ag \<and> ag_parked ag' = ag_parked ag \<and> ag_hosts ag' = ag_hosts ag \<and>
     ag_logs ag' = ag_logs ag \<and> ag_machines ag' = ag_machines ag \<and>
     (\<exists>e. restored_as out r e \<and> map_of (ag_vms ag') = (map_of (ag_vms ag))(rec_name r \<mapsto> e)) \<and>
     store_view (ag_store ag') = (store_view (ag_store ag))(rec_name r \<mapsto> record_after out r)"

lemma reconcile_record_restores:
  assumes ag: "restoring ag" and n: "map_of (ag_vms ag) (rec_name r) = None"
    and r: "store_view (ag_store ag) (rec_name r) = Some r" "record_sound (ag_subnet ag) r"
    and free: "\<And>a. live_address out r = Some a \<Longrightarrow> free_of entry_vm_address a (map_of (ag_vms ag))"
    and fault: "ro_mark out (rec_name r) = None"
  shows "\<exists>ag'. reconcile_record out r ag = Inr ag' \<and> restore_one out r ag ag'"
proof (cases "vi_ended (rec_info r)")
  case (Some x)
  then have "entry_ok (rec_name r) (Ended (rec_info r) (rec_log r))"
    using r(2) by (simp add: record_sound_def rec_name_def)
  with ag n Some r(1) show ?thesis
    using reg_ok_restore_ended[of "ag_subnet ag" "ag_vms ag" "[]" "ag_live ag" "ag_next_sid ag" "rec_name r"]
    by (auto simp: reconcile_record_def restore_one_def restoring_def agent_reg_def agent_claims_def restored_as_def
        live_record_def record_after_def rec_name_def Let_def)
next
  case None
  then obtain p a where p: "rec_process r = Some p" and a: "a \<in> set (vm_addresses (ag_subnet ag))"
    "vi_vm_address (rec_info r) = Some a"
    using r(2) by (auto simp: record_sound_def running_record_def dest: arg_cong[where f = rec_process])
  show ?thesis
  proof (cases "ro_alive out p")
    case True
    then have f: "free_of entry_vm_address a (map_of (ag_vms ag))"
      using free[of a] None p a(2) by (simp add: live_address_def live_record_def)
    show ?thesis
      using True ag n r(1) None p a(2) reg_ok_restore_running[OF _ n _ None a(2,1) f, of "[]" "ag_live ag" "ag_next_sid ag" "rec_log r"]
        claims_ok_supervise[of "ag_traffic ag" "[]" "ag_leases ag" "ag_next_sid ag" "ro_time out"]
      by (auto simp: reconcile_record_def restore_one_def restoring_def agent_reg_def agent_claims_def restored_as_def
          live_record_def record_after_def rec_name_def Let_def start_supervising_def)
  next
    case False
    have e: "entry_ok (rec_name r) (Ended (ended_info (rec_info r) (agent_down out)) (rec_log r))"
      by (simp add: ended_info_def rec_name_def)
    obtain st where m: "mark_ended None (rec_name r) (agent_down out) (ag_store ag) = (Inr (), st)"
      by (simp add: mark_ended_def db_exec_def)
    have st: "store_wf st" "store_view st = (store_view (ag_store ag))(rec_name r \<mapsto> ended_record (agent_down out) r)"
      using store_wf_vm_statements(2)[of "ag_store ag" None "rec_name r" "agent_down out"] ag r(1)
        vm_db.finish_ok[OF _ m] m
      by (simp_all add: restoring_def)
    show ?thesis
      using False ag n r(1) None p a(2) e m st fault
        reg_ok_restore_ended[OF _ n e, of "ag_subnet ag" "[]" "ag_live ag" "ag_next_sid ag"]
      by (auto simp: reconcile_record_def restore_one_def restoring_def agent_reg_def agent_claims_def restored_as_def
          live_record_def record_after_def rec_name_def Let_def agent_down_def)
  qed
qed


lemma restored_as_address: "restored_as out r e \<Longrightarrow> entry_vm_address e = live_address out r"
  by (auto simp: restored_as_def live_address_def split: if_splits)

text \<open>What is asked of the records: each is one the database holds, and no two live VMs share an address.\<close>

definition restorable :: "reconcile_outside \<Rightarrow> vm_record list \<Rightarrow> agent \<Rightarrow> bool" where
  "restorable out rs ag \<longleftrightarrow>
     distinct (map rec_name rs) \<and> distinct (List.map_filter (live_address out) rs) \<and>
     (\<forall>r \<in> set rs. map_of (ag_vms ag) (rec_name r) = None \<and> store_view (ag_store ag) (rec_name r) = Some r \<and>
        record_sound (ag_subnet ag) r \<and>
        (\<forall>a. live_address out r = Some a \<longrightarrow> free_of entry_vm_address a (map_of (ag_vms ag))))"

lemma restorable_next:
  assumes "restorable out (r # rs) ag" and "restore_one out r ag ag'"
  shows "restorable out rs ag'"
proof -
  obtain e where e: "restored_as out r e" "map_of (ag_vms ag') = (map_of (ag_vms ag))(rec_name r \<mapsto> e)"
    using assms(2) by (auto simp: restore_one_def)
  have other: "rec_name r' \<noteq> rec_name r" if "r' \<in> set rs" for r'
    using assms(1) that by (force simp: restorable_def)
  have addr: "live_address out r' \<noteq> Some a \<or> live_address out r \<noteq> Some a" if "r' \<in> set rs" for r' a
    using assms(1) that by (auto simp: restorable_def List.map_filter_simps set_map_filter split: option.splits)
  have "free_of entry_vm_address a (map_of (ag_vms ag'))" if "r' \<in> set rs" "live_address out r' = Some a" for r' a
  proof -
    have "free_of entry_vm_address a (map_of (ag_vms ag))" using assms(1) that by (simp add: restorable_def)
    moreover have "entry_vm_address e \<noteq> Some a" using restored_as_address[OF e(1)] addr[OF that(1), of a] that(2) by simp
    ultimately show ?thesis unfolding e(2) by (simp add: free_of_def)
  qed
  moreover have "distinct (List.map_filter (live_address out) rs)"
    using assms(1) by (auto simp: restorable_def List.map_filter_simps split: option.splits)
  ultimately show ?thesis
    using assms other e by (auto simp: restorable_def restore_one_def)
qed

definition restored_all :: "reconcile_outside \<Rightarrow> vm_record list \<Rightarrow> agent \<Rightarrow> agent \<Rightarrow> bool" where
  "restored_all out rs ag ag' \<longleftrightarrow>
     restoring ag' \<and> ag_subnet ag' = ag_subnet ag \<and> ag_parked ag' = ag_parked ag \<and> ag_hosts ag' = ag_hosts ag \<and>
     ag_logs ag' = ag_logs ag \<and> ag_machines ag' = ag_machines ag \<and>
     (\<forall>n. n \<notin> rec_name ` set rs \<longrightarrow>
        map_of (ag_vms ag') n = map_of (ag_vms ag) n \<and> store_view (ag_store ag') n = store_view (ag_store ag) n) \<and>
     (\<forall>r \<in> set rs. (\<exists>e. map_of (ag_vms ag') (rec_name r) = Some e \<and> restored_as out r e) \<and>
        store_view (ag_store ag') (rec_name r) = Some (record_after out r))"

lemma reconcile_records_restores:
  assumes "restoring ag" and "restorable out rs ag" and "\<And>n. ro_mark out n = None"
  shows "\<exists>ag'. reconcile_records out rs ag = Inr ag' \<and> restored_all out rs ag ag'"
  using assms
proof (induction rs arbitrary: ag)
  case Nil
  then show ?case by (simp add: restored_all_def)
next
  case (Cons r rs)
  obtain ag1 where one: "reconcile_record out r ag = Inr ag1" "restore_one out r ag ag1"
    using reconcile_record_restores[of ag r out] Cons.prems by (auto simp: restorable_def)
  have "restoring ag1" using one(2) by (simp add: restore_one_def)
  then obtain ag' where rest: "reconcile_records out rs ag1 = Inr ag'" "restored_all out rs ag1 ag'"
    using Cons.IH restorable_next[OF Cons.prems(2) one(2)] Cons.prems(3) by blast
  have "rec_name r \<notin> rec_name ` set rs" using Cons.prems(2) by (simp add: restorable_def)
  then have "restored_all out (r # rs) ag ag'"
    using one(2) rest(2) by (auto simp: restored_all_def restore_one_def)
  then show ?case using one(1) rest(1) by simp
qed

subsection \<open>The sweep\<close>

text \<open>
  The names the directories hold when the host state of \<open>hosts\<close> is there, in any of its forms, among
  other objects that don't go by a VM's name.
\<close>

definition names_cover :: "string list list \<Rightarrow> ipv4 list \<Rightarrow> bool" where
  "names_cover names hosts \<longleftrightarrow> (\<forall>a \<in> set hosts. host_id a \<in> set (concat names))"

lemma swept_free: "a \<in> set (swept s vms names) \<Longrightarrow> a \<in> set (vm_addresses s) \<and> a \<notin> set (held_addresses vms)"
  by (auto simp: swept_def Let_def set_map_filter dest: vm_address_with_low16_SomeD)

lemma swept_owner:
  assumes "subnet_ok s" and "a \<in> set (vm_addresses s)" and "host_id a \<in> set (concat names)"
    and "a \<notin> set (held_addresses vms)"
  shows "a \<in> set (swept s vms names)"
proof -
  have "low16 a \<in> set (host_state_owners names)"
    using assms(3) by (force simp: host_state_owners_def set_map_filter)
  then show ?thesis
    using vm_address_with_low16_inverse[OF assms(1,2)] assms(4)
    by (auto simp: swept_def Let_def set_map_filter)
qed

lemma sweep_exact:
  assumes "subnet_ok (ag_subnet ag)" and "set (ag_hosts ag) \<subseteq> set (vm_addresses (ag_subnet ag))"
    and "names_cover names (ag_hosts ag)"
  shows "set (ag_hosts (sweep_host_state names ag)) = set (ag_hosts ag) \<inter> set (held_addresses (ag_vms ag))"
proof -
  have "a \<in> set (swept (ag_subnet ag) (ag_vms ag) names) \<longleftrightarrow> a \<notin> set (held_addresses (ag_vms ag))"
    if "a \<in> set (ag_hosts ag)" for a
    using that assms(2,3) swept_owner[OF assms(1)] swept_free[of a] unfolding names_cover_def by blast
  then show ?thesis by (auto simp: sweep_host_state_def)
qed

subsection \<open>A restart after any run of the agent\<close>

text \<open>
  The VM of an earlier agent's record, when its process is still there: the VM runs, or was started
  and recorded but not yet handed to a supervisor when that agent died.
\<close>

definition on_record :: "agent \<Rightarrow> string \<Rightarrow> bool" where
  "on_record ag n \<longleftrightarrow>
     (\<exists>info log sid. map_of (ag_vms ag) n = Some (Running info log sid)) \<or>
     (\<exists>spec rt old info p. StartTask n spec rt old (Recorded info p) \<in> set (ag_tasks ag)) \<or>
     (\<exists>spec old info p. WakeTask n spec old (Recorded info p) \<in> set (ag_tasks ag))"

definition processes_current :: "reconcile_outside \<Rightarrow> agent \<Rightarrow> bool" where
  "processes_current out ag \<longleftrightarrow>
     (\<forall>n r. store_view (ag_store ag) n = Some r \<longrightarrow> live_record out r \<longrightarrow> on_record ag n)"

definition no_faults :: "reconcile_outside \<Rightarrow> bool" where
  "no_faults out \<longleftrightarrow> ro_load out = None \<and> ro_logs_dir out = None \<and> ro_parked_dir out = None \<and> ro_mark out = (\<lambda>_. None)"

lemma on_record_address:
  assumes reg: "agent_reg ag" and rec: "agent_rec ag" and n: "on_record ag n"
    and r: "store_view (ag_store ag) n = Some r"
  shows "\<exists>e. map_of (ag_vms ag) n = Some e \<and> entry_vm_address e = vi_vm_address (rec_info r)"
proof -
  note ok = reg[unfolded agent_reg_def]
  have tasks: "task_recorded (store_view (ag_store ag)) t" if "t \<in> set (ag_tasks ag)" for t
    using rec that by (simp add: agent_rec_def recording_def)
  consider (running) info log sid where "map_of (ag_vms ag) n = Some (Running info log sid)"
    | (start) spec rt old info p where "StartTask n spec rt old (Recorded info p) \<in> set (ag_tasks ag)"
    | (wake) spec old info p where "WakeTask n spec old (Recorded info p) \<in> set (ag_tasks ag)"
    using n by (auto simp: on_record_def)
  then show ?thesis
  proof cases
    case running
    then have "entry_recorded (ag_subnet ag) (Some (Running info log sid)) (Some r)"
      using rec r by (auto simp: agent_rec_def recording_def dest: spec[of _ n])
    then show ?thesis using running by (auto simp: entry_recorded_def running_record_def)
  next
    case start
    show ?thesis
      using slot_owner(1)[OF ok start] reg_okD(7)[OF ok start] tasks[OF start] r
      by (auto simp: recorded_ok_def running_record_def)
  next
    case wake
    show ?thesis
      using slot_owner(1)[OF ok wake] reg_okD(7)[OF ok wake] tasks[OF wake] r
      by (auto simp: recorded_ok_def running_record_def)
  qed
qed

lemma store_view_name: "store_view st n = Some r \<Longrightarrow> rec_name r = n"
  by (auto simp: store_view_def row_record_def rec_name_def bind_eq_Some_conv)

definition records_of :: "store \<Rightarrow> vm_record list" where
  "records_of st = map (\<lambda>(n, _). the (store_view st n)) (vms_table st)"

lemma in_records_of:
  assumes "store_wf st"
  shows "r \<in> set (records_of st) \<longleftrightarrow> store_view st (rec_name r) = Some r"
proof
  assume "r \<in> set (records_of st)"
  then obtain n where n: "n \<in> fst ` set (vms_table st)" "r = the (store_view st n)"
    by (force simp: records_of_def)
  then have "n \<in> dom (store_view st)" using store_view_dom[OF assms] by simp
  then have "store_view st n = Some r" using n(2) by auto
  then show "store_view st (rec_name r) = Some r" using store_view_name by metis
next
  assume r: "store_view st (rec_name r) = Some r"
  then have "rec_name r \<in> fst ` set (vms_table st)" using store_view_dom[OF assms] by auto
  then show "r \<in> set (records_of st)" using r by (force simp: records_of_def)
qed

lemma rec_names_of:
  assumes "store_wf st"
  shows "map rec_name (records_of st) = map fst (vms_table st)"
proof -
  have "rec_name (the (store_view st n)) = n" if "n \<in> fst ` set (vms_table st)" for n
  proof -
    have "n \<in> dom (store_view st)" using that store_view_dom[OF assms] by simp
    then obtain r where "store_view st n = Some r" by auto
    then show ?thesis using store_view_name by simp
  qed
  then show ?thesis by (force simp: records_of_def)
qed

lemma restorable_records:
  assumes reg: "agent_reg ag" and rec: "agent_rec ag" and cur: "processes_current out ag"
    and ag0: "ag_vms ag0 = []" "ag_store ag0 = ag_store ag" "ag_subnet ag0 = ag_subnet ag"
  shows "restorable out (records_of (ag_store ag)) ag0"
proof -
  let ?rs = "records_of (ag_store ag)"
  have wf: "store_wf (ag_store ag)" using rec by (simp add: agent_rec_def)
  have names: "distinct (map rec_name ?rs)"
    using rec_names_of[OF wf] wf bm.distinct_keys[of "vms_table (ag_store ag)"] by (simp add: store_wf_def)
  have at: "\<exists>e. map_of (ag_vms ag) (rec_name r) = Some e \<and> entry_vm_address e = Some a"
    if "r \<in> set ?rs" "live_address out r = Some a" for r a
    using that on_record_address[OF reg rec, of "rec_name r" r] cur
    by (auto simp: in_records_of[OF wf] processes_current_def live_address_def split: if_splits)
  have "distinct (List.map_filter (live_address out) rs)"
    if "set rs \<subseteq> set ?rs" "distinct (map rec_name rs)" for rs
    using that
  proof (induction rs)
    case (Cons r rs)
    have "live_address out r' \<noteq> Some a" if a: "live_address out r = Some a" and r': "r' \<in> set rs" for a r'
    proof
      assume a': "live_address out r' = Some a"
      obtain e where "map_of (ag_vms ag) (rec_name r) = Some e" "entry_vm_address e = Some a"
        using at[of r a] a Cons.prems(1) by auto
      moreover obtain e' where "map_of (ag_vms ag) (rec_name r') = Some e'" "entry_vm_address e' = Some a"
        using at[of r' a] a' r' Cons.prems(1) by auto
      ultimately have "rec_name r' = rec_name r"
        using reg_okD(2)[OF reg[unfolded agent_reg_def]] exclusiveD by metis
      then show False using Cons.prems(2) imageI[OF r', of rec_name] by simp
    qed
    then show ?case
      using Cons by (auto simp: List.map_filter_simps set_map_filter split: option.splits)
  qed (simp add: List.map_filter_simps)
  then have "distinct (List.map_filter (live_address out) ?rs)" using names by blast
  moreover have "record_sound (ag_subnet ag) r" if "r \<in> set ?rs" for r
  proof -
    have "store_view (ag_store ag) (rec_name r) = Some r" using that in_records_of[OF wf] by simp
    moreover have "entry_recorded (ag_subnet ag) (map_of (ag_vms ag) (rec_name r)) (store_view (ag_store ag) (rec_name r))"
      using rec by (simp add: agent_rec_def recording_def)
    ultimately show ?thesis by (simp add: entry_recorded_def)
  qed
  ultimately show ?thesis
    using names ag0 in_records_of[OF wf] by (simp add: restorable_def free_of_def)
qed

text \<open>After every record is restored, the registry and the database agree again.\<close>

lemma restored_agent_rec:
  assumes wf: "store_wf (ag_store ag0)" and all: "restored_all out (records_of (ag_store ag0)) ag0 ag'"
    and sound: "\<And>r. r \<in> set (records_of (ag_store ag0)) \<Longrightarrow> record_sound (ag_subnet ag0) r"
    and none: "ag_vms ag0 = []"
  shows "agent_rec ag'"
proof -
  let ?rs = "records_of (ag_store ag0)"
  have "entry_recorded (ag_subnet ag') (map_of (ag_vms ag') n) (store_view (ag_store ag') n)" for n
  proof (cases "n \<in> rec_name ` set ?rs")
    case True
    then obtain r where r: "r \<in> set ?rs" "n = rec_name r" by auto
    then obtain e where e: "map_of (ag_vms ag') n = Some e" "restored_as out r e"
      and v: "store_view (ag_store ag') n = Some (record_after out r)"
      using all by (auto simp: restored_all_def)
    have after: "record_sound (ag_subnet ag') (record_after out r)"
      using sound[OF r(1)] all by (simp add: record_after_def restored_all_def)
    have "\<exists>p. record_after out r = running_record info log p" if "e = Running info log sid" for info log sid
      using that e(2) sound[OF r(1)]
      by (auto simp: restored_as_def record_after_def record_sound_def live_record_def split: if_splits)
    then show ?thesis using e v after by (auto simp: entry_recorded_def)
  next
    case False
    then have "store_view (ag_store ag0) n = None"
      using in_records_of[OF wf] store_view_name by (metis imageI not_None_eq)
    then show ?thesis using all False none by (simp add: restored_all_def entry_recorded_def)
  qed
  then show ?thesis
    using all by (simp add: agent_rec_def recording_def restored_all_def restoring_def)
qed

lemma agent_new_restoring:
  "store_wf st \<Longrightarrow> restoring (agent_new s dir st files snaps hosts)"
  by (simp add: restoring_def agent_reg_def agent_claims_def agent_new_def reg_ok_def claims_ok_def claims_def
      idle_claims_def slots_def starting_of_def running_of_def new_traffic_def exclusive_def List.map_filter_simps)

lemma cleaning_restoring:
  assumes "restoring ag"
  shows "restoring (remove_unowned_snapshots stuck rs (remove_unrecorded_logs rs ag))"
  using assms
  by (auto simp: restoring_def agent_reg_def agent_claims_def remove_unowned_snapshots_def remove_unrecorded_logs_def Let_def)

lemma cleaning_frame [simp]:
  "ag_vms (remove_unowned_snapshots stuck rs (remove_unrecorded_logs rs ag)) = ag_vms ag"
  "ag_store (remove_unowned_snapshots stuck rs (remove_unrecorded_logs rs ag)) = ag_store ag"
  "ag_subnet (remove_unowned_snapshots stuck rs (remove_unrecorded_logs rs ag)) = ag_subnet ag"
  "ag_hosts (remove_unowned_snapshots stuck rs (remove_unrecorded_logs rs ag)) = ag_hosts ag"
  by (simp_all add: remove_unowned_snapshots_def remove_unrecorded_logs_def Let_def)

lemma sweep_frame [simp]:
  "ag_vms (sweep_host_state names ag) = ag_vms ag" "ag_store (sweep_host_state names ag) = ag_store ag"
  "ag_subnet (sweep_host_state names ag) = ag_subnet ag" "ag_logs (sweep_host_state names ag) = ag_logs ag"
  "ag_parked (sweep_host_state names ag) = ag_parked ag" "ag_tasks (sweep_host_state names ag) = ag_tasks ag"
  "agent_reg (sweep_host_state names ag) = agent_reg ag" "agent_rec (sweep_host_state names ag) = agent_rec ag"
  "agent_claims (sweep_host_state names ag) = agent_claims ag"
  by (simp_all add: sweep_host_state_def agent_reg_def agent_rec_def agent_claims_def)

text \<open>
  \<open>restart\<close> is what an agent started over the state \<open>ag\<close> left does: its database, console logs, snapshots
  and host objects are all that is left of it.
\<close>

definition restart :: "reconcile_outside \<Rightarrow> path \<Rightarrow> agent \<Rightarrow> startup_error + agent" where
  "restart out state_dir ag =
     reconcile out (agent_new (ag_subnet ag) state_dir (ag_store ag) (ag_logs ag) (ag_parked ag) (ag_hosts ag))"

lemma restart_outcome:
  assumes reg: "agent_reg ag" and rec: "agent_rec ag" and cur: "processes_current out ag" and f: "no_faults out"
  obtains ag1 ag0 where "restart out dir ag = Inr (sweep_host_state (ro_names out) ag1)"
    and "restored_all out (records_of (ag_store ag)) ag0 ag1" and "agent_rec ag1"
    and "ag0 = remove_unowned_snapshots (ro_stuck out) (records_of (ag_store ag))
           (remove_unrecorded_logs (records_of (ag_store ag))
             (agent_new (ag_subnet ag) dir (ag_store ag) (ag_logs ag) (ag_parked ag) (ag_hosts ag)))"
proof -
  let ?rs = "records_of (ag_store ag)"
  let ?new = "agent_new (ag_subnet ag) dir (ag_store ag) (ag_logs ag) (ag_parked ag) (ag_hosts ag)"
  define ag0 where "ag0 = remove_unowned_snapshots (ro_stuck out) ?rs (remove_unrecorded_logs ?rs ?new)"
  have wf: "store_wf (ag_store ag)" using rec by (simp add: agent_rec_def)
  have ag0: "ag_vms ag0 = []" "ag_store ag0 = ag_store ag" "ag_subnet ag0 = ag_subnet ag"
    by (simp_all add: ag0_def agent_new_def)
  have able: "restorable out ?rs ag0" by (rule restorable_records[OF reg rec cur ag0])
  have "restoring ag0" unfolding ag0_def by (intro cleaning_restoring agent_new_restoring wf)
  then obtain ag1 where ag1: "reconcile_records out ?rs ag0 = Inr ag1" "restored_all out ?rs ag0 ag1"
    using reconcile_records_restores[OF _ able] f by (auto simp: no_faults_def)
  have "agent_rec ag1"
    using restored_agent_rec[of ag0 out ag1] ag0 wf ag1(2) able by (simp add: restorable_def)
  moreover have "restart out dir ag = Inr (sweep_host_state (ro_names out) ag1)"
    using f ag1(1) load_view[OF wf]
    by (simp add: restart_def reconcile_def no_faults_def records_of_def ag0_def agent_new_def map_err_def)
  ultimately show ?thesis using that ag1(2) ag0_def by blast
qed

text \<open>A recorded VM's console log survives the restart, and so does a parked VM's snapshot; nothing else does.\<close>

lemma remove_unrecorded_logs_keeps:
  "p \<in> set (ag_logs (remove_unrecorded_logs rs ag)) \<longleftrightarrow>
   p \<in> set (ag_logs ag) \<and> (\<exists>f. file_name p = Some f \<and> (\<exists>r \<in> set rs. file_name (rec_log r) = Some f))"
  by (auto simp: remove_unrecorded_logs_def Let_def set_map_filter split: option.splits)

lemma remove_unowned_snapshots_keeps:
  "n \<in> set (ag_parked (remove_unowned_snapshots (\<lambda>_. False) rs ag)) \<longleftrightarrow>
   n \<in> set (ag_parked ag) \<and> (\<exists>r \<in> set rs. rec_name r = n \<and> is_parked (rec_info r))"
  by (auto simp: remove_unowned_snapshots_def Let_def rec_name_def)

end
