(* ===== verification/Effects.thy ===== *)
theory Effects
  imports
    Prelude
begin

section \<open>Code that can fail part-way through its effects\<close>

text \<open>
  A fallible operation of the sources with side effects is a function of the state that returns its
  \<open>Result\<close> and the state it leaves, also when it fails. \<open>bindv\<close> is the \<open>?\<close> operator there, and
  \<open>triple P m Q E\<close> says what such code establishes: from \<open>P\<close>, either \<open>Q\<close> of its result, or \<open>E\<close>
  when it returned early.
\<close>

type_synonym ('s, 'e, 'a) act = "'s \<Rightarrow> ('e + 'a) \<times> 's"

definition bindv :: "('s, 'e, 'a) act \<Rightarrow> ('a \<Rightarrow> ('s, 'e, 'b) act) \<Rightarrow> ('s, 'e, 'b) act" where
  "bindv m f s = (case m s of (Inl e, s') \<Rightarrow> (Inl e, s') | (Inr x, s') \<Rightarrow> f x s')"

definition ret :: "'a \<Rightarrow> ('s, 'e, 'a) act" where
  "ret x s = (Inr x, s)"

definition fail :: "'e \<Rightarrow> ('s, 'e, 'a) act" where
  "fail e s = (Inl e, s)"

definition modify :: "('s \<Rightarrow> 's) \<Rightarrow> ('s, 'e, unit) act" where
  "modify f s = (Inr (), f s)"

definition gets :: "('s \<Rightarrow> 'a) \<Rightarrow> ('s, 'e, 'a) act" where
  "gets f s = (Inr (f s), s)"

text \<open>A call of something outside the model, which works or gives an error.\<close>

definition attempt :: "'e option \<Rightarrow> ('s, 'e, unit) act" where
  "attempt r = (case r of None \<Rightarrow> ret () | Some e \<Rightarrow> fail e)"

definition triple :: "('s \<Rightarrow> bool) \<Rightarrow> ('s, 'e, 'a) act \<Rightarrow> ('a \<Rightarrow> 's \<Rightarrow> bool) \<Rightarrow> ('s \<Rightarrow> bool) \<Rightarrow> bool" where
  "triple P m Q E \<longleftrightarrow> (\<forall>s. P s \<longrightarrow> (case m s of (Inl e, s') \<Rightarrow> E s' | (Inr x, s') \<Rightarrow> Q x s'))"

lemmas act_defs = bindv_def ret_def fail_def modify_def gets_def attempt_def

lemma tripleD:
  "triple P m Q E \<Longrightarrow> P s \<Longrightarrow> m s = (Inr x, s') \<Longrightarrow> Q x s'"
  "triple P m Q E \<Longrightarrow> P s \<Longrightarrow> m s = (Inl e, s') \<Longrightarrow> E s'"
  by (force simp: triple_def)+

lemma triple_bindv [intro]:
  assumes "triple P m R E" and "\<And>x. triple (R x) (f x) Q E"
  shows "triple P (bindv m f) Q E"
  unfolding triple_def
proof (intro allI impI)
  fix s
  assume "P s"
  obtain r s' where m: "m s = (r, s')" by (cases "m s")
  show "case bindv m f s of (Inl e, s') \<Rightarrow> E s' | (Inr x, s') \<Rightarrow> Q x s'"
  proof (cases r)
    case (Inl e)
    with m tripleD(2)[OF assms(1) \<open>P s\<close>] show ?thesis by (simp add: bindv_def)
  next
    case (Inr x)
    with m tripleD(1)[OF assms(1) \<open>P s\<close>] have "R x s'" by simp
    with assms(2)[of x] m Inr show ?thesis by (simp add: bindv_def triple_def)
  qed
qed

lemma triple_bindv_unit:
  assumes "triple P m (\<lambda>_. R) E" and "triple R f Q E"
  shows "triple P (bindv m (\<lambda>_. f)) Q E"
  using assms by blast

lemma triple_weaken:
  assumes "triple P' m Q' E'" and "\<And>s. P s \<Longrightarrow> P' s" and "\<And>x s. Q' x s \<Longrightarrow> Q x s" and "\<And>s. E' s \<Longrightarrow> E s"
  shows "triple P m Q E"
  using assms unfolding triple_def by (fastforce split: prod.splits sum.splits)

lemma triple_attempt: "(\<And>s. P s \<Longrightarrow> E s) \<Longrightarrow> triple P (attempt r) (\<lambda>_. P) E"
  by (auto simp: triple_def attempt_def ret_def fail_def split: option.splits)

lemma triple_modify: "(\<And>s. P s \<Longrightarrow> Q () (f s)) \<Longrightarrow> triple P (modify f) Q E"
  by (simp add: triple_def modify_def)

lemma triple_ret: "(\<And>s. P s \<Longrightarrow> Q x s) \<Longrightarrow> triple P (ret x) Q E"
  by (simp add: triple_def ret_def)

lemma triple_fail: "(\<And>s. P s \<Longrightarrow> E s) \<Longrightarrow> triple P (fail e) Q E"
  by (simp add: triple_def fail_def)

lemma triple_gets: "(\<And>s. P s \<Longrightarrow> Q (f s) s) \<Longrightarrow> triple P (gets f) Q E"
  by (simp add: triple_def gets_def)

end
