(* ===== verification/Vm.thy ===== *)
theory Vm
  imports
    Restart
    Effects
begin

section \<open>Starting, waking and tearing down a VM\<close>

text \<open>
  \<open>cirro-node/src/vm.rs\<close>. The Node is the objects VMs leave on it (namespaces, links, directories and
  cgroups), the files of jails and snapshots, the console logs and the VMMs that run. What programs,
  the kernel and Firecracker answer is the record \<open>outside\<close>; errors are their texts, as in the source.
\<close>

type_synonym vm_error = string

definition err :: "string \<Rightarrow> string \<Rightarrow> vm_error" where
  "err what e = what @ '': '' @ e"

definition GUEST_ADDRESS :: ipv4 where "GUEST_ADDRESS = from_octets 172 16 0 2"
definition GUEST_GATEWAY :: ipv4 where "GUEST_GATEWAY = from_octets 172 16 0 1"
definition TAP_MAC :: string where "TAP_MAC = ''06:00:ac:10:00:01''"
definition SNAPSHOT_FILES :: "string list" where "SNAPSHOT_FILES = [''vmstate'', ''mem'', ''rootfs.ext4'']"
definition PARK_FILES :: "string list" where "PARK_FILES = [''park.vmstate'', ''park.mem'', ''rootfs.ext4'']"
definition WAKE_FILES :: "string list" where "WAKE_FILES = [''wake.vmstate'', ''wake.mem'', ''rootfs.ext4'']"
definition CGROUP_POLL_ATTEMPTS :: nat where "CGROUP_POLL_ATTEMPTS = 100"
definition CONSOLE_TAIL_LINES :: nat where "CONSOLE_TAIL_LINES = 10"
definition VMM_OVERHEAD_MIB :: u64 where "VMM_OVERHEAD_MIB = 32"
definition PARENT_CGROUP :: string where "PARENT_CGROUP = ''cirro''"
definition VM_UID_BASE :: u32 where "VM_UID_BASE = 900000"

text \<open>10 s in polls at least 1 ms apart, and in tries at least 100 ms apart.\<close>

definition API_SOCKET_POLLS :: nat where "API_SOCKET_POLLS = 10000"
definition CONFIG_TRIES :: nat where "CONFIG_TRIES = 100"

record node_config =
  nc_firecracker :: path
  nc_jail_base :: path
  nc_node_address :: ipv4

definition parent_cgroup :: path where
  "parent_cgroup = path_join (path_join ''/'' ''sys/fs/cgroup'') PARENT_CGROUP"

definition jail_dir :: "node_config \<Rightarrow> string \<Rightarrow> path" where
  "jail_dir node vid = path_join (path_join (nc_jail_base node) ''firecracker'') vid"

definition cgroup_dir :: "string \<Rightarrow> path" where
  "cgroup_dir vid = path_join parent_cgroup vid"

subsection \<open>The Node\<close>

datatype object = Netns string | Link string | Dir path | Cgroup path

record host =
  h_objects :: "object set"
  h_files :: "path \<times> string \<Rightarrow> string option"
  h_consoles :: "path \<Rightarrow> string option"
  h_procs :: "(process_id \<times> path) list"
  h_paused :: "process_id list"

definition under :: "path \<Rightarrow> path \<Rightarrow> bool" where
  "under p d \<longleftrightarrow> d = p \<or> starts_with (p @ ''/'') d"

definition dir_under :: "path \<Rightarrow> object \<Rightarrow> bool" where
  "dir_under p ob = (case ob of Dir d \<Rightarrow> under p d | _ \<Rightarrow> False)"

definition remove_dir_all :: "path \<Rightarrow> host \<Rightarrow> host" where
  "remove_dir_all p h =
     h\<lparr>h_objects := Set.filter (\<lambda>ob. \<not> dir_under p ob) (h_objects h),
       h_files := (\<lambda>(d, n). if under p d then None else h_files h (d, n))\<rparr>"

definition remove_object :: "object \<Rightarrow> host \<Rightarrow> host" where
  "remove_object ob h = h\<lparr>h_objects := h_objects h - {ob}\<rparr>"

subsection \<open>The VMM\<close>

datatype vmm = Child process_id | Adopted process_id path

datatype exit_status = Exit_code nat | Signalled nat

definition success :: "exit_status \<Rightarrow> bool" where
  "success s = (s = Exit_code 0)"

text \<open>
  \<open>/proc/<pid>/stat\<close>: the fields follow the last \<open>)\<close>; the state is the first of them and the start
  time the twentieth.
\<close>

definition proc_stat :: "string option \<Rightarrow> (char \<times> u64) option" where
  "proc_stat content =
     Option.bind content (\<lambda>stat.
     Option.bind (rsplit_once CHR '')'' stat) (\<lambda>(_, rest).
     let fields = split_whitespace rest
     in Option.bind (case fields of (c # _) # _ \<Rightarrow> Some c | _ \<Rightarrow> None) (\<lambda>state.
        Option.bind (if 19 < length fields then parse_word (fields ! 19) else None) (\<lambda>start.
        Some (state, start)))))"

definition process_of :: "(u32 \<Rightarrow> string option) \<Rightarrow> u32 \<Rightarrow> process_id option" where
  "process_of proc p = map_option (\<lambda>(_, start). \<lparr>pid = p, start_time = start\<rparr>) (proc_stat (proc p))"

definition is_running :: "(u32 \<Rightarrow> string option) \<Rightarrow> process_id \<Rightarrow> bool" where
  "is_running proc p =
     (case proc_stat (proc (pid p)) of
        Some (state, start) \<Rightarrow> state \<noteq> CHR ''Z'' \<and> start = start_time p
      | None \<Rightarrow> False)"

text \<open>\<open>memory.events\<close> of the VM's cgroup, read for an adopted VMM only.\<close>

definition oom_killed :: "vmm \<Rightarrow> string option \<Rightarrow> bool" where
  "oom_killed v events =
     (case v of
        Child _ \<Rightarrow> False
      | Adopted _ _ \<Rightarrow>
          (case events of
             None \<Rightarrow> False
           | Some text \<Rightarrow> list_ex (\<lambda>count. trim count \<noteq> ''0'') (List.map_filter (strip_prefix ''oom_kill '') (lines text))))"

definition vmm_process :: "vmm \<Rightarrow> process_id" where
  "vmm_process v = (case v of Child p \<Rightarrow> p | Adopted p _ \<Rightarrow> p)"

definition kill :: "vmm \<Rightarrow> host \<Rightarrow> host" where
  "kill v h =
     (case v of
        Child p \<Rightarrow> h\<lparr>h_procs := filter (\<lambda>(q, _). q \<noteq> p) (h_procs h)\<rparr>
      | Adopted _ cgroup \<Rightarrow> h\<lparr>h_procs := filter (\<lambda>(_, c). c \<noteq> cgroup) (h_procs h)\<rparr>)"

subsection \<open>Teardown\<close>

datatype undo = DeleteNetns string | DeleteLink string | RemoveDir path | RemoveCgroup path

text \<open>
  What the steps of a teardown answer: the error of a command, or of a removal; and how often a
  cgroup whose processes have ended is still busy.
\<close>

record undoing =
  u_fault :: "undo \<Rightarrow> string option"
  u_busy :: "path \<Rightarrow> nat"

datatype io_result = Done | NotFound | ResourceBusy | Failed string

definition remove_if_present :: "io_result \<Rightarrow> path \<Rightarrow> vm_error + unit" where
  "remove_if_present r path =
     (case r of
        Done \<Rightarrow> Inr ()
      | NotFound \<Rightarrow> Inr ()
      | ResourceBusy \<Rightarrow> Inl (err (''remove '' @ path) ''Device or resource busy'')
      | Failed e \<Rightarrow> Inl (err (''remove '' @ path) e))"

definition try_remove_cgroup :: "undoing \<Rightarrow> path \<Rightarrow> nat \<Rightarrow> host \<Rightarrow> io_result \<times> host" where
  "try_remove_cgroup u path tries h =
     (if Cgroup path \<notin> h_objects h then (NotFound, h)
      else if list_ex (\<lambda>(_, c). c = path) (h_procs h) \<or> tries < u_busy u path then (ResourceBusy, h)
      else (case u_fault u (RemoveCgroup path) of
              Some e \<Rightarrow> (Failed e, h)
            | None \<Rightarrow> (Done, remove_object (Cgroup path) h)))"

fun remove_cgroup :: "undoing \<Rightarrow> path \<Rightarrow> nat \<Rightarrow> nat \<Rightarrow> io_result \<times> host \<Rightarrow> io_result \<times> host" where
  "remove_cgroup u path 0 tries (r, h) = (r, h)"
| "remove_cgroup u path (Suc n) tries (r, h) =
     (if r = ResourceBusy then remove_cgroup u path n (Suc tries) (try_remove_cgroup u path (Suc tries) h)
      else (r, h))"

definition run_undo :: "undoing \<Rightarrow> undo \<Rightarrow> host \<Rightarrow> (vm_error + unit) \<times> host" where
  "run_undo u step h =
     (case step of
        DeleteNetns name \<Rightarrow>
          if Netns name \<notin> h_objects h then (Inr (), h)
          else (case u_fault u step of Some e \<Rightarrow> (Inl e, h) | None \<Rightarrow> (Inr (), remove_object (Netns name) h))
      | DeleteLink name \<Rightarrow>
          if Link name \<notin> h_objects h then (Inr (), h)
          else (case u_fault u step of Some e \<Rightarrow> (Inl e, h) | None \<Rightarrow> (Inr (), remove_object (Link name) h))
      | RemoveDir path \<Rightarrow>
          if Dir path \<notin> h_objects h then (remove_if_present NotFound path, h)
          else (case u_fault u step of
                  Some e \<Rightarrow> (remove_if_present (Failed e) path, h)
                | None \<Rightarrow> (remove_if_present Done path, remove_dir_all path h))
      | RemoveCgroup path \<Rightarrow>
          (case remove_cgroup u path CGROUP_POLL_ATTEMPTS 0 (try_remove_cgroup u path 0 h) of
             (r, h) \<Rightarrow> (remove_if_present r path, h)))"

text \<open>Steps are popped from the end, and one that fails is only logged.\<close>

fun unwind :: "undoing \<Rightarrow> undo list \<Rightarrow> host \<Rightarrow> host" where
  "unwind u [] h = h"
| "unwind u (step # steps) h = unwind u steps (snd (run_undo u step h))"

record vm =
  vm_vmm :: "vmm option"
  vm_undo :: "undo list"
  vm_api_socket :: path
  vm_jail_root :: path
  vm_console_log :: path
  vm_process :: "process_id option"

definition teardown :: "undoing \<Rightarrow> vm \<Rightarrow> host \<Rightarrow> vm \<times> host" where
  "teardown u v h =
     (let h = (case vm_vmm v of None \<Rightarrow> h | Some vmm \<Rightarrow> kill vmm h)
      in (v\<lparr>vm_undo := []\<rparr>, unwind u (rev (vm_undo v)) h))"

definition undo_steps :: "node_config \<Rightarrow> string \<Rightarrow> undo list" where
  "undo_steps node vid = [DeleteNetns vid, RemoveDir (jail_dir node vid), RemoveCgroup (cgroup_dir vid), DeleteLink vid]"

definition vm_empty :: "path \<Rightarrow> vm" where
  "vm_empty console_log =
     \<lparr>vm_vmm = None, vm_undo = [], vm_api_socket = [], vm_jail_root = [], vm_console_log = console_log, vm_process = None\<rparr>"

definition adopt :: "node_config \<Rightarrow> ipv4 \<Rightarrow> process_id \<Rightarrow> path \<Rightarrow> vm" where
  "adopt node vm_address process console_log =
     (let vid = host_id vm_address;
          jail_root = path_join (jail_dir node vid) ''root''
      in \<lparr>vm_vmm = Some (Adopted process (cgroup_dir vid)), vm_undo = undo_steps node vid,
          vm_api_socket = path_join jail_root ''run/firecracker.socket'', vm_jail_root = jail_root,
          vm_console_log = console_log, vm_process = Some process\<rparr>)"

text \<open>\<open>kill_cgroup\<close> does nothing when there is no such cgroup.\<close>

definition kill_cgroup :: "path \<Rightarrow> host \<Rightarrow> host" where
  "kill_cgroup cgroup h =
     (if Cgroup cgroup \<notin> h_objects h then h
      else h\<lparr>h_procs := filter (\<lambda>(_, c). c \<noteq> cgroup) (h_procs h)\<rparr>)"

definition clean_up :: "undoing \<Rightarrow> node_config \<Rightarrow> ipv4 \<Rightarrow> host \<Rightarrow> host" where
  "clean_up u node vm_address h =
     (let vid = host_id vm_address
      in unwind u (rev (undo_steps node vid)) (kill_cgroup (cgroup_dir vid) h))"

subsection \<open>What teardown removes\<close>

definition undone_by :: "undo \<Rightarrow> object \<Rightarrow> bool" where
  "undone_by step ob =
     (case step of
        DeleteNetns n \<Rightarrow> ob = Netns n
      | DeleteLink n \<Rightarrow> ob = Link n
      | RemoveDir p \<Rightarrow> dir_under p ob
      | RemoveCgroup p \<Rightarrow> ob = Cgroup p)"

definition file_undone :: "undo \<Rightarrow> path \<Rightarrow> bool" where
  "file_undone step d = (case step of RemoveDir p \<Rightarrow> under p d | _ \<Rightarrow> False)"

definition without :: "undo list \<Rightarrow> host \<Rightarrow> host" where
  "without steps h =
     h\<lparr>h_objects := Set.filter (\<lambda>ob. \<not> list_ex (\<lambda>st. undone_by st ob) steps) (h_objects h),
       h_files := (\<lambda>(d, n). if list_ex (\<lambda>st. file_undone st d) steps then None else h_files h (d, n))\<rparr>"

definition faultless :: "undoing \<Rightarrow> bool" where
  "faultless u \<longleftrightarrow> (\<forall>st. u_fault u st = None) \<and> (\<forall>p. u_busy u p \<le> CGROUP_POLL_ATTEMPTS)"

text \<open>A directory that is not there has nothing under it; a cgroup to remove has no process in it.\<close>

definition removable :: "undo \<Rightarrow> host \<Rightarrow> bool" where
  "removable step h =
     (case step of
        RemoveDir p \<Rightarrow> Dir p \<in> h_objects h \<or> remove_dir_all p h = h
      | RemoveCgroup p \<Rightarrow> \<not> list_ex (\<lambda>(_, c). c = p) (h_procs h)
      | _ \<Rightarrow> True)"

lemma under_refl [simp]: "under p p"
  by (simp add: under_def)

lemma under_trans: "under p q \<Longrightarrow> under q d \<Longrightarrow> under p d"
  by (auto simp: under_def starts_with_iff)

lemma without_Nil [simp]: "without [] h = h"
proof -
  have "Set.filter (\<lambda>ob. True) A = A" for A :: "object set" by auto
  then show ?thesis by (simp add: without_def)
qed

lemma without_Cons: "without (st # steps) h = without steps (without [st] h)"
  by (auto simp: without_def fun_eq_iff)

lemma remove_cgroup_retries:
  assumes "Cgroup p \<in> h_objects h" and "\<not> list_ex (\<lambda>(_, c). c = p) (h_procs h)" and "u_fault u (RemoveCgroup p) = None"
    and "u_busy u p \<le> tries + n"
  shows "remove_cgroup u p n tries (try_remove_cgroup u p tries h) = (Done, remove_object (Cgroup p) h)"
  using assms by (induction n arbitrary: tries) (simp_all add: try_remove_cgroup_def)

lemma run_undo_without:
  assumes "faultless u" and "removable step h"
  shows "snd (run_undo u step h) = without [step] h"
proof (cases step)
  case (RemoveCgroup p)
  show ?thesis
  proof (cases "Cgroup p \<in> h_objects h")
    case True
    then show ?thesis
      using assms RemoveCgroup remove_cgroup_retries[of p h u 0 CGROUP_POLL_ATTEMPTS]
      by (auto simp: run_undo_def faultless_def removable_def without_def remove_object_def undone_by_def file_undone_def
          split: prod.splits intro!: host.equality)
  next
    case False
    moreover have "remove_cgroup u p n t (NotFound, h) = (NotFound, h)" for n t by (cases n) simp_all
    ultimately show ?thesis
      using RemoveCgroup
      by (auto simp: run_undo_def try_remove_cgroup_def without_def undone_by_def file_undone_def split: prod.splits
          intro!: host.equality)
  qed
next
  case (RemoveDir p)
  have "without [RemoveDir p] h = remove_dir_all p h"
    by (auto simp: without_def remove_dir_all_def undone_by_def file_undone_def fun_eq_iff)
  with assms RemoveDir show ?thesis
    by (auto simp: run_undo_def faultless_def removable_def)
qed (use assms in \<open>auto simp: run_undo_def faultless_def without_def remove_object_def undone_by_def file_undone_def
      intro!: host.equality\<close>)

lemma removable_without:
  assumes "removable step h"
  shows "removable step (without [st] h)"
proof (cases step)
  case (RemoveDir p)
  let ?h = "without [st] h"
  have "remove_dir_all p ?h = ?h" if gone: "Dir p \<notin> h_objects ?h"
  proof (cases "Dir p \<in> h_objects h")
    case True
    with gone obtain q where q: "st = RemoveDir q" "under q p"
      by (auto simp: without_def undone_by_def dir_under_def split: undo.splits)
    have "dir_under p ob \<Longrightarrow> dir_under q ob" for ob
      using q(2) under_trans by (cases ob) (auto simp: dir_under_def)
    with q show ?thesis
      using under_trans[OF q(2)]
      by (auto simp: remove_dir_all_def without_def undone_by_def file_undone_def fun_eq_iff intro!: host.equality)
  next
    case False
    with assms RemoveDir have same: "remove_dir_all p h = h" by (simp add: removable_def)
    have "h_objects (remove_dir_all p h) = h_objects h" using same by simp
    then have obs: "ob \<in> h_objects h \<Longrightarrow> \<not> dir_under p ob" for ob by (auto simp: remove_dir_all_def)
    have "h_files (remove_dir_all p h) (d, n) = None" if "under p d" for d n using that by (simp add: remove_dir_all_def)
    with same have "under p d \<Longrightarrow> h_files h (d, n) = None" for d n by simp
    with obs show ?thesis
      by (auto simp: remove_dir_all_def without_def fun_eq_iff intro!: host.equality)
  qed
  with RemoveDir show ?thesis by (auto simp: removable_def)
qed (use assms in \<open>auto simp: removable_def without_def\<close>)

lemma unwind_without:
  "faultless u \<Longrightarrow> list_all (\<lambda>st. removable st h) steps \<Longrightarrow> unwind u steps h = without steps h"
proof (induction steps arbitrary: h)
  case (Cons st steps)
  then have "list_all (\<lambda>st'. removable st' (without [st] h)) steps"
    by (auto simp: list_all_iff removable_without)
  with Cons show ?case
    by (simp add: run_undo_without without_Cons[of st steps])
qed simp

end
