(* ===== verification/Vm_Start.thy ===== *)
theory Vm_Start
  imports
    Vm
begin

section \<open>The steps of a start and of a wake\<close>

text \<open>
  \<open>Vm::start\<close> and \<open>Vm::wake\<close> of \<open>cirro-node/src/vm.rs\<close>. Every call out of the agent that can fail is a
  \<open>call\<close>, and \<open>outside\<close> says what each of them answers. A step that fails returns at once, with
  the effects so far; the caller then tears down what was registered.
\<close>

datatype call =
    Netns_add string | Jail_base | Console_open | Console_chown | Console_clone | Spawn "string list" | Sysctl | Nft string
  | Kernel_link | Kernel_copy | Rootfs_create | Rootfs_copy | Rootfs_chown | Attach_tap string string | Attach_vsock string
  | Boot_vm string u8 u32 | Chown_file string | Load_snapshot string string | Snapshot_dir | Pause | Create_snapshot | Resume

text \<open>
  \<open>o_fault\<close> is the error of a call, if it fails. \<open>o_process\<close> is the VMM jailer becomes, which may be gone
  before it is identified; \<open>o_jail\<close> and \<open>o_cgroup\<close> say whether jailer has made the VM's jail and cgroup
  by the time the agent goes on. \<open>o_batch\<close> is the first command of an \<open>ip -batch\<close> that fails. The
  functions of a number are what the loops that poll see each time.
\<close>

record outside =
  o_fault :: "call \<Rightarrow> string option"
  o_process :: process_id
  o_identified :: bool
  o_jail :: bool
  o_cgroup :: bool
  o_output :: string
  o_batch :: "string list \<Rightarrow> (nat \<times> string) option"
  o_socket :: "nat \<Rightarrow> bool"
  o_exit :: "nat \<Rightarrow> exit_status option"
  o_late :: "nat \<Rightarrow> bool"
  o_status :: "exit_status \<Rightarrow> string"
  o_config :: "nat \<Rightarrow> string option"
  o_config_exit :: "nat \<Rightarrow> exit_status option"
  o_config_late :: "nat \<Rightarrow> bool"
  o_grace :: "exit_status option option"
  o_kernel :: string
  o_rootfs :: string
  o_rename :: "path \<times> string \<Rightarrow> path \<times> string \<Rightarrow> string option"

type_synonym vm_state = "vm \<times> host"

definition calls :: "outside \<Rightarrow> call \<Rightarrow> string \<Rightarrow> (vm_state, vm_error, unit) act" where
  "calls out c what = attempt (map_option (err what) (o_fault out c))"

definition on_vm :: "(vm \<Rightarrow> vm) \<Rightarrow> (vm_state, vm_error, unit) act" where
  "on_vm f = modify (\<lambda>(v, h). (f v, h))"

definition on_host :: "(host \<Rightarrow> host) \<Rightarrow> (vm_state, vm_error, unit) act" where
  "on_host f = modify (\<lambda>(v, h). (v, f h))"

definition push_undo :: "undo \<Rightarrow> (vm_state, vm_error, unit) act" where
  "push_undo step = on_vm (\<lambda>v. v\<lparr>vm_undo := vm_undo v @ [step]\<rparr>)"

definition add_objects :: "object set \<Rightarrow> host \<Rightarrow> host" where
  "add_objects obs h = h\<lparr>h_objects := h_objects h \<union> obs\<rparr>"

subsection \<open>The console\<close>

definition TAIL_BYTES :: nat where "TAIL_BYTES = 16384"

definition console_of :: "path \<Rightarrow> host \<Rightarrow> string" where
  "console_of log h = (case h_consoles h log of None \<Rightarrow> [] | Some c \<Rightarrow> c)"

definition console_tail_bytes :: "string \<Rightarrow> string" where
  "console_tail_bytes console = drop (length console - TAIL_BYTES) console"

definition console_tail :: "string \<Rightarrow> string" where
  "console_tail console =
     (let ls = lines (console_tail_bytes console);
          tail = drop (length ls - CONSOLE_TAIL_LINES) ls
      in if tail = [] then ''  (no console output)''
         else join_with [CHR 0x0A] (map (\<lambda>l. ''  '' @ l) tail))"

definition natural_end :: "exit_status option \<Rightarrow> string \<Rightarrow> end_reason" where
  "natural_end status console =
     (let panicked = contains ''Kernel panic'' (console_tail_bytes console)
      in case status of
           Some s \<Rightarrow> if \<not> success s then Crashed else if panicked then Crashed else Exited
         | None \<Rightarrow> if panicked then Crashed else Exited)"

definition vmm_natural_end :: "vmm \<Rightarrow> string option \<Rightarrow> exit_status option \<Rightarrow> string \<Rightarrow> end_reason" where
  "vmm_natural_end v events status console =
     (if oom_killed v events then Crashed else natural_end status console)"

definition graceful_end :: "exit_status option \<Rightarrow> string \<Rightarrow> end_reason" where
  "graceful_end status console = (if natural_end status console = Crashed then Crashed else Graceful)"

definition ended_during_start :: "exit_status option \<Rightarrow> string \<Rightarrow> vm_error" where
  "ended_during_start status console =
     (let how = (if natural_end status console = Crashed then ''crashed'' else ''exited on its own'');
          panic = (case find (contains ''Kernel panic'') (rev (lines (console_tail_bytes console))) of
                     Some l \<Rightarrow> '' ('' @ trim l @ '')''
                   | None \<Rightarrow> [])
      in ''the VM '' @ how @ '' while starting'' @ panic @ ''; last console lines:'' @ [CHR 0x0A] @ console_tail console)"

subsection \<open>Commands\<close>

definition name_failed_batch_command :: "vm_error \<Rightarrow> string list \<Rightarrow> vm_error" where
  "name_failed_batch_command e commands =
     (case rsplit_once_str ''Command failed -:'' e of
        None \<Rightarrow> e
      | Some (_, line) \<Rightarrow>
          (case (parse_word (trim line) :: u64 option) of
             None \<Rightarrow> e
           | Some n \<Rightarrow>
               if 0 < n \<and> unat n - 1 < length commands then e @ '' (`'' @ commands ! (unat n - 1) @ ''`)'' else e))"

definition ip_batch :: "outside \<Rightarrow> string list \<Rightarrow> vm_error option" where
  "ip_batch out commands =
     (case o_batch out commands of
        None \<Rightarrow> None
      | Some (i, said) \<Rightarrow> Some (name_failed_batch_command (said @ ''Command failed -:'' @ decimal (i + 1)) commands))"

definition vm_uid :: "ipv4 \<Rightarrow> u32" where
  "vm_uid a = VM_UID_BASE + or (push_bit 8 (ucast (octet 2 a))) (ucast (octet 3 a))"

definition memory_max :: "u32 \<Rightarrow> u64" where
  "memory_max mem_mib = (ucast mem_mib + VMM_OVERHEAD_MIB) * 1024 * 1024"

definition cpu_quota :: "u8 \<Rightarrow> u32" where
  "cpu_quota vcpus = ucast vcpus * 100000"

definition jailer_args :: "node_config \<Rightarrow> ipv4 \<Rightarrow> u32 \<Rightarrow> u8 \<Rightarrow> string list" where
  "jailer_args node a mem_mib vcpus =
     [''--id'', host_id a, ''--exec-file'', nc_firecracker node,
      ''--uid'', show_word (vm_uid a), ''--gid'', show_word (vm_uid a),
      ''--chroot-base-dir'', nc_jail_base node, ''--netns'', path_join ''/run/netns'' (host_id a),
      ''--cgroup-version'', ''2'', ''--parent-cgroup'', PARENT_CGROUP,
      ''--cgroup'', ''memory.max='' @ show_word (memory_max mem_mib),
      ''--cgroup'', ''cpu.max='' @ show_word (cpu_quota vcpus) @ '' 100000'']"

definition host_commands :: "node_config \<Rightarrow> ipv4 \<Rightarrow> string list" where
  "host_commands node a =
     (let vid = host_id a; node_addr = ipv4_text (nc_node_address node)
      in [''link add '' @ vid @ '' type veth peer name veth0 netns '' @ vid,
          ''addr add '' @ node_addr @ ''/32 dev '' @ vid,
          ''link set '' @ vid @ '' up'',
          ''route add '' @ ipv4_text a @ ''/32 dev '' @ vid @ '' src '' @ node_addr])"

definition namespace_commands :: "node_config \<Rightarrow> ipv4 \<Rightarrow> string list" where
  "namespace_commands node a =
     (let node_addr = ipv4_text (nc_node_address node); uid = show_word (vm_uid a)
      in [''link set lo up'',
          ''tuntap add dev tap0 mode tap user '' @ uid @ '' group '' @ uid,
          ''addr add '' @ ipv4_text GUEST_GATEWAY @ ''/30 dev tap0'',
          ''link set tap0 address '' @ TAP_MAC,
          ''link set tap0 up'',
          ''addr add '' @ ipv4_text a @ ''/32 dev veth0'',
          ''link set veth0 up'',
          ''route add '' @ node_addr @ ''/32 dev veth0'',
          ''route add default via '' @ node_addr @ '' dev veth0''])"

definition namespace_ruleset :: "ipv4 \<Rightarrow> string" where
  "namespace_ruleset a =
     ''table ip cirro {'' @ [CHR 0x0A, CHR 0x09]
     @ ''chain prerouting { type nat hook prerouting priority dstnat; ip daddr '' @ ipv4_text a @ '' dnat to ''
     @ ipv4_text GUEST_ADDRESS @ ''; }'' @ [CHR 0x0A, CHR 0x09]
     @ ''chain forward { type filter hook forward priority filter; iifname '' @ [CHR 0x22] @ ''tap0'' @ [CHR 0x22]
     @ '' ip saddr != '' @ ipv4_text GUEST_ADDRESS @ '' drop; }'' @ [CHR 0x0A, CHR 0x09]
     @ ''chain postrouting { type nat hook postrouting priority srcnat; ip saddr '' @ ipv4_text GUEST_ADDRESS
     @ '' snat to '' @ ipv4_text a @ ''; }'' @ [CHR 0x0A] @ ''}'' @ [CHR 0x0A]"

subsection \<open>Waiting for Firecracker and for guest-init\<close>

function await_socket :: "outside \<Rightarrow> path \<Rightarrow> string \<Rightarrow> nat \<Rightarrow> vm_error + unit" where
  "await_socket out api_socket console k =
     (if o_socket out k then Inr ()
      else (case o_exit out k of
              Some status \<Rightarrow>
                Inl (''jailer exited ('' @ o_status out status @ '') before Firecracker was up; last console lines:''
                     @ [CHR 0x0A] @ console_tail console)
            | None \<Rightarrow>
                if o_late out k \<or> API_SOCKET_POLLS \<le> k
                then Inl (''Firecracker's API socket never appeared at '' @ api_socket)
                else await_socket out api_socket console (Suc k)))"
  by pat_completeness auto
termination
  by (relation "measure (\<lambda>(_, _, _, k). API_SOCKET_POLLS - k)") auto

declare await_socket.simps [simp del]

function deliver_config :: "outside \<Rightarrow> string \<Rightarrow> nat \<Rightarrow> string \<Rightarrow> vm_error + unit" where
  "deliver_config out console k last_error =
     (if o_config_late out k \<or> CONFIG_TRIES \<le> k
      then Inl (''guest-init never accepted its config within 10s ('' @ last_error
                @ ''), so the VM was forced to stop; does the rootfs have guest-init as /init? Last console lines:''
                @ [CHR 0x0A] @ console_tail console)
      else (case o_config_exit out k of
              Some status \<Rightarrow> Inl (ended_during_start (Some status) console)
            | None \<Rightarrow>
                (case o_config out k of
                   None \<Rightarrow> Inr ()
                 | Some e \<Rightarrow> deliver_config out console (Suc k) e)))"
  by pat_completeness auto
termination
  by (relation "measure (\<lambda>(_, _, k, _). CONFIG_TRIES - k)") auto

declare deliver_config.simps [simp del]

subsection \<open>Host steps\<close>

definition jail_root :: "node_config \<Rightarrow> ipv4 \<Rightarrow> path" where
  "jail_root node a = path_join (jail_dir node (host_id a)) ''root''"

definition open_console :: "path \<Rightarrow> bool \<Rightarrow> host \<Rightarrow> host" where
  "open_console log appending h = h\<lparr>h_consoles := (h_consoles h)(log := Some (if appending then console_of log h else []))\<rparr>"

text \<open>The directories and the cgroup jailer makes for a VM.\<close>

definition jail_objects :: "node_config \<Rightarrow> ipv4 \<Rightarrow> object set" where
  "jail_objects node a = {Dir (jail_dir node (host_id a)), Dir (jail_root node a)}"

definition spawn_jailer :: "outside \<Rightarrow> node_config \<Rightarrow> ipv4 \<Rightarrow> path \<Rightarrow> host \<Rightarrow> host" where
  "spawn_jailer out node a log h =
     add_objects ((if o_jail out then jail_objects node a else {})
                  \<union> (if o_cgroup out then {Cgroup (cgroup_dir (host_id a))} else {}))
       (h\<lparr>h_procs := (o_process out, cgroup_dir (host_id a)) # h_procs h,
          h_consoles := (h_consoles h)(log := Some (console_of log h @ o_output out))\<rparr>)"

text \<open>\<open>ip\<close> stops at the first command that fails; the first of the batch makes the link.\<close>

definition make_link :: "outside \<Rightarrow> node_config \<Rightarrow> ipv4 \<Rightarrow> host \<Rightarrow> host" where
  "make_link out node a h =
     (case o_batch out (host_commands node a) of
        Some (0, _) \<Rightarrow> h
      | _ \<Rightarrow> add_objects {Link (host_id a)} h)"

text \<open>Firecracker's socket is in the jail, and it runs in the cgroup: both are there when the socket is.\<close>

definition socket_up :: "outside \<Rightarrow> node_config \<Rightarrow> ipv4 \<Rightarrow> (vm_state, vm_error, unit) act" where
  "socket_up out node a =
     (\<lambda>(v, h).
        case await_socket out (vm_api_socket v) (console_of (vm_console_log v) h) 0 of
          Inl e \<Rightarrow> (Inl e, v, h)
        | Inr _ \<Rightarrow> (Inr (), v, add_objects (jail_objects node a \<union> {Cgroup (cgroup_dir (host_id a))}) h))"

definition host_steps :: "outside \<Rightarrow> node_config \<Rightarrow> ipv4 \<Rightarrow> u32 \<Rightarrow> u8 \<Rightarrow> bool \<Rightarrow> (vm_state, vm_error, u32) act" where
  "host_steps out node a mem_mib vcpus append_console =
     (let vid = host_id a; root = jail_root node a
      in bindv (attempt (o_fault out (Netns_add vid))) (\<lambda>_.
         bindv (on_host (add_objects {Netns vid})) (\<lambda>_.
         bindv (push_undo (DeleteNetns vid)) (\<lambda>_.
         bindv (on_vm (\<lambda>v. v\<lparr>vm_jail_root := root\<rparr>)) (\<lambda>_.
         bindv (push_undo (RemoveDir (jail_dir node vid))) (\<lambda>_.
         bindv (push_undo (RemoveCgroup (cgroup_dir vid))) (\<lambda>_.
         bindv (calls out Jail_base ''create jail base dir'') (\<lambda>_.
         bindv (calls out Console_open ''create console log'') (\<lambda>_.
         bindv (modify (\<lambda>(v, h). (v, open_console (vm_console_log v) append_console h))) (\<lambda>_.
         bindv (calls out Console_chown ''chown console log'') (\<lambda>_.
         bindv (calls out Console_clone ''clone console fd'') (\<lambda>_.
         bindv (calls out (Spawn (jailer_args node a mem_mib vcpus)) ''spawn jailer'') (\<lambda>_.
         bindv (modify (\<lambda>(v, h).
                 (v\<lparr>vm_process := (if o_identified out then Some (o_process out) else None),
                    vm_vmm := Some (Child (o_process out))\<rparr>,
                  spawn_jailer out node a (vm_console_log v) h))) (\<lambda>_.
         bindv (if o_identified out then ret () else fail ''jailer exited before its process could be identified'') (\<lambda>_.
         bindv (push_undo (DeleteLink vid)) (\<lambda>_.
         bindv (on_host (make_link out node a)) (\<lambda>_.
         bindv (attempt (ip_batch out (host_commands node a))) (\<lambda>_.
         bindv (attempt (ip_batch out (namespace_commands node a))) (\<lambda>_.
         bindv (attempt (o_fault out Sysctl)) (\<lambda>_.
         bindv (attempt (o_fault out (Nft (namespace_ruleset a)))) (\<lambda>_.
         bindv (on_vm (\<lambda>v. v\<lparr>vm_api_socket := path_join root ''run/firecracker.socket''\<rparr>)) (\<lambda>_.
         bindv (socket_up out node a) (\<lambda>_.
         ret (vm_uid a))))))))))))))))))))))))"

subsection \<open>Booting\<close>

text \<open>A file can only be made in a directory that is there.\<close>

definition write_file :: "path \<times> string \<Rightarrow> string \<Rightarrow> string \<Rightarrow> (vm_state, vm_error, unit) act" where
  "write_file f content what =
     (\<lambda>(v, h).
        if Dir (fst f) \<in> h_objects h then (Inr (), v, h\<lparr>h_files := (h_files h)(f := Some content)\<rparr>)
        else (Inl (err what ''No such file or directory''), v, h))"

definition copy_kernel :: "outside \<Rightarrow> path \<Rightarrow> (vm_state, vm_error, unit) act" where
  "copy_kernel out root =
     (if o_fault out Kernel_link = None then write_file (root, ''vmlinux'') (o_kernel out) ''copy kernel into jail''
      else bindv (calls out Kernel_copy ''copy kernel into jail'') (\<lambda>_.
           write_file (root, ''vmlinux'') (o_kernel out) ''copy kernel into jail''))"

definition boot_args :: string where
  "boot_args =
     ''console=ttyS0 reboot=k panic=1 init=/init ip='' @ ipv4_text GUEST_ADDRESS @ ''::'' @ ipv4_text GUEST_GATEWAY
     @ '':255.255.255.252::eth0:off''"

definition console_answers :: "(string \<Rightarrow> vm_error + unit) \<Rightarrow> (vm_state, vm_error, unit) act" where
  "console_answers f = (\<lambda>(v, h). (f (console_of (vm_console_log v) h), v, h))"

definition grace :: "outside \<Rightarrow> string \<Rightarrow> vm_error + unit" where
  "grace out console = (case o_grace out of None \<Rightarrow> Inr () | Some status \<Rightarrow> Inl (ended_during_start status console))"

definition start_steps :: "outside \<Rightarrow> node_config \<Rightarrow> vm_spec \<Rightarrow> (vm_state, vm_error, unit) act" where
  "start_steps out node spec =
     (let root = jail_root node (vs_vm_address spec)
      in bindv (host_steps out node (vs_vm_address spec) (vs_mem_mib spec) (vs_vcpus spec) False) (\<lambda>uid.
         bindv (copy_kernel out root) (\<lambda>_.
         bindv (calls out Rootfs_create ''create rootfs in jail'') (\<lambda>_.
         bindv (write_file (root, ''rootfs.ext4'') [] ''create rootfs in jail'') (\<lambda>_.
         bindv (calls out Rootfs_copy (''copy rootfs '' @ vs_rootfs spec @ '' into jail'')) (\<lambda>_.
         bindv (write_file (root, ''rootfs.ext4'') (o_rootfs out) ''copy rootfs'') (\<lambda>_.
         bindv (calls out Rootfs_chown ''chown rootfs in jail'') (\<lambda>_.
         bindv (calls out (Attach_tap ''eth0'' ''tap0'') ''attach tap'') (\<lambda>_.
         bindv (calls out (Attach_vsock ''/v.sock'') ''attach vsock'') (\<lambda>_.
         bindv (calls out (Boot_vm boot_args (vs_vcpus spec) (vs_mem_mib spec)) ''boot'') (\<lambda>_.
         bindv (console_answers (\<lambda>console. deliver_config out console 0 ''never tried'')) (\<lambda>_.
         console_answers (grace out)))))))))))))"

definition vm_start :: "outside \<Rightarrow> undoing \<Rightarrow> node_config \<Rightarrow> vm_spec \<Rightarrow> host \<Rightarrow> (vm_error + vm) \<times> host" where
  "vm_start out u node spec h =
     (case start_steps out node spec (vm_empty (vs_console_log spec), h) of
        (Inr _, v, h) \<Rightarrow> (Inr v, h)
      | (Inl e, v, h) \<Rightarrow> (Inl e, snd (teardown u v h)))"

subsection \<open>Waking\<close>

text \<open>\<open>rename\<close> needs the file and the directory it goes to.\<close>

definition rename_file :: "outside \<Rightarrow> path \<times> string \<Rightarrow> path \<times> string \<Rightarrow> host \<Rightarrow> string option \<times> host" where
  "rename_file out from to h =
     (case h_files h from of
        None \<Rightarrow> (Some ''No such file or directory'', h)
      | Some content \<Rightarrow>
          if Dir (fst to) \<notin> h_objects h then (Some ''No such file or directory'', h)
          else (case o_rename out from to of
                  Some e \<Rightarrow> (Some e, h)
                | None \<Rightarrow> (None, h\<lparr>h_files := (h_files h)(from := None, to := Some content)\<rparr>)))"

fun move_pairs :: "outside \<Rightarrow> path \<Rightarrow> path \<Rightarrow> (string \<times> string) list \<Rightarrow> string option \<Rightarrow> host \<Rightarrow> string option \<times> host" where
  "move_pairs out from to [] result h = (result, h)"
| "move_pairs out from to ((source, dest) # pairs) result h =
     (case rename_file out (from, source) (to, dest) h of
        (Some e, h') \<Rightarrow> move_pairs out from to pairs (if result = None then Some (source @ '': '' @ e) else result) h'
      | (None, h') \<Rightarrow> move_pairs out from to pairs result h')"

definition move_files ::
  "outside \<Rightarrow> path \<Rightarrow> string list \<Rightarrow> path \<Rightarrow> string list \<Rightarrow> host \<Rightarrow> string option \<times> host" where
  "move_files out from from_names to to_names h = move_pairs out from to (zip from_names to_names) None h"

fun chown_files :: "outside \<Rightarrow> string list \<Rightarrow> (vm_state, vm_error, unit) act" where
  "chown_files out [] = ret ()"
| "chown_files out (f # fs) =
     bindv (calls out (Chown_file f) (''chown '' @ f @ '' in jail'')) (\<lambda>_. chown_files out fs)"

definition move_in :: "outside \<Rightarrow> path \<Rightarrow> (vm_state, vm_error, unit) act" where
  "move_in out snapshot =
     (\<lambda>(v, h).
        case move_files out snapshot SNAPSHOT_FILES (vm_jail_root v) WAKE_FILES h of
          (Some e, h) \<Rightarrow> (Inl (err ''move the snapshot into the jail'' e), v, h)
        | (None, h) \<Rightarrow> (Inr (), v, h))"

definition load_snapshot :: "outside \<Rightarrow> string \<Rightarrow> vm_error + unit" where
  "load_snapshot out console =
     (case o_fault out (Load_snapshot (''/'' @ WAKE_FILES ! 0) (''/'' @ WAKE_FILES ! 1)) of
        None \<Rightarrow> Inr ()
      | Some e \<Rightarrow> Inl (''load the snapshot: '' @ e @ ''; last console lines:'' @ [CHR 0x0A] @ console_tail console))"

definition wake_steps :: "outside \<Rightarrow> node_config \<Rightarrow> wake_spec \<Rightarrow> (vm_state, vm_error, unit) act" where
  "wake_steps out node spec =
     bindv (host_steps out node (ws_vm_address spec) (ws_mem_mib spec) (ws_vcpus spec) True) (\<lambda>uid.
     bindv (move_in out (ws_snapshot spec)) (\<lambda>_.
     bindv (chown_files out WAKE_FILES) (\<lambda>_.
     console_answers (load_snapshot out))))"

definition vm_wake :: "outside \<Rightarrow> undoing \<Rightarrow> node_config \<Rightarrow> wake_spec \<Rightarrow> host \<Rightarrow> (vm_error + vm) \<times> host" where
  "vm_wake out u node spec h =
     (case wake_steps out node spec (vm_empty (ws_console_log spec), h) of
        (Inr _, v, h) \<Rightarrow> (Inr v, h)
      | (Inl e, v, h) \<Rightarrow>
          (let h = snd (move_files out (vm_jail_root v) WAKE_FILES (ws_snapshot spec) SNAPSHOT_FILES h)
           in (Inl e, snd (teardown u v h))))"

end
