(* ===== verification/Vm_Undone.thy ===== *)
theory Vm_Undone
  imports
    Vm_Start
begin

section \<open>A start or wake that fails leaves nothing behind\<close>

text \<open>
  What \<open>Vm::start\<close> and \<open>Vm::wake\<close> of \<open>vm.rs\<close> leave on the Node: which objects and paths belong to a VM, that every step
  touches only those and records how to undo what it did, and so that tearing down a VM, however far it
  got and whether this agent started it or took it back, removes exactly what it added.
\<close>

subsection \<open>Names and paths of a VM\<close>

lemma hex_char_not_slash [simp]:
  assumes "n < 16"
  shows "hex_char n \<noteq> CHR ''/''"
proof
  assume "hex_char n = CHR ''/''"
  then have "(of_char (hex_char n) :: nat) = 47" by simp
  with assms show False by (cases "n < 10") simp_all
qed

lemma hex_byte_shape: "length (hex_byte b) = 2" "CHR ''/'' \<notin> set (hex_byte b)"
proof -
  show "length (hex_byte b) = 2" by (simp add: hex_byte_def)
  show "CHR ''/'' \<notin> set (hex_byte b)" by (simp add: hex_byte_def eq_commute[of "CHR ''/''"])
qed

lemma host_id_shape: "length (host_id a) = 10" "CHR ''/'' \<notin> set (host_id a)"
  by (simp_all add: host_id_def hex_byte_shape)

lemma path_join_plain:
  "a \<noteq> [] \<Longrightarrow> last a \<noteq> CHR ''/'' \<Longrightarrow> b \<noteq> [] \<Longrightarrow> hd b \<noteq> CHR ''/'' \<Longrightarrow> path_join a b = a @ ''/'' @ b"
  by (cases b; cases a rule: rev_cases) (auto simp: path_join_def starts_with_def ends_with_def)

lemma path_join_last: "b \<noteq> [] \<Longrightarrow> path_join a b \<noteq> [] \<and> last (path_join a b) = last b"
  by (auto simp: path_join_def)

lemma host_id_ends: "host_id a \<noteq> []" "hd (host_id a) \<noteq> CHR ''/''" "last (host_id a) \<noteq> CHR ''/''"
proof -
  show ne: "host_id a \<noteq> []" using host_id_shape(1)[of a] by auto
  show "hd (host_id a) \<noteq> CHR ''/''" "last (host_id a) \<noteq> CHR ''/''"
    using hd_in_set[OF ne] last_in_set[OF ne] host_id_shape(2)[of a] by auto
qed

lemma jail_dir_eq: "jail_dir node (host_id a) = path_join (nc_jail_base node) ''firecracker'' @ ''/'' @ host_id a"
  unfolding jail_dir_def using host_id_ends[of a] path_join_last[of "''firecracker''" "nc_jail_base node"]
  by (intro path_join_plain) auto

lemma jail_root_eq: "jail_root node a = jail_dir node (host_id a) @ ''/root''"
  unfolding jail_root_def using host_id_ends[of a]
  by (subst path_join_plain) (auto simp: jail_dir_eq)

lemma parent_cgroup_eq: "parent_cgroup = ''/sys/fs/cgroup/cirro''"
  by (simp add: parent_cgroup_def PARENT_CGROUP_def path_join_def starts_with_def ends_with_def)

lemma cgroup_dir_eq: "cgroup_dir (host_id a) = ''/sys/fs/cgroup/cirro/'' @ host_id a"
  unfolding cgroup_dir_def parent_cgroup_eq using host_id_ends[of a]
  by (subst path_join_plain) auto

lemma under_jail_root [simp]: "under (jail_dir node (host_id a)) (jail_root node a)"
  by (simp add: under_def jail_root_eq starts_with_def)

lemma jail_root_neq [simp]: "jail_root node a \<noteq> []" "jail_root node a \<noteq> jail_dir node (host_id a)"
  by (simp_all add: jail_root_eq)

lemma under_two_jails:
  assumes "under (jail_dir node (host_id a)) d" and "under (jail_dir node (host_id b)) d"
  shows "host_id a = host_id b"
proof -
  let ?B = "path_join (nc_jail_base node) ''firecracker'' @ ''/''"
  have "\<exists>t. d = ?B @ host_id x @ t" if "under (jail_dir node (host_id x)) d" for x
    using that by (auto simp: under_def starts_with_iff jail_dir_eq)
  then obtain s t where "d = ?B @ host_id a @ s" "d = ?B @ host_id b @ t" using assms by blast
  then show ?thesis using host_id_shape(1)[of a] host_id_shape(1)[of b] by auto
qed

text \<open>What belongs to the VM at an address: what the steps that undo a started VM remove.\<close>

definition owned :: "node_config \<Rightarrow> ipv4 \<Rightarrow> object \<Rightarrow> bool" where
  "owned node a ob \<longleftrightarrow> list_ex (\<lambda>st. undone_by st ob) (undo_steps node (host_id a))"

lemma owned_iff:
  "owned node a (Netns n) \<longleftrightarrow> n = host_id a" "owned node a (Link n) \<longleftrightarrow> n = host_id a"
  "owned node a (Cgroup p) \<longleftrightarrow> p = cgroup_dir (host_id a)" "owned node a (Dir d) \<longleftrightarrow> under (jail_dir node (host_id a)) d"
  by (simp_all add: owned_def undo_steps_def undone_by_def dir_under_def)

lemma cgroup_dir_inj: "cgroup_dir (host_id a) = cgroup_dir (host_id b) \<longleftrightarrow> host_id a = host_id b"
  by (simp add: cgroup_dir_eq)

lemma owned_one:
  assumes "owned node a ob" and "owned node b ob"
  shows "host_id a = host_id b"
proof (cases ob)
  case (Dir d)
  with assms under_two_jails[of node a d b] show ?thesis by (simp add: owned_iff)
qed (use assms in \<open>simp_all add: owned_iff cgroup_dir_inj\<close>)

text \<open>A directory of files exists, a jail's own directory exists when anything in it does, and VMMs run in cgroups that exist.\<close>

definition host_wf :: "node_config \<Rightarrow> host \<Rightarrow> bool" where
  "host_wf node h \<longleftrightarrow>
     (\<forall>d n. h_files h (d, n) \<noteq> None \<longrightarrow> Dir d \<in> h_objects h) \<and>
     (\<forall>a d. Dir d \<in> h_objects h \<longrightarrow> under (jail_dir node (host_id a)) d \<longrightarrow> Dir (jail_dir node (host_id a)) \<in> h_objects h) \<and>
     (\<forall>(p, c) \<in> set (h_procs h). Cgroup c \<in> h_objects h)"

text \<open>Nothing of the VM at an address is on the Node.\<close>

definition clear_of :: "node_config \<Rightarrow> ipv4 \<Rightarrow> host \<Rightarrow> bool" where
  "clear_of node a h \<longleftrightarrow> (\<forall>ob \<in> h_objects h. \<not> owned node a ob)"


lemma owned_upto: "owned node a ob \<longleftrightarrow> list_ex (\<lambda>st. undone_by st ob) (take 4 (undo_steps node (host_id a)))"
  by (simp add: owned_def undo_steps_def)

subsection \<open>How far the host steps came\<close>

text \<open>
  The state after the host steps so far: \<open>k\<close> undo steps are registered, and what is new on the Node since
  \<open>h0\<close> are objects the first \<open>j\<close> of all of them remove, and the VMM, once it is spawned.
\<close>

definition laid :: "outside \<Rightarrow> node_config \<Rightarrow> ipv4 \<Rightarrow> path \<Rightarrow> host \<Rightarrow> bool \<Rightarrow> nat \<Rightarrow> nat \<Rightarrow> vm_state \<Rightarrow> bool" where
  "laid out node a log h0 spawned j k = (\<lambda>(v, h).
     vm_undo v = take k (undo_steps node (host_id a)) \<and> vm_console_log v = log \<and>
     h_objects h0 \<subseteq> h_objects h \<and>
     (\<forall>ob \<in> h_objects h - h_objects h0. list_ex (\<lambda>st. undone_by st ob) (take j (undo_steps node (host_id a)))) \<and>
     (\<forall>d. Dir d \<in> h_objects h - h_objects h0 \<longrightarrow> jail_objects node a \<subseteq> h_objects h) \<and>
     (if spawned then 2 < k \<and> h_procs h = (o_process out, cgroup_dir (host_id a)) # h_procs h0 \<and> vm_vmm v = Some (Child (o_process out))
      else h_procs h = h_procs h0 \<and> vm_vmm v = None) \<and>
     (vm_jail_root v = [] \<and> k \<le> 1 \<and> \<not> spawned \<or> vm_jail_root v = jail_root node a) \<and>
     h_paused h = h_paused h0 \<and> (\<forall>l. l \<noteq> log \<longrightarrow> h_consoles h l = h_consoles h0 l))"

definition progress ::
  "outside \<Rightarrow> node_config \<Rightarrow> ipv4 \<Rightarrow> path \<Rightarrow> host \<Rightarrow> ((path \<times> string \<Rightarrow> string option) \<Rightarrow> bool) \<Rightarrow> bool \<Rightarrow> nat \<Rightarrow> nat \<Rightarrow> vm_state \<Rightarrow> bool" where
  "progress out node a log h0 F spawned j k s \<longleftrightarrow> laid out node a log h0 spawned j k s \<and> F (h_files (snd s))"

definition stopped ::
  "outside \<Rightarrow> node_config \<Rightarrow> ipv4 \<Rightarrow> path \<Rightarrow> host \<Rightarrow> ((path \<times> string \<Rightarrow> string option) \<Rightarrow> bool) \<Rightarrow> vm_state \<Rightarrow> bool" where
  "stopped out node a log h0 F s \<longleftrightarrow> (\<exists>spawned k. progress out node a log h0 F spawned k k s)"

lemma stoppedI: "progress out node a log h0 F b k k s \<Longrightarrow> stopped out node a log h0 F s"
  unfolding stopped_def by blast

lemma progress_attempt:
  "triple (progress out node a log h0 F b k k) (attempt r) (\<lambda>_. progress out node a log h0 F b k k) (stopped out node a log h0 F)"
  "triple (progress out node a log h0 F b k k) (calls out c what) (\<lambda>_. progress out node a log h0 F b k k) (stopped out node a log h0 F)"
  unfolding calls_def by (rule triple_attempt; force simp: stopped_def)+

lemma progress_push:
  assumes "k < 4" and "j \<le> Suc k" and "step = undo_steps node (host_id a) ! k" and "k \<noteq> 1 \<or> b"
  shows "triple (\<lambda>s. progress out node a log h0 F sp j k s \<and> (b \<longrightarrow> vm_jail_root (fst s) = jail_root node a)) (push_undo step)
    (\<lambda>_. progress out node a log h0 F sp (Suc k) (Suc k)) E"
proof -
  let ?us = "undo_steps node (host_id a)"
  have "k < length ?us" using assms(1) by (simp add: undo_steps_def)
  then have us: "take (Suc k) ?us = take k ?us @ [step]" using assms(3) by (simp add: take_Suc_conv_app_nth)
  have "list_ex (\<lambda>st. undone_by st ob) (take (Suc k) ?us)" if "list_ex (\<lambda>st. undone_by st ob) (take j ?us)" for ob
    using that set_take_subset_set_take[OF assms(2), of ?us] by (auto simp: list_ex_iff)
  then show ?thesis
    unfolding push_undo_def on_vm_def using assms(4)
    by (intro triple_modify) (auto simp: progress_def laid_def us)
qed


lemma progress_objects:
  assumes "\<And>ob. ob \<in> obs \<Longrightarrow> list_ex (\<lambda>st. undone_by st ob) (take j (undo_steps node (host_id a)))"
    and "\<And>d. Dir d \<in> obs \<Longrightarrow> jail_objects node a \<subseteq> obs"
    and "progress out node a log h0 F b i k (v, h)" and "i \<le> j"
  shows "progress out node a log h0 F b j k (v, add_objects obs h)"
proof -
  let ?us = "undo_steps node (host_id a)"
  have "list_ex (\<lambda>st. undone_by st ob) (take j ?us)" if "list_ex (\<lambda>st. undone_by st ob) (take i ?us)" for ob
    using that set_take_subset_set_take[OF assms(4), of ?us] by (auto simp: list_ex_iff)
  with assms show ?thesis unfolding progress_def laid_def add_objects_def by auto
qed

lemma jail_objects_undone:
  "ob \<in> jail_objects node a \<union> {Cgroup (cgroup_dir (host_id a))} \<Longrightarrow>
   list_ex (\<lambda>st. undone_by st ob) (take (Suc (Suc (Suc n))) (undo_steps node (host_id a)))"
  by (auto simp: jail_objects_def undo_steps_def undone_by_def dir_under_def)

lemma progress_spawn:
  "triple (progress out node a log h0 F False 3 3)
     (modify (\<lambda>(v, h). (v\<lparr>vm_process := p, vm_vmm := Some (Child (o_process out))\<rparr>, spawn_jailer out node a (vm_console_log v) h)))
     (\<lambda>_. progress out node a log h0 F True 3 3) E"
proof (rule triple_modify, clarsimp)
  fix v :: vm and h :: host
  assume P: "progress out node a log h0 F False 3 3 (v, h)"
  let ?h = "h\<lparr>h_procs := (o_process out, cgroup_dir (host_id a)) # h_procs h,
              h_consoles := (h_consoles h)(vm_console_log v \<mapsto> console_of (vm_console_log v) h @ o_output out)\<rparr>"
  have "progress out node a log h0 F True 3 3 (v\<lparr>vm_process := p, vm_vmm := Some (Child (o_process out))\<rparr>, ?h)"
    using P by (auto simp: progress_def laid_def)
  then show "progress out node a log h0 F True 3 3
      (v\<lparr>vm_process := p, vm_vmm := Some (Child (o_process out))\<rparr>, spawn_jailer out node a (vm_console_log v) h)"
    unfolding spawn_jailer_def
    by (rule progress_objects[rotated 2])
      (auto simp: numeral_3_eq_3 jail_objects_def intro!: jail_objects_undone split: if_splits)
qed

lemma progress_socket:
  "triple (progress out node a log h0 F b 4 4) (socket_up out node a) (\<lambda>_. progress out node a log h0 F b 4 4) (stopped out node a log h0 F)"
proof -
  have "progress out node a log h0 F b 4 4 (v, add_objects (jail_objects node a \<union> {Cgroup (cgroup_dir (host_id a))}) h)"
    if "progress out node a log h0 F b 4 4 (v, h)" for v h
    using that by (rule progress_objects[rotated 2])
      (auto simp: numeral_eq_Suc jail_objects_def intro!: jail_objects_undone)
  then show ?thesis
    unfolding triple_def socket_up_def stopped_def
    by (auto split: sum.splits)
qed


lemma progress_modify:
  "triple (progress out node a log h0 F b 0 0) (on_host (add_objects {Netns (host_id a)})) (\<lambda>_. progress out node a log h0 F b 1 0) E"
  "triple (progress out node a log h0 F b 1 1) (on_vm (\<lambda>v. v\<lparr>vm_jail_root := jail_root node a\<rparr>))
     (\<lambda>_ s. progress out node a log h0 F b 1 1 s \<and> vm_jail_root (fst s) = jail_root node a) E"
  "triple (progress out node a log h0 F b k k) (modify (\<lambda>(v, h). (v, open_console (vm_console_log v) app h)))
     (\<lambda>_. progress out node a log h0 F b k k) E"
  "triple (progress out node a log h0 F b 4 4) (on_host (make_link out node a)) (\<lambda>_. progress out node a log h0 F b 4 4) E"
  "triple (progress out node a log h0 F b k k) (on_vm (\<lambda>v. v\<lparr>vm_api_socket := p\<rparr>)) (\<lambda>_. progress out node a log h0 F b k k) E"
proof -
  have [simp]: "add_objects {} h = h" for h by (simp add: add_objects_def)
  show "triple (progress out node a log h0 F b 0 0) (on_host (add_objects {Netns (host_id a)}))
      (\<lambda>_. progress out node a log h0 F b 1 0) E"
    unfolding on_host_def
    by (rule triple_modify, clarsimp, erule progress_objects[rotated 2]) (simp_all add: undo_steps_def undone_by_def)
  show "triple (progress out node a log h0 F b 4 4) (on_host (make_link out node a)) (\<lambda>_. progress out node a log h0 F b 4 4) E"
  proof -
    have "progress out node a log h0 F b 4 4 (v, add_objects {Link (host_id a)} h)"
      if "progress out node a log h0 F b 4 4 (v, h)" for v h
      using that by (intro progress_objects[where i = 4]) (simp_all add: undo_steps_def undone_by_def)
    then show ?thesis
      unfolding on_host_def make_link_def by (intro triple_modify) (auto split: option.split nat.split)
  qed
qed (auto intro!: triple_modify simp: on_vm_def progress_def laid_def open_console_def)


lemma progress_pushes:
  "triple (progress out node a log h0 F b 1 0) (push_undo (DeleteNetns (host_id a))) (\<lambda>_. progress out node a log h0 F b 1 1) E"
  "triple (\<lambda>s. progress out node a log h0 F b 1 1 s \<and> vm_jail_root (fst s) = jail_root node a)
     (push_undo (RemoveDir (jail_dir node (host_id a)))) (\<lambda>_. progress out node a log h0 F b 2 2) E"
  "triple (progress out node a log h0 F b 2 2) (push_undo (RemoveCgroup (cgroup_dir (host_id a)))) (\<lambda>_. progress out node a log h0 F b 3 3) E"
  "triple (progress out node a log h0 F b 3 3) (push_undo (DeleteLink (host_id a))) (\<lambda>_. progress out node a log h0 F b 4 4) E"
  using progress_push[of 0 1 _ node a False out log h0 F b E] progress_push[of 1 1 _ node a True out log h0 F b E]
    progress_push[of 2 2 _ node a False out log h0 F b E] progress_push[of 3 3 _ node a False out log h0 F b E]
  by (simp_all add: undo_steps_def numeral_eq_Suc)

lemma host_steps_progress:
  "triple (progress out node a log h0 F False 0 0) (host_steps out node a mem_mib vcpus app)
     (\<lambda>_. progress out node a log h0 F True 4 4) (stopped out node a log h0 F)"
proof -
  note seq = triple_bindv_unit
  note at = seq[OF progress_attempt(1)] and ca = seq[OF progress_attempt(2)]
  have identified: "triple (progress out node a log h0 F True 3 3) (if o_identified out then ret () else fail e)
      (\<lambda>_. progress out node a log h0 F True 3 3) (stopped out node a log h0 F)" for e
    by (cases "o_identified out") (auto intro!: triple_ret triple_fail intro: stoppedI)
  show ?thesis
    unfolding host_steps_def Let_def
    by (rule at seq[OF progress_modify(1)] seq[OF progress_pushes(1)] seq[OF progress_modify(2)] seq[OF progress_pushes(2)]
        seq[OF progress_pushes(3)] ca seq[OF progress_spawn] seq[OF identified] seq[OF progress_pushes(4)]
        seq[OF progress_modify(4)] seq[OF progress_socket] seq[OF progress_modify(3)] seq[OF progress_modify(5)] triple_ret | assumption)+
qed


text \<open>Host steps that all work, in closed form.\<close>

definition started_vm :: "outside \<Rightarrow> node_config \<Rightarrow> ipv4 \<Rightarrow> path \<Rightarrow> vm" where
  "started_vm out node a log =
     \<lparr>vm_vmm = Some (Child (o_process out)), vm_undo = undo_steps node (host_id a),
      vm_api_socket = path_join (jail_root node a) ''run/firecracker.socket'', vm_jail_root = jail_root node a,
      vm_console_log = log, vm_process = Some (o_process out)\<rparr>"

definition vm_objects :: "node_config \<Rightarrow> ipv4 \<Rightarrow> object set" where
  "vm_objects node a =
     {Netns (host_id a), Link (host_id a), Cgroup (cgroup_dir (host_id a))} \<union> jail_objects node a"

lemma bindv_Inr: "bindv m f s = (Inr y, t) \<longleftrightarrow> (\<exists>x s'. m s = (Inr x, s') \<and> f x s' = (Inr y, t))"
  by (auto simp: bindv_def split: prod.splits sum.splits)

lemma attempt_Inr: "attempt r s = (Inr x, t) \<longleftrightarrow> r = None \<and> t = s"
  "calls out c what s = (Inr x, t) \<longleftrightarrow> o_fault out c = None \<and> t = s"
  by (auto simp: calls_def attempt_def ret_def fail_def split: option.splits)

lemma ip_batch_None: "ip_batch out commands = None \<longleftrightarrow> o_batch out commands = None"
  by (auto simp: ip_batch_def split: option.splits)

lemma host_steps_ok:
  assumes "host_steps out node a mem_mib vcpus app (vm_empty log, h0) = (Inr uid, v, h)"
  shows "v = started_vm out node a log \<and> uid = vm_uid a \<and> h_objects h = h_objects h0 \<union> vm_objects node a \<and>
    h_files h = h_files h0 \<and> h_procs h = (o_process out, cgroup_dir (host_id a)) # h_procs h0 \<and>
    h_paused h = h_paused h0 \<and> o_fault out (Spawn (jailer_args node a mem_mib vcpus)) = None"
proof -
  let ?v = "(started_vm out node a log)"
  let ?h = "make_link out node a (spawn_jailer out node a log (open_console log app (add_objects {Netns (host_id a)} h0)))"
  from assms have *: "o_batch out (host_commands node a) = None \<and> socket_up out node a (?v, ?h) = (Inr (), v, h) \<and> uid = vm_uid a \<and>
      o_fault out (Spawn (jailer_args node a mem_mib vcpus)) = None"
    by (cases "o_identified out")
      (simp_all add: host_steps_def Let_def bindv_Inr attempt_Inr on_vm_def on_host_def modify_def push_undo_def ret_def fail_def
        ip_batch_None started_vm_def vm_empty_def undo_steps_def)
  then have "v = ?v" "h = add_objects (jail_objects node a \<union> {Cgroup (cgroup_dir (host_id a))}) ?h"
    by (simp_all add: socket_up_def split: sum.splits)
  with * show ?thesis
    by (auto simp: make_link_def open_console_def spawn_jailer_def add_objects_def vm_objects_def)
qed


text \<open>The jail is there, and only its files have changed.\<close>

definition in_jail :: "outside \<Rightarrow> node_config \<Rightarrow> ipv4 \<Rightarrow> path \<Rightarrow> host \<Rightarrow> vm_state \<Rightarrow> bool" where
  "in_jail out node a log h0 s \<longleftrightarrow>
     progress out node a log h0 (\<lambda>f. \<forall>d n. d \<noteq> jail_root node a \<longrightarrow> f (d, n) = h_files h0 (d, n)) True 4 4 s \<and>
     jail_objects node a \<subseteq> h_objects (snd s)"

definition fresh :: "vm_state \<Rightarrow> path \<Rightarrow> host \<Rightarrow> bool" where
  "fresh s log h0 \<longleftrightarrow> s = (vm_empty log, h0)"

lemma fresh_progress: "fresh s log h0 \<Longrightarrow> progress out node a log h0 (\<lambda>f. f = h_files h0) False 0 0 s"
  by (simp add: fresh_def progress_def laid_def vm_empty_def)

lemma host_steps_in_jail:
  "triple (\<lambda>s. fresh s log h0) (host_steps out node a mem_mib vcpus app) (\<lambda>_. in_jail out node a log h0)
     (stopped out node a log h0 (\<lambda>f. f = h_files h0))"
  unfolding triple_def
proof (intro allI impI)
  fix s :: vm_state
  assume s: "fresh s log h0"
  obtain r v h where hs: "host_steps out node a mem_mib vcpus app s = (r, v, h)" by (metis prod.exhaust)
  note P = host_steps_progress[of out node a log h0 "\<lambda>f. f = h_files h0" mem_mib vcpus app]
  show "case host_steps out node a mem_mib vcpus app s of
      (Inl e, s') \<Rightarrow> stopped out node a log h0 (\<lambda>f. f = h_files h0) s' | (Inr x, s') \<Rightarrow> in_jail out node a log h0 s'"
  proof (cases r)
    case (Inl e)
    with tripleD(2)[OF P fresh_progress[OF s]] hs show ?thesis by simp
  next
    case (Inr x)
    with hs s host_steps_ok[of out node a mem_mib vcpus app log h0 x v h]
    have "jail_objects node a \<subseteq> h_objects h" by (auto simp: fresh_def vm_objects_def)
    with tripleD(1)[OF P fresh_progress[OF s]] hs Inr show ?thesis by (auto simp: in_jail_def progress_def)
  qed
qed

lemma in_jail_steps:
  "triple (in_jail out node a log h0) (attempt r) (\<lambda>_. in_jail out node a log h0) (in_jail out node a log h0)"
  "triple (in_jail out node a log h0) (calls out c what) (\<lambda>_. in_jail out node a log h0) (in_jail out node a log h0)"
  "triple (in_jail out node a log h0) (write_file (jail_root node a, n) content what) (\<lambda>_. in_jail out node a log h0) (in_jail out node a log h0)"
  "triple (in_jail out node a log h0) (copy_kernel out (jail_root node a)) (\<lambda>_. in_jail out node a log h0) (in_jail out node a log h0)"
  "triple (in_jail out node a log h0) (console_answers g) (\<lambda>_. in_jail out node a log h0) (in_jail out node a log h0)"
proof -
  let ?J = "in_jail out node a log h0"
  show "triple ?J (attempt r) (\<lambda>_. ?J) ?J" by (rule triple_attempt)
  have ca: "triple ?J (calls out c what) (\<lambda>_. ?J) ?J" for c what unfolding calls_def by (rule triple_attempt)
  then show "triple ?J (calls out c what) (\<lambda>_. ?J) ?J" .
  have wf: "triple ?J (write_file (jail_root node a, n) content what) (\<lambda>_. ?J) ?J" for n content what
    by (auto simp: triple_def write_file_def in_jail_def progress_def laid_def)
  then show "triple ?J (write_file (jail_root node a, n) content what) (\<lambda>_. ?J) ?J" .
  show "triple ?J (copy_kernel out (jail_root node a)) (\<lambda>_. ?J) ?J"
    unfolding copy_kernel_def using wf triple_bindv_unit[OF ca wf] by simp
  show "triple ?J (console_answers g) (\<lambda>_. ?J) ?J"
    by (auto simp: triple_def console_answers_def split: sum.splits)
qed

definition start_stopped :: "outside \<Rightarrow> node_config \<Rightarrow> ipv4 \<Rightarrow> path \<Rightarrow> host \<Rightarrow> vm_state \<Rightarrow> bool" where
  "start_stopped out node a log h0 s \<longleftrightarrow> stopped out node a log h0 (\<lambda>f. f = h_files h0) s \<or> in_jail out node a log h0 s"

lemma start_steps_in_jail:
  "triple (\<lambda>s. fresh s log h0) (start_steps out node spec) (\<lambda>_. in_jail out node (vs_vm_address spec) log h0)
     (start_stopped out node (vs_vm_address spec) log h0)"
proof -
  let ?E = "start_stopped out node (vs_vm_address spec) log h0"
  have weak: "triple P m Q (in_jail out node (vs_vm_address spec) log h0) \<Longrightarrow> triple P m Q ?E"
    "triple P m Q (stopped out node (vs_vm_address spec) log h0 (\<lambda>f. f = h_files h0)) \<Longrightarrow> triple P m Q ?E"
    for P Q and m :: "(vm_state, vm_error, 'b) act"
    by (erule triple_weaken; simp add: start_stopped_def)+
  note seq = triple_bindv_unit[OF weak(1)]
  show ?thesis
    unfolding start_steps_def Let_def
    by (rule triple_bindv_unit[OF weak(2)[OF host_steps_in_jail]] seq[OF in_jail_steps(1)] seq[OF in_jail_steps(2)]
      seq[OF in_jail_steps(3)] seq[OF in_jail_steps(4)] seq[OF in_jail_steps(5)] weak(1)[OF in_jail_steps(5)])+
qed


subsection \<open>Teardown of a start that stopped\<close>

lemma clear_of_files: "clear_of node a h \<Longrightarrow> host_wf node h \<Longrightarrow> under (jail_dir node (host_id a)) d \<Longrightarrow> h_files h (d, n) = None"
  by (force simp: clear_of_def host_wf_def owned_iff)

lemma clear_of_procs: "clear_of node a h \<Longrightarrow> host_wf node h \<Longrightarrow> (p, c) \<in> set (h_procs h) \<Longrightarrow> c \<noteq> cgroup_dir (host_id a)"
  by (force simp: clear_of_def host_wf_def owned_iff)

lemma take_undo_owned:
  "list_ex (\<lambda>st. undone_by st ob) (take k (undo_steps node (host_id a))) \<Longrightarrow> owned node a ob"
  using set_take_subset[of k "undo_steps node (host_id a)"] by (auto simp: owned_def list_ex_iff)

lemma file_undone_take:
  "list_ex (\<lambda>st. file_undone st d) (take k (undo_steps node (host_id a))) \<longleftrightarrow> 1 < k \<and> under (jail_dir node (host_id a)) d"
  by (auto simp: undo_steps_def file_undone_def take_Cons split: nat.splits)

lemma removable_laid:
  assumes wf: "clear_of node a h0" "host_wf node h0" and L: "laid out node a log h0 b k k (v, h)"
    and files: "h_files h = h_files h0 \<or> jail_objects node a \<subseteq> h_objects h"
    and procs: "h_procs g = h_procs h0" "h_objects g = h_objects h" "h_files g = h_files h"
  shows "list_all (\<lambda>st. removable st g) (rev (take k (undo_steps node (host_id a))))"
proof -
  let ?jail = "jail_dir node (host_id a)"
  have cg: "\<not> list_ex (\<lambda>(_, c). c = cgroup_dir (host_id a)) (h_procs g)"
    using clear_of_procs[OF wf] procs(1) by (auto simp: list_ex_iff)
  have jail: "Dir ?jail \<in> h_objects g \<or> remove_dir_all ?jail g = g"
  proof (cases "jail_objects node a \<subseteq> h_objects h")
    case False
    then have "ob \<in> h_objects g \<Longrightarrow> \<not> dir_under ?jail ob" for ob
      using L wf(1) procs(2) by (cases ob) (force simp: laid_def dir_under_def clear_of_def owned_iff)+
    moreover have "under ?jail d \<Longrightarrow> h_files g (d, n) = None" for d n
      using False files procs(3) clear_of_files[OF wf] by simp
    ultimately show ?thesis by (auto simp: remove_dir_all_def fun_eq_iff intro!: host.equality)
  qed (use procs in \<open>simp add: jail_objects_def\<close>)
  have "removable st g" if "st \<in> set (undo_steps node (host_id a))" for st
    using that cg jail by (auto simp: undo_steps_def removable_def)
  then show ?thesis using set_take_subset[of k "undo_steps node (host_id a)"] by (auto simp: list_all_iff)
qed

lemma teardown_laid:
  assumes wf: "clear_of node a h0" "host_wf node h0" and u: "faultless u"
    and new: "o_process out \<notin> fst ` set (h_procs h0)" and L: "laid out node a log h0 b k k (v, h)"
    and files: "h_files h = h_files h0 \<or> 1 < k \<and> jail_objects node a \<subseteq> h_objects h"
    and same: "\<And>d n. d \<noteq> jail_root node a \<Longrightarrow> h_files h (d, n) = h_files h0 (d, n)"
  shows "\<exists>c. snd (teardown u v h) = h0\<lparr>h_consoles := (h_consoles h0)(log := c)\<rparr>"
proof -
  let ?us = "undo_steps node (host_id a)"
  let ?g = "case vm_vmm v of None \<Rightarrow> h | Some vmm \<Rightarrow> kill vmm h"
  have "filter (\<lambda>(q, _). q \<noteq> o_process out) (h_procs h0) = h_procs h0"
    using new by (intro filter_True) force
  then have g: "h_procs ?g = h_procs h0" "h_objects ?g = h_objects h" "h_files ?g = h_files h" "h_consoles ?g = h_consoles h" "h_paused ?g = h_paused h"
    using L by (auto simp: laid_def kill_def split: if_splits)
  have undo: "vm_undo v = take k ?us" using L by (simp add: laid_def)
  have "unwind u (rev (take k ?us)) ?g = without (rev (take k ?us)) ?g"
    using removable_laid[OF wf L _ g(1,2,3)] files by (intro unwind_without[OF u]) blast
  then have td: "snd (teardown u v h) = without (rev (take k ?us)) ?g" by (simp add: teardown_def Let_def undo)
  have ex: "list_ex P (rev xs) = list_ex P xs" for P and xs :: "undo list" by (simp add: list_ex_iff)
  have objects: "h_objects (snd (teardown u v h)) = h_objects h0"
    unfolding td using L wf(1) take_undo_owned[of _ k node a]
    by (auto simp: without_def ex g laid_def clear_of_def)
  have "h_files (snd (teardown u v h)) (d, n) = h_files h0 (d, n)" for d n
    unfolding td using files same[of d n] clear_of_files[OF wf, of d n] under_jail_root[of node a]
    by (cases "under (jail_dir node (host_id a)) d"; cases "d = jail_root node a")
      (auto simp: without_def ex g file_undone_take simp del: under_jail_root)
  then have "h_files (snd (teardown u v h)) = h_files h0" by auto
  with objects L show ?thesis
    unfolding td by (intro exI[of _ "h_consoles h log"]) (auto simp: without_def g laid_def intro!: host.equality)
qed


lemma failed_start_host:
  assumes "vm_start out u node spec h = (Inl e, h')"
    and "clear_of node (vs_vm_address spec) h" and "host_wf node h" and "faultless u"
    and "o_process out \<notin> fst ` set (h_procs h)"
  shows "\<exists>c. h' = h\<lparr>h_consoles := (h_consoles h)(vs_console_log spec := c)\<rparr>"
proof -
  let ?a = "vs_vm_address spec" and ?log = "vs_console_log spec"
  obtain v g where st: "start_steps out node spec (vm_empty ?log, h) = (Inl e, v, g)" and h': "h' = snd (teardown u v g)"
    using assms(1) by (auto simp: vm_start_def split: prod.splits sum.splits)
  have "fresh (vm_empty ?log, h) ?log h" by (simp add: fresh_def)
  from tripleD(2)[OF start_steps_in_jail this st]
  consider (host) b k where "laid out node ?a ?log h b k k (v, g)" "h_files g = h_files h"
    | (jail) "in_jail out node ?a ?log h (v, g)"
    by (auto simp: start_stopped_def stopped_def progress_def)
  then show ?thesis
  proof cases
    case host
    with teardown_laid[OF assms(2,3,4,5) host(1)] show ?thesis by (simp add: h')
  next
    case jail
    with teardown_laid[OF assms(2,3,4,5), of ?log True 4 v g] show ?thesis
      by (simp add: h' in_jail_def progress_def)
  qed
qed


text \<open>C3: a start that fails, at whatever step and with whatever part of it done, leaves the Node as it was but for
  the console log: its namespace, link, jail, cgroup and VMM are gone, and nothing of another VM is touched.\<close>

theorem failed_start_leaves_nothing:
  assumes "vm_start out u node spec h = (Inl e, h')"
    and "clear_of node (vs_vm_address spec) h" and "host_wf node h" and "faultless u"
    and "o_process out \<notin> fst ` set (h_procs h)"
  shows "\<exists>c. h' = h\<lparr>h_consoles := (h_consoles h)(vs_console_log spec := c)\<rparr>"
  using assms by (rule failed_start_host)

subsection \<open>A started VM and one taken back\<close>

definition kept :: "vm \<Rightarrow> object set \<Rightarrow> vm_state \<Rightarrow> bool" where
  "kept v obs s \<longleftrightarrow> fst s = v \<and> h_objects (snd s) = obs"

lemma kept_steps:
  "triple (kept v obs) (attempt r) (\<lambda>_. kept v obs) (\<lambda>_. True)"
  "triple (kept v obs) (calls out c what) (\<lambda>_. kept v obs) (\<lambda>_. True)"
  "triple (kept v obs) (write_file f content what) (\<lambda>_. kept v obs) (\<lambda>_. True)"
  "triple (kept v obs) (copy_kernel out root) (\<lambda>_. kept v obs) (\<lambda>_. True)"
  "triple (kept v obs) (console_answers g) (\<lambda>_. kept v obs) (\<lambda>_. True)"
  by (auto simp: triple_def kept_def calls_def attempt_def ret_def fail_def write_file_def copy_kernel_def bindv_def
      console_answers_def split: option.splits sum.splits prod.splits)

lemma start_steps_ok:
  assumes "start_steps out node spec (vm_empty log, h0) = (Inr x, v, h)"
  shows "v = started_vm out node (vs_vm_address spec) log" and "h_objects h = h_objects h0 \<union> vm_objects node (vs_vm_address spec)"
proof -
  let ?a = "vs_vm_address spec"
  let ?K = "kept (started_vm out node ?a log) (h_objects h0 \<union> vm_objects node ?a)"
  have hs: "triple (\<lambda>s. fresh s log h0) (host_steps out node ?a mem_mib vcpus app) (\<lambda>_. ?K) (\<lambda>_. True)" for mem_mib vcpus app
    unfolding triple_def fresh_def kept_def
    by (auto split: prod.splits sum.splits dest!: host_steps_ok)
  note seq = triple_bindv_unit
  have "triple (\<lambda>s. fresh s log h0) (start_steps out node spec) (\<lambda>_. ?K) (\<lambda>_. True)"
    unfolding start_steps_def Let_def
    by (rule seq[OF hs] seq[OF kept_steps(1)] seq[OF kept_steps(2)] seq[OF kept_steps(3)] seq[OF kept_steps(4)]
        seq[OF kept_steps(5)] kept_steps(5))+
  from tripleD(1)[OF this _ assms] have "?K (v, h)" by (simp add: fresh_def)
  then show "v = started_vm out node ?a log" "h_objects h = h_objects h0 \<union> vm_objects node ?a" by (simp_all add: kept_def)
qed

lemma adopt_started:
  "adopt node a (o_process out) log = (started_vm out node a log)\<lparr>vm_vmm := Some (Adopted (o_process out) (cgroup_dir (host_id a)))\<rparr>"
  by (simp add: adopt_def started_vm_def jail_root_def Let_def)

text \<open>C40: a VM that an agent has started, and the same VM as a later agent takes it back from its record, are torn down
  alike, and completely: the Node is then as it was before the start, but for the console log.\<close>

theorem adopted_vm_torn_down_alike:
  assumes "vm_start out u node spec h = (Inr v, h')"
    and "clear_of node (vs_vm_address spec) h" and "host_wf node h" and "faultless u"
    and "o_process out \<notin> fst ` set (h_procs h)"
  shows "\<exists>p c. vm_process v = Some p \<and>
     snd (teardown u v h') = h\<lparr>h_consoles := (h_consoles h)(vs_console_log spec := c)\<rparr> \<and>
     snd (teardown u (adopt node (vs_vm_address spec) p (vs_console_log spec)) h') = snd (teardown u v h')"
proof -
  let ?a = "vs_vm_address spec" and ?log = "vs_console_log spec" and ?p = "o_process out"
  have st: "start_steps out node spec (vm_empty ?log, h) = (Inr (), v, h')"
    using assms(1) by (auto simp: vm_start_def split: prod.splits sum.splits)
  note v = start_steps_ok(1)[OF st]
  have "fresh (vm_empty ?log, h) ?log h" by (simp add: fresh_def)
  from tripleD(1)[OF start_steps_in_jail this st] have J: "in_jail out node ?a ?log h (v, h')" .
  then have procs: "h_procs h' = (?p, cgroup_dir (host_id ?a)) # h_procs h"
    by (simp add: in_jail_def progress_def laid_def)
  have "filter (\<lambda>(q, _). q \<noteq> ?p) (h_procs h') = h_procs h" "filter (\<lambda>(_, c). c \<noteq> cgroup_dir (host_id ?a)) (h_procs h') = h_procs h"
    using assms(5) clear_of_procs[OF assms(2,3)] by (force simp: procs intro!: filter_True)+
  then have "snd (teardown u (adopt node ?a ?p ?log) h') = snd (teardown u v h')"
    by (simp add: v adopt_started teardown_def kill_def started_vm_def)
  moreover have "\<exists>c. snd (teardown u v h') = h\<lparr>h_consoles := (h_consoles h)(?log := c)\<rparr>"
    using teardown_laid[OF assms(2,3,4,5), of ?log True 4 v h'] J by (simp add: in_jail_def progress_def)
  ultimately show ?thesis by (auto simp: v started_vm_def)
qed

subsection \<open>An example\<close>

definition vm_demo_node :: node_config where
  "vm_demo_node = \<lparr>nc_firecracker = ''/fc'', nc_jail_base = ''/j'', nc_node_address = 0x0A4D0001\<rparr>"

definition vm_demo_spec :: vm_spec where
  "vm_demo_spec = \<lparr>vs_vm_address = 0x0A4D0002, vs_rootfs = ''/r'', vs_mem_mib = 256, vs_vcpus = 1,
     vs_guest = \<lparr>gc_exec = ''/app'', gc_args = [], gc_env = [], gc_workdir = None, gc_user = None\<rparr>, vs_console_log = ''/l''\<rparr>"

definition vm_demo_outside :: "(call \<Rightarrow> string option) \<Rightarrow> outside" where
  "vm_demo_outside fault = \<lparr>o_fault = fault, o_process = \<lparr>pid = 7, start_time = 1\<rparr>, o_identified = True, o_jail = True,
     o_cgroup = True, o_output = ''boot'', o_batch = (\<lambda>_. None), o_socket = (\<lambda>_. True), o_exit = (\<lambda>_. None), o_late = (\<lambda>_. False),
     o_status = (\<lambda>_. []), o_config = (\<lambda>_. None), o_config_exit = (\<lambda>_. None), o_config_late = (\<lambda>_. False),
     o_grace = None, o_kernel = ''k'', o_rootfs = ''r'', o_rename = (\<lambda>_ _. None)\<rparr>"

definition vm_demo_undoing :: undoing where
  "vm_demo_undoing = \<lparr>u_fault = (\<lambda>_. None), u_busy = (\<lambda>_. 1)\<rparr>"

definition vm_demo_host :: host where
  "vm_demo_host = \<lparr>h_objects = {Netns ''other''}, h_files = (\<lambda>_. None), h_consoles = (\<lambda>_. None), h_procs = [], h_paused = []\<rparr>"

definition no_nft :: "call \<Rightarrow> string option" where
  "no_nft c = (case c of Nft _ \<Rightarrow> Some ''nft'' | _ \<Rightarrow> None)"

lemma vm_demo_ok:
  "host_wf node vm_demo_host" "clear_of node a vm_demo_host" "faultless vm_demo_undoing"
  "o_process out \<notin> fst ` set (h_procs vm_demo_host)"
proof -
  have "host_id a \<noteq> ''other''" by (simp add: host_id_def)
  then show "clear_of node a vm_demo_host" by (auto simp: clear_of_def vm_demo_host_def owned_iff)
qed (simp_all add: host_wf_def vm_demo_host_def faultless_def vm_demo_undoing_def CGROUP_POLL_ATTEMPTS_def)

lemmas vm_eval = vm_start_def start_steps_def host_steps_def Let_def act_defs calls_def on_vm_def on_host_def push_undo_def
  socket_up_def await_socket.simps[of _ _ _ 0] copy_kernel_def write_file_def console_answers_def deliver_config.simps[of _ _ 0]
  grace_def ip_batch_def jail_objects_def add_objects_def make_link_def

lemma vm_demo_fails: "isl (fst (vm_start (vm_demo_outside no_nft) vm_demo_undoing vm_demo_node vm_demo_spec vm_demo_host))"
  by (simp add: vm_eval vm_demo_outside_def no_nft_def)

lemma vm_demo_starts: "\<not> isl (fst (vm_start (vm_demo_outside (\<lambda>_. None)) vm_demo_undoing vm_demo_node vm_demo_spec vm_demo_host))"
  by (simp add: vm_eval vm_demo_outside_def CONFIG_TRIES_def)

theorem failed_start_leaves_nothing_witness:
  "\<exists>c. snd (vm_start (vm_demo_outside no_nft) vm_demo_undoing vm_demo_node vm_demo_spec vm_demo_host) =
     vm_demo_host\<lparr>h_consoles := (h_consoles vm_demo_host)(''/l'' := c)\<rparr>"
proof -
  obtain e h' where st: "vm_start (vm_demo_outside no_nft) vm_demo_undoing vm_demo_node vm_demo_spec vm_demo_host = (Inl e, h')"
    using vm_demo_fails by (metis isl_def prod.collapse)
  have log: "vs_console_log vm_demo_spec = ''/l''" by (simp add: vm_demo_spec_def)
  from failed_start_leaves_nothing[OF st vm_demo_ok(2,1,3,4)] show ?thesis unfolding st log by simp
qed

theorem adopted_vm_torn_down_alike_witness:
  "\<exists>v h'. vm_start (vm_demo_outside (\<lambda>_. None)) vm_demo_undoing vm_demo_node vm_demo_spec vm_demo_host = (Inr v, h') \<and>
     (\<exists>p c. vm_process v = Some p \<and>
       snd (teardown vm_demo_undoing v h') = vm_demo_host\<lparr>h_consoles := (h_consoles vm_demo_host)(''/l'' := c)\<rparr> \<and>
       snd (teardown vm_demo_undoing (adopt vm_demo_node 0x0A4D0002 p ''/l'') h') = snd (teardown vm_demo_undoing v h'))"
proof -
  obtain v h' where st: "vm_start (vm_demo_outside (\<lambda>_. None)) vm_demo_undoing vm_demo_node vm_demo_spec vm_demo_host = (Inr v, h')"
    using vm_demo_starts by (metis isl_def old.sum.exhaust prod.collapse)
  have spec: "vs_console_log vm_demo_spec = ''/l''" "vs_vm_address vm_demo_spec = 0x0A4D0002" by (simp_all add: vm_demo_spec_def)
  from adopted_vm_torn_down_alike[OF st vm_demo_ok(2,1,3,4)] st show ?thesis unfolding spec by blast
qed
end
