(* ===== verification/Vm_Hosts.thy ===== *)
theory Vm_Hosts
  imports
    Vm_Undone
begin

section \<open>Cleaning up after VMs, and the agent's view of it\<close>

text \<open>
  \<open>vm::clean_up\<close> removes everything of one VM and nothing else. The agent's model keeps of the Node only
  the addresses that have host objects (\<open>ag_hosts\<close>); \<open>hosts\<close> is that view of a Node, and the lemmas say
  that a start, a teardown and the sweep at startup do to it what the agent's model says they do.
\<close>

definition hosts :: "node_config \<Rightarrow> subnet \<Rightarrow> host \<Rightarrow> ipv4 set" where
  "hosts node s h = {a \<in> set (vm_addresses s). \<not> clear_of node a h}"

lemma clear_of_iff: "clear_of node a h \<longleftrightarrow> (\<forall>ob. owned node a ob \<longrightarrow> ob \<notin> h_objects h)"
  by (auto simp: clear_of_def)

lemma owned_vm_objects: "ob \<in> vm_objects node a \<Longrightarrow> owned node a ob"
  by (auto simp: vm_objects_def jail_objects_def owned_iff)

subsection \<open>One VM\<close>

lemma clean_up_eq:
  assumes wf: "host_wf node h" and u: "faultless u"
  shows "clean_up u node a h =
    without (rev (undo_steps node (host_id a))) (h\<lparr>h_procs := filter (\<lambda>(_, c). c \<noteq> cgroup_dir (host_id a)) (h_procs h)\<rparr>)"
proof -
  let ?g = "h\<lparr>h_procs := filter (\<lambda>(_, c). c \<noteq> cgroup_dir (host_id a)) (h_procs h)\<rparr>"
  let ?jail = "jail_dir node (host_id a)"
  have kill: "kill_cgroup (cgroup_dir (host_id a)) h = ?g"
  proof (cases "Cgroup (cgroup_dir (host_id a)) \<in> h_objects h")
    case False
    with wf have "filter (\<lambda>(_, c). c \<noteq> cgroup_dir (host_id a)) (h_procs h) = h_procs h"
      by (intro filter_True) (auto simp: host_wf_def)
    with False show ?thesis by (simp add: kill_cgroup_def)
  qed (simp add: kill_cgroup_def)
  have "Dir ?jail \<in> h_objects ?g \<or> remove_dir_all ?jail ?g = ?g"
  proof (cases "Dir ?jail \<in> h_objects h")
    case False
    with wf have "ob \<in> h_objects h \<Longrightarrow> \<not> dir_under ?jail ob" for ob
      by (cases ob) (auto simp: host_wf_def dir_under_def)
    moreover have "under ?jail d \<Longrightarrow> h_files h (d, n) = None" for d n
      using False wf unfolding host_wf_def by blast
    ultimately show ?thesis by (auto simp: remove_dir_all_def fun_eq_iff intro!: host.equality)
  qed simp
  then have "list_all (\<lambda>st. removable st ?g) (rev (undo_steps node (host_id a)))"
    by (auto simp: undo_steps_def removable_def list_ex_iff)
  with u show ?thesis by (simp add: clean_up_def Let_def kill unwind_without)
qed

lemma clean_up_exact:
  assumes wf: "host_wf node h" and u: "faultless u"
  shows "h_objects (clean_up u node a h) = {ob \<in> h_objects h. \<not> owned node a ob}"
    and "h_files (clean_up u node a h) (d, n) = (if under (jail_dir node (host_id a)) d then None else h_files h (d, n))"
    and "h_procs (clean_up u node a h) = filter (\<lambda>(_, c). c \<noteq> cgroup_dir (host_id a)) (h_procs h)"
    and "h_consoles (clean_up u node a h) = h_consoles h"
proof -
  have ex: "list_ex P (rev xs) = list_ex P xs" for P and xs :: "undo list" by (simp add: list_ex_iff)
  note eq = clean_up_eq[OF assms]
  show "h_objects (clean_up u node a h) = {ob \<in> h_objects h. \<not> owned node a ob}"
    by (auto simp: eq without_def ex owned_def)
  show "h_files (clean_up u node a h) (d, n) = (if under (jail_dir node (host_id a)) d then None else h_files h (d, n))"
    by (auto simp: eq without_def undo_steps_def file_undone_def)
  show "h_procs (clean_up u node a h) = filter (\<lambda>(_, c). c \<noteq> cgroup_dir (host_id a)) (h_procs h)"
    "h_consoles (clean_up u node a h) = h_consoles h"
    by (simp_all add: eq without_def)
qed

lemma clean_up_wf:
  assumes wf: "host_wf node h" and u: "faultless u"
  shows "host_wf node (clean_up u node a h)"
proof -
  let ?h = "clean_up u node a h"
  have files: "Dir d \<in> h_objects ?h" if "h_files ?h (d, n) \<noteq> None" for d n
    using that wf by (auto simp: clean_up_exact[OF assms] host_wf_def owned_iff split: if_splits)
  have dirs: "Dir (jail_dir node (host_id b)) \<in> h_objects ?h"
    if "Dir d \<in> h_objects ?h" "under (jail_dir node (host_id b)) d" for b d
  proof -
    from that wf have "Dir d \<in> h_objects h" "\<not> under (jail_dir node (host_id a)) d" "Dir (jail_dir node (host_id b)) \<in> h_objects h"
      by (auto simp: clean_up_exact[OF assms] owned_iff host_wf_def)
    moreover then have "\<not> under (jail_dir node (host_id a)) (jail_dir node (host_id b))"
      using that(2) under_trans by blast
    ultimately show ?thesis by (simp add: clean_up_exact[OF assms] owned_iff)
  qed
  have procs: "Cgroup c \<in> h_objects ?h" if "(p, c) \<in> set (h_procs ?h)" for p c
    using that wf by (auto simp: clean_up_exact[OF assms] owned_iff host_wf_def)
  show ?thesis unfolding host_wf_def using files dirs procs by blast
qed

lemma clean_up_hosts:
  assumes s: "subnet_ok s" and wf: "host_wf node h" and u: "faultless u" and a: "a \<in> set (vm_addresses s)"
  shows "hosts node s (clean_up u node a h) = hosts node s h - {a}"
proof -
  have "clear_of node b (clean_up u node a h) \<longleftrightarrow> b = a \<or> clear_of node b h" if "b \<in> set (vm_addresses s)" for b
  proof (cases "b = a")
    case False
    then have "owned node b ob \<Longrightarrow> \<not> owned node a ob" for ob
      using owned_one[of node a ob b] host_id_inj[OF s a that] by blast
    with False show ?thesis by (auto simp: clear_of_iff clean_up_exact[OF wf u])
  qed (simp add: clear_of_iff clean_up_exact[OF wf u])
  then show ?thesis by (auto simp: hosts_def)
qed

lemma clean_ups_hosts:
  assumes "subnet_ok s" and "host_wf node h" and "faultless u" and "set as \<subseteq> set (vm_addresses s)"
  shows "hosts node s (fold (clean_up u node) as h) = hosts node s h - set as \<and> host_wf node (fold (clean_up u node) as h)"
  using assms by (induction as arbitrary: h) (auto simp: clean_up_hosts clean_up_wf)

subsection \<open>The sweep\<close>

text \<open>The names \<open>host_state_owners\<close> reads: of namespaces, network devices, jails and cgroups.\<close>

definition host_names :: "node_config \<Rightarrow> host \<Rightarrow> string set" where
  "host_names node h =
     {n. Netns n \<in> h_objects h \<or> Link n \<in> h_objects h \<or> Dir (jail_dir node n) \<in> h_objects h \<or> Cgroup (cgroup_dir n) \<in> h_objects h}"

lemma host_has_name: "host_wf node h \<Longrightarrow> \<not> clear_of node a h \<Longrightarrow> host_id a \<in> host_names node h"
proof -
  assume wf: "host_wf node h" and "\<not> clear_of node a h"
  then obtain ob where ob: "ob \<in> h_objects h" "owned node a ob" by (auto simp: clear_of_def)
  show ?thesis
  proof (cases ob)
    case (Dir d)
    with ob wf have "Dir (jail_dir node (host_id a)) \<in> h_objects h" by (auto simp: owned_iff host_wf_def)
    then show ?thesis by (simp add: host_names_def)
  qed (use ob in \<open>auto simp: owned_iff host_names_def\<close>)
qed

text \<open>C7: the sweep at startup removes from the Node everything of every VM no registered VM has the address of, and keeps
  everything of the others: what the agent's model says of the addresses with host objects is what cleaning up does to the
  objects themselves.\<close>

theorem sweep_refines_hosts:
  assumes "subnet_ok (ag_subnet ag)" and "host_wf node h" and "faultless u"
    and "set (concat names) = host_names node h" and "set (ag_hosts ag) = hosts node (ag_subnet ag) h"
  shows "hosts node (ag_subnet ag) (fold (clean_up u node) (swept (ag_subnet ag) (ag_vms ag) names) h)
           = set (ag_hosts (sweep_host_state names ag)) \<and>
         set (ag_hosts (sweep_host_state names ag)) = hosts node (ag_subnet ag) h \<inter> set (held_addresses (ag_vms ag))"
proof -
  have cover: "names_cover names (ag_hosts ag)"
    using host_has_name[OF assms(2)] assms(4,5) by (auto simp: names_cover_def hosts_def)
  have sub: "set (ag_hosts ag) \<subseteq> set (vm_addresses (ag_subnet ag))" using assms(5) by (auto simp: hosts_def)
  have "set (swept (ag_subnet ag) (ag_vms ag) names) \<subseteq> set (vm_addresses (ag_subnet ag))"
    using swept_free by blast
  from clean_ups_hosts[OF assms(1,2,3) this] sweep_exact[OF assms(1) sub cover] assms(5)
  show ?thesis by (auto simp: sweep_host_state_def)
qed

text \<open>A start that works adds the VM's address to those with host objects, one that fails adds none, and
  tearing the VM down takes its address away again; no other address is concerned.\<close>

theorem start_refines_hosts:
  assumes "subnet_ok s" and "vs_vm_address spec \<in> set (vm_addresses s)"
    and "clear_of node (vs_vm_address spec) h" and "host_wf node h" and "faultless u"
    and "o_process out \<notin> fst ` set (h_procs h)"
  shows "hosts node s (snd (vm_start out u node spec h)) =
           (case fst (vm_start out u node spec h) of
              Inl _ \<Rightarrow> hosts node s h
            | Inr _ \<Rightarrow> insert (vs_vm_address spec) (hosts node s h))"
proof -
  let ?a = "vs_vm_address spec"
  obtain r h' where st: "vm_start out u node spec h = (r, h')" by (cases "vm_start out u node spec h")
  have cong: "hosts node s g = hosts node s h" if "h_objects g = h_objects h" for g
    using that by (simp add: hosts_def clear_of_def)
  show ?thesis
  proof (cases r)
    case (Inl e)
    from failed_start_host[OF st[unfolded Inl] assms(3,4,5,6)] have "h_objects h' = h_objects h" by auto
    with cong[of h'] Inl st show ?thesis by simp
  next
    case (Inr v)
    then have "start_steps out node spec (vm_empty (vs_console_log spec), h) = (Inr (), v, h')"
      using st by (auto simp: vm_start_def split: prod.splits sum.splits)
    from start_steps_ok(2)[OF this] have obs: "h_objects h' = h_objects h \<union> vm_objects node ?a" .
    have "clear_of node b h' \<longleftrightarrow> b \<noteq> ?a \<and> clear_of node b h" if b: "b \<in> set (vm_addresses s)" for b
    proof (cases "b = ?a")
      case True
      have "Netns (host_id ?a) \<in> h_objects h'" by (simp add: obs vm_objects_def)
      with True show ?thesis by (force simp: clear_of_def owned_iff)
    next
      case False
      then have "owned node b ob \<Longrightarrow> ob \<notin> vm_objects node ?a" for ob
        using owned_one[of node ?a ob b] owned_vm_objects host_id_inj[OF assms(1,2) b] by blast
      with False show ?thesis by (auto simp: clear_of_iff obs)
    qed
    with Inr st assms(2) show ?thesis by (auto simp: hosts_def)
  qed
qed

definition vm_demo_subnet :: subnet where
  "vm_demo_subnet = \<lparr>network = 0x0A4D0000, prefix_len = 28\<rparr>"

lemma vm_demo_subnet_ok: "subnet_ok vm_demo_subnet" "0x0A4D0002 \<in> set (vm_addresses vm_demo_subnet)"
  by (simp_all add: vm_demo_subnet_def subnet_eval)

theorem start_refines_hosts_witness:
  "hosts vm_demo_node vm_demo_subnet (snd (vm_start (vm_demo_outside (\<lambda>_. None)) vm_demo_undoing vm_demo_node vm_demo_spec vm_demo_host))
     = {0x0A4D0002}"
proof -
  have spec: "vs_vm_address vm_demo_spec = 0x0A4D0002" by (simp add: vm_demo_spec_def)
  have "hosts vm_demo_node vm_demo_subnet vm_demo_host = {}" using vm_demo_ok(2) by (simp add: hosts_def)
  with start_refines_hosts[OF vm_demo_subnet_ok(1) _ vm_demo_ok(2,1,3,4), of vm_demo_spec vm_demo_node "vm_demo_outside (\<lambda>_. None)"]
    vm_demo_subnet_ok(2) vm_demo_starts spec
  show ?thesis by (auto simp: isl_def split: sum.splits)
qed

text \<open>A namespace of a VM no agent knows of.\<close>

definition vm_demo_left :: host where
  "vm_demo_left = vm_demo_host\<lparr>h_objects := {Netns (host_id 0x0A4D0002)}\<rparr>"

definition vm_demo_agent :: agent where
  "vm_demo_agent = agent_new vm_demo_subnet ''/s'' fresh_store [] [] [0x0A4D0002]"

lemma vm_demo_left_hosts: "hosts vm_demo_node vm_demo_subnet vm_demo_left = {0x0A4D0002}"
proof -
  have "clear_of vm_demo_node a vm_demo_left \<longleftrightarrow> a \<noteq> 0x0A4D0002" if "a \<in> set (vm_addresses vm_demo_subnet)" for a
    using host_id_inj[OF vm_demo_subnet_ok(1) that vm_demo_subnet_ok(2)]
    by (auto simp: clear_of_def vm_demo_left_def owned_iff)
  then show ?thesis using vm_demo_subnet_ok(2) by (auto simp: hosts_def)
qed

theorem sweep_refines_hosts_witness:
  "hosts vm_demo_node vm_demo_subnet
     (fold (clean_up vm_demo_undoing vm_demo_node) (swept vm_demo_subnet [] [[host_id 0x0A4D0002]]) vm_demo_left) = {}"
proof -
  have ag: "ag_subnet vm_demo_agent = vm_demo_subnet" "ag_vms vm_demo_agent = []" "ag_hosts vm_demo_agent = [0x0A4D0002]"
    by (simp_all add: vm_demo_agent_def agent_new_def)
  have wf: "host_wf vm_demo_node vm_demo_left" by (simp add: host_wf_def vm_demo_left_def vm_demo_host_def)
  have names: "set (concat [[host_id 0x0A4D0002]]) = host_names vm_demo_node vm_demo_left"
    by (auto simp: host_names_def vm_demo_left_def)
  from sweep_refines_hosts[of vm_demo_agent, unfolded ag, OF vm_demo_subnet_ok(1) wf vm_demo_ok(3) names] vm_demo_left_hosts
  show ?thesis by (simp add: held_addresses_def)
qed

end
