(* ===== verification/Vm_Park.thy ===== *)
theory Vm_Park
  imports
    Vm_Undone
begin

section \<open>Parking and waking\<close>

text \<open>
  \<open>park\<close> of \<open>cirro-node/src/vm.rs\<close>, and what it and \<open>Vm::wake\<close> do to the files of a snapshot: a park that
  works moves the machine's state, memory and disk out of the jail; a wake brings exactly these back; one
  that fails leaves them where they were.
\<close>

datatype parking = Resumed vm_error | Lost vm_error

text \<open>What Firecracker writes of a paused machine, and what of it when it fails.\<close>

record snapshot =
  sn_vmstate :: string
  sn_mem :: string

definition write_snapshot :: "path \<Rightarrow> snapshot \<Rightarrow> host \<Rightarrow> host" where
  "write_snapshot root sn h =
     h\<lparr>h_files := (h_files h)((root, PARK_FILES ! 0) \<mapsto> sn_vmstate sn, (root, PARK_FILES ! 1) \<mapsto> sn_mem sn)\<rparr>"

definition remove_files :: "path \<Rightarrow> string list \<Rightarrow> host \<Rightarrow> host" where
  "remove_files dir names h = h\<lparr>h_files := (\<lambda>(d, n). if d = dir \<and> n \<in> set names then None else h_files h (d, n))\<rparr>"

definition park_steps :: "outside \<Rightarrow> snapshot \<Rightarrow> vmm \<Rightarrow> path \<Rightarrow> path \<Rightarrow> host \<Rightarrow> (parking + unit) \<times> host" where
  "park_steps out sn v root into h =
     (case o_fault out Snapshot_dir of
        Some e \<Rightarrow> (Inl (Resumed (err ''create the snapshot directory'' e)), h)
      | None \<Rightarrow>
          let h = add_objects {Dir into} h
          in case o_fault out Pause of
               Some e \<Rightarrow> (Inl (Resumed (err ''pause the VM'' e)), h)
             | None \<Rightarrow>
                 let h = h\<lparr>h_paused := vmm_process v # h_paused h\<rparr>
                 in case o_fault out Create_snapshot of
                      Some e \<Rightarrow>
                        let h = remove_files root [PARK_FILES ! 0, PARK_FILES ! 1] h
                        in (case o_fault out Resume of
                              None \<Rightarrow> (Inl (Resumed (err ''snapshot the VM'' e)), h\<lparr>h_paused := removeAll (vmm_process v) (h_paused h)\<rparr>)
                            | Some r \<Rightarrow>
                                (Inl (Lost (''snapshot the VM: '' @ e @ ''; then resuming it failed too ('' @ r @ ''), so it was stopped'')), h))
                    | None \<Rightarrow>
                        (case move_files out root PARK_FILES into SNAPSHOT_FILES (kill v (write_snapshot root sn h)) of
                           (None, h) \<Rightarrow> (Inr (), h)
                         | (Some e, h) \<Rightarrow> (Inl (Lost (err ''move the snapshot out of the jail, so the VM was stopped'' e)), h)))"

definition park :: "outside \<Rightarrow> snapshot \<Rightarrow> vmm \<Rightarrow> path \<Rightarrow> path \<Rightarrow> host \<Rightarrow> (parking + unit) \<times> host" where
  "park out sn v root into h =
     (case park_steps out sn v root into h of
        (Inl e, h) \<Rightarrow> (Inl e, remove_dir_all into h)
      | (Inr _, h) \<Rightarrow> (Inr (), h))"


subsection \<open>Moving three files\<close>

lemma rename_file_frame [simp]:
  "h_objects (snd (rename_file out f t h)) = h_objects h" "h_procs (snd (rename_file out f t h)) = h_procs h"
  "h_consoles (snd (rename_file out f t h)) = h_consoles h" "h_paused (snd (rename_file out f t h)) = h_paused h"
  by (auto simp: rename_file_def split: option.splits)

lemma move_pairs_frame:
  "h_objects (snd (move_pairs out s d ps r h)) = h_objects h \<and> h_procs (snd (move_pairs out s d ps r h)) = h_procs h \<and>
   h_consoles (snd (move_pairs out s d ps r h)) = h_consoles h \<and> h_paused (snd (move_pairs out s d ps r h)) = h_paused h"
proof (induction ps arbitrary: r h)
  case (Cons p ps)
  obtain x y where p: "p = (x, y)" by (cases p)
  obtain e h' where rn: "rename_file out (s, x) (d, y) h = (e, h')" by (cases "rename_file out (s, x) (d, y) h")
  have "h_objects h' = h_objects h" "h_procs h' = h_procs h" "h_consoles h' = h_consoles h" "h_paused h' = h_paused h"
    using rename_file_frame[of out "(s, x)" "(d, y)" h] rn by simp_all
  with Cons show ?case by (simp add: p rn split: option.splits)
qed simp

lemmas move_files_frame [simp] = move_pairs_frame[of out s d "zip ns ms" None for out s d ns ms, folded move_files_def]

text \<open>The files of a move that fails anywhere can be moved back, and are then where they were.\<close>

lemma move_pairs_pending: "fst (move_pairs out s d ps (Some e) h) = Some e"
  by (induction ps arbitrary: h) (auto split: option.splits prod.splits)

text \<open>What a move does to the files, pair by pair.\<close>

definition moves :: "outside \<Rightarrow> path \<Rightarrow> path \<Rightarrow> string \<times> string \<Rightarrow> host \<Rightarrow> bool" where
  "moves out s d p h \<longleftrightarrow> h_files h (s, fst p) \<noteq> None \<and> Dir d \<in> h_objects h \<and> o_rename out (s, fst p) (d, snd p) = None"

definition moved :: "outside \<Rightarrow> path \<Rightarrow> path \<Rightarrow> (string \<times> string) list \<Rightarrow> host \<Rightarrow> path \<times> string \<Rightarrow> string option" where
  "moved out s d ps h = (\<lambda>(x, n).
     if x = s \<and> (\<exists>p \<in> set ps. fst p = n \<and> moves out s d p h) then None
     else if x = d then (case find (\<lambda>p. snd p = n \<and> moves out s d p h) ps of Some p \<Rightarrow> h_files h (s, fst p) | None \<Rightarrow> h_files h (x, n))
     else h_files h (x, n))"

lemma move_pairs_files:
  assumes "s \<noteq> d" and "distinct (map fst ps)" and "distinct (map snd ps)"
  shows "h_files (snd (move_pairs out s d ps r h)) = moved out s d ps h"
  using assms(2,3)
proof (induction ps arbitrary: r h)
  case Nil
  then show ?case by (auto simp: moved_def)
next
  case (Cons p ps)
  obtain x y where p: "p = (x, y)" by (cases p)
  obtain e h' where rn: "rename_file out (s, x) (d, y) h = (e, h')" by (cases "rename_file out (s, x) (d, y) h")
  have h': "h_objects h' = h_objects h"
    "h_files h' = (if moves out s d p h then (h_files h)((s, x) := None, (d, y) := h_files h (s, x)) else h_files h)"
    using rn assms(1) by (auto simp: rename_file_def moves_def p split: option.splits if_splits)
  have later: "moves out s d q h' = moves out s d q h" if "q \<in> set ps" for q
    using that Cons(2) assms(1) h' by (force simp: moves_def p)
  have "h_files (snd (move_pairs out s d (p # ps) r h)) = moved out s d ps h'"
    using Cons by (simp add: p rn split: option.splits)
  also have "moved out s d ps h' (z, n) = moved out s d (p # ps) h (z, n)" for z n
  proof -
    have finds: "find (\<lambda>q. snd q = n \<and> moves out s d q h') ps = find (\<lambda>q. snd q = n \<and> moves out s d q h) ps"
      using later by (intro find_cong) auto
    have none: "find (\<lambda>q. snd q = y \<and> moves out s d q h) ps = None" using Cons(3) by (force simp: find_None_iff p)
    have src: "h_files h' (s, fst q) = h_files h (s, fst q)" if "q \<in> set ps" for q
      using that Cons(2) assms(1) by (force simp: h' p)
    consider "z = s" | "z = d" | "z \<noteq> s" "z \<noteq> d" by blast
    then show ?thesis
    proof cases
      case 1
      with assms(1) later Cons(2) show ?thesis by (auto simp: moved_def h' p)
    next
      case 2
      then show ?thesis
      proof (cases "n = y")
        case True
        with finds none have "find (\<lambda>q. snd q = y \<and> moves out s d q h') ps = None" by simp
        with 2 True assms(1) none show ?thesis by (auto simp: moved_def h' p)
      next
        case False
        show ?thesis
        proof (cases "find (\<lambda>q. snd q = n \<and> moves out s d q h) ps")
          case None
          with False 2 assms(1) finds show ?thesis by (simp add: moved_def h' p)
        next
          case (Some q)
          then have "q \<in> set ps" by (auto simp: find_Some_iff)
          with False 2 assms(1) finds src[of q] Some show ?thesis by (simp add: moved_def p)
        qed
      qed
    next
      case 3
      then show ?thesis by (auto simp: moved_def h' p)
    qed
  qed
  then have "moved out s d ps h' = moved out s d (p # ps) h" by auto
  finally show ?case .
qed


lemma find_distinct:
  assumes "distinct (map f ps)" and "p \<in> set ps" and "P p"
  shows "find (\<lambda>q. f q = f p \<and> P q) ps = Some p"
  using assms by (induction ps) (auto simp: rev_image_eqI)

lemma moved_at:
  assumes "s \<noteq> d" and "distinct (map fst ps)" and "distinct (map snd ps)" and "p \<in> set ps"
  shows "moved out s d ps h (s, fst p) = (if moves out s d p h then None else h_files h (s, fst p))"
    and "moved out s d ps h (d, snd p) = (if moves out s d p h then h_files h (s, fst p) else h_files h (d, snd p))"
proof -
  have one: "q = p" if "q \<in> set ps" "fst q = fst p \<or> snd q = snd p" for q
    using that assms(2,3,4) by (auto simp: distinct_map inj_on_def)
  show "moved out s d ps h (s, fst p) = (if moves out s d p h then None else h_files h (s, fst p))"
    using assms(1,4) one by (auto simp: moved_def)
  show "moved out s d ps h (d, snd p) = (if moves out s d p h then h_files h (s, fst p) else h_files h (d, snd p))"
  proof (cases "moves out s d p h")
    case True
    with find_distinct[OF assms(3,4), of "\<lambda>q. moves out s d q h"] assms(1) show ?thesis by (simp add: moved_def)
  next
    case False
    then have "find (\<lambda>q. snd q = snd p \<and> moves out s d q h) ps = None" unfolding find_None_iff using one by blast
    with False assms(1) show ?thesis by (simp add: moved_def)
  qed
qed

lemma moved_elsewhere:
  assumes "x = s \<Longrightarrow> n \<notin> fst ` set ps" and "x = d \<Longrightarrow> n \<notin> snd ` set ps"
  shows "moved out s d ps h (x, n) = h_files h (x, n)"
proof -
  have "find (\<lambda>q. snd q = n \<and> moves out s d q h) ps = None" if "x = d"
    using assms(2)[OF that] by (force simp: find_None_iff)
  with assms(1) show ?thesis by (force simp: moved_def)
qed

lemma moved_nothing:
  assumes "\<And>p. \<not> moves out s d p h"
  shows "moved out s d ps h = h_files h"
proof -
  have "find (\<lambda>q. False) ps = None" by (induction ps) auto
  with assms show ?thesis by (auto simp: moved_def fun_eq_iff)
qed

lemma moved_back:
  assumes ne: "s \<noteq> d" and dist: "distinct (map fst ps)" "distinct (map snd ps)"
    and renames: "\<And>m n. o_rename out (d, m) (s, n) = None" and dir: "Dir s \<in> h_objects g"
    and free: "\<And>p. p \<in> set ps \<Longrightarrow> h_files h (d, snd p) = None" and g: "h_files g = moved out s d ps h"
  shows "moved out d s (map prod.swap ps) g = h_files h"
proof
  fix k :: "path \<times> string"
  obtain x n where k: "k = (x, n)" by (cases k)
  have dist': "distinct (map fst (map prod.swap ps))" "distinct (map snd (map prod.swap ps))"
    using dist by (simp_all add: comp_def)
  note at = moved_at[OF ne dist] and bk = moved_at[OF ne[symmetric] dist']
  have mv: "moves out d s (prod.swap p) g \<longleftrightarrow> moves out s d p h" if "p \<in> set ps" for p
    using at(2)[OF that] free[OF that] by (auto simp: moves_def g renames dir)
  show "moved out d s (map prod.swap ps) g k = h_files h k"
  proof (cases "(x = s \<and> n \<in> fst ` set ps) \<or> (x = d \<and> n \<in> snd ` set ps)")
    case True
    then consider p where "p \<in> set ps" "k = (s, fst p)" | p where "p \<in> set ps" "k = (d, snd p)" by (auto simp: k)
    then show ?thesis
    proof cases
      case 1
      with bk(2)[of "prod.swap p" out g] mv[OF 1(1)] at[OF 1(1)] show ?thesis by (auto simp: g)
    next
      case 2
      with bk(1)[of "prod.swap p" out g] mv[OF 2(1)] at[OF 2(1)] free[OF 2(1)] show ?thesis by (auto simp: g)
    qed
  next
    case False
    then have "moved out d s (map prod.swap ps) g (x, n) = h_files g (x, n)" "moved out s d ps h (x, n) = h_files h (x, n)"
      using ne by (intro moved_elsewhere; force)+
    then show ?thesis by (simp add: g k)
  qed
qed

lemma move_ok:
  assumes "fst (move_pairs out s d ps r h) = None" and "s \<noteq> d" and "distinct (map fst ps)"
  shows "r = None \<and> (\<forall>p \<in> set ps. moves out s d p h)"
  using assms
proof (induction ps arbitrary: r h)
  case (Cons p ps)
  obtain x y where p: "p = (x, y)" by (cases p)
  obtain e h' where rn: "rename_file out (s, x) (d, y) h = (e, h')" by (cases "rename_file out (s, x) (d, y) h")
  have e: "e = None"
    using Cons(2) move_pairs_pending[of out s d ps] rn by (auto simp: p split: option.splits if_splits)
  then have mv: "moves out s d p h" and h': "h_objects h' = h_objects h" "\<And>z. z \<noteq> x \<Longrightarrow> h_files h' (s, z) = h_files h (s, z)"
    using rn assms(2) by (auto simp: rename_file_def moves_def p split: option.splits if_splits)
  have "r = None \<and> (\<forall>q \<in> set ps. moves out s d q h')"
    using Cons(1)[of r h'] Cons(2,4) assms(2) rn e by (simp add: p)
  moreover have "moves out s d q h' \<Longrightarrow> moves out s d q h" if "q \<in> set ps" for q
  proof -
    have "fst q \<noteq> x" using that Cons(4) by (auto simp: p)
    then show "moves out s d q h' \<Longrightarrow> moves out s d q h" by (simp add: moves_def h')
  qed
  ultimately show ?case using mv by auto
qed simp


subsection \<open>A wake\<close>

abbreviation wake_pairs :: "(string \<times> string) list" where
  "wake_pairs \<equiv> zip SNAPSHOT_FILES WAKE_FILES"

lemma wake_pairs_eq: "wake_pairs = [(''vmstate'', ''wake.vmstate''), (''mem'', ''wake.mem''), (''rootfs.ext4'', ''rootfs.ext4'')]"
  by (simp add: SNAPSHOT_FILES_def WAKE_FILES_def)

lemma swapped_pairs: "zip WAKE_FILES SNAPSHOT_FILES = map prod.swap wake_pairs"
  by (simp add: SNAPSHOT_FILES_def WAKE_FILES_def)

lemma chown_files_state [simp]: "snd (chown_files out fs s) = s"
  by (induction fs arbitrary: s)
    (auto simp: ret_def bindv_def calls_def attempt_def fail_def split: option.splits sum.splits prod.splits)

lemma laid_move [simp]:
  "laid out node a log h0 b j k (v, snd (move_files out' s ns d ms h)) = laid out node a log h0 b j k (v, h)"
  by (cases b) (simp_all add: laid_def)

text \<open>A wake has stopped in the host steps, or has moved what it could of the snapshot into the jail.\<close>

lemma wake_steps_state:
  assumes "wake_steps out node spec (vm_empty log, h0) = (r, v, h)"
  obtains (host) "stopped out node (ws_vm_address spec) log h0 (\<lambda>f. f = h_files h0) (v, h)" "isl r"
  | (moved) g where "in_jail out node (ws_vm_address spec) log h0 (v, g)" "v = started_vm out node (ws_vm_address spec) log"
      "h_files g = h_files h0" "h = snd (move_files out (ws_snapshot spec) SNAPSHOT_FILES (jail_root node (ws_vm_address spec)) WAKE_FILES g)"
      "isl r \<or> fst (move_files out (ws_snapshot spec) SNAPSHOT_FILES (jail_root node (ws_vm_address spec)) WAKE_FILES g) = None"
proof -
  let ?a = "ws_vm_address spec"
  obtain r1 v1 h1 where hs: "host_steps out node ?a (ws_mem_mib spec) (ws_vcpus spec) True (vm_empty log, h0) = (r1, v1, h1)"
    by (metis prod.exhaust)
  have fr: "fresh (vm_empty log, h0) log h0" by (simp add: fresh_def)
  show ?thesis
  proof (cases r1)
    case (Inl e)
    with assms hs have "r = Inl e" "v = v1" "h = h1" by (auto simp: wake_steps_def bindv_def)
    with tripleD(2)[OF host_steps_in_jail fr] hs Inl host show ?thesis by simp
  next
    case (Inr uid)
    note ok = host_steps_ok[OF hs[unfolded Inr]]
    have J: "in_jail out node ?a log h0 (v1, h1)" using tripleD(1)[OF host_steps_in_jail fr hs[unfolded Inr]] .
    have root: "vm_jail_root v1 = jail_root node ?a" using ok by (simp add: started_vm_def)
    obtain m h2 where mv: "move_files out (ws_snapshot spec) SNAPSHOT_FILES (jail_root node ?a) WAKE_FILES h1 = (m, h2)"
      by (metis prod.exhaust)
    obtain c where c: "chown_files out WAKE_FILES (v1, h2) = (c, v1, h2)" using chown_files_state by (metis prod.collapse)
    have "v = v1 \<and> h = h2 \<and> (isl r \<or> m = None)"
    proof (cases m)
      case (Some e)
      with assms hs Inr mv root show ?thesis by (auto simp: wake_steps_def bindv_def move_in_def)
    next
      case None
      with assms hs Inr mv root c show ?thesis
        by (auto simp: wake_steps_def bindv_def move_in_def console_answers_def split: sum.splits)
    qed
    with J ok mv moved[of h1] show ?thesis by auto
  qed
qed

lemma put_back:
  assumes "wake_steps out node spec (vm_empty log, h0) = (r, v, h)"
    and wf: "clear_of node (ws_vm_address spec) h0" "host_wf node h0"
    and snap: "Dir (ws_snapshot spec) \<in> h_objects h0" "Dir [] \<notin> h_objects h0"
      "\<not> under (jail_dir node (host_id (ws_vm_address spec))) (ws_snapshot spec)"
    and renames: "\<And>m n. o_rename out (jail_root node (ws_vm_address spec), m) (ws_snapshot spec, n) = None"
  shows "h_files (snd (move_files out (vm_jail_root v) WAKE_FILES (ws_snapshot spec) SNAPSHOT_FILES h)) = h_files h0"
proof -
  let ?a = "ws_vm_address spec" and ?s = "ws_snapshot spec"
  let ?root = "jail_root node ?a"
  have ne: "?s \<noteq> ?root" using snap(3) by auto
  have dist: "distinct (map fst wake_pairs)" "distinct (map snd wake_pairs)"
    "distinct (map fst (map prod.swap wake_pairs))" "distinct (map snd (map prod.swap wake_pairs))" by (simp_all add: wake_pairs_eq)
  have root_free: "h_files h0 (?root, n) = None" for n using clear_of_files[OF wf] by simp
  from assms(1) show ?thesis
  proof (cases rule: wake_steps_state)
    case host
    then have files: "h_files h = h_files h0" and rt: "vm_jail_root v = [] \<or> vm_jail_root v = ?root"
      by (auto simp: stopped_def progress_def laid_def)
    have none: "h_files h (vm_jail_root v, n) = None" for n
    proof (cases "vm_jail_root v = []")
      case True
      with snap(2) wf(2) have "h_files h0 ([], n) = None" unfolding host_wf_def by blast
      with True files show ?thesis by simp
    qed (use rt root_free files in auto)
    have "?s \<noteq> []" using snap(1,2) by auto
    with rt ne have "vm_jail_root v \<noteq> ?s" by auto
    moreover have "\<not> moves out (vm_jail_root v) ?s p h" for p using none by (simp add: moves_def)
    ultimately show ?thesis using dist by (simp add: move_files_def swapped_pairs move_pairs_files moved_nothing files)
  next
    case (moved g)
    have rt: "vm_jail_root v = ?root" using moved(2) by (simp add: started_vm_def)
    have g: "Dir ?s \<in> h_objects g" using moved(1) snap(1) by (auto simp: in_jail_def progress_def laid_def)
    have "h_files h = Vm_Park.moved out ?s ?root wake_pairs g" "h_objects h = h_objects g"
      using moved(4) ne dist by (simp_all add: move_files_def move_pairs_files move_pairs_frame)
    then have "Vm_Park.moved out ?root ?s (map prod.swap wake_pairs) h = h_files g"
      using moved_back[OF ne dist(1,2) renames, of h g] g root_free moved(3) by simp
    with ne dist rt moved(3) show ?thesis by (simp add: move_files_def swapped_pairs move_pairs_files)
  qed
qed


text \<open>C10: a wake that fails, at whatever step, leaves the Node as it was but for the console log: the files of the snapshot
  are back where they were, so that the wake can be tried again, and nothing of the VM it tried to start is left.\<close>

theorem failed_wake_puts_snapshot_back:
  assumes "vm_wake out u node spec h = (Inl e, h')"
    and "clear_of node (ws_vm_address spec) h" and "host_wf node h" and "faultless u"
    and "o_process out \<notin> fst ` set (h_procs h)"
    and "Dir (ws_snapshot spec) \<in> h_objects h" and "Dir [] \<notin> h_objects h"
    and "\<not> under (jail_dir node (host_id (ws_vm_address spec))) (ws_snapshot spec)"
    and "\<And>m n. o_rename out (jail_root node (ws_vm_address spec), m) (ws_snapshot spec, n) = None"
  shows "\<exists>c. h' = h\<lparr>h_consoles := (h_consoles h)(ws_console_log spec := c)\<rparr>"
proof -
  let ?a = "ws_vm_address spec" and ?log = "ws_console_log spec"
  obtain v g where st: "wake_steps out node spec (vm_empty ?log, h) = (Inl e, v, g)"
    and h': "h' = snd (teardown u v (snd (move_files out (vm_jail_root v) WAKE_FILES (ws_snapshot spec) SNAPSHOT_FILES g)))"
    using assms(1) by (auto simp: vm_wake_def Let_def split: prod.splits sum.splits)
  let ?g = "snd (move_files out (vm_jail_root v) WAKE_FILES (ws_snapshot spec) SNAPSHOT_FILES g)"
  have files: "h_files ?g = h_files h" using put_back[OF st assms(2,3,6,7,8,9)] .
  from st have "\<exists>b k. laid out node ?a ?log h b k k (v, g)"
  proof (cases rule: wake_steps_state)
    case host
    then show ?thesis by (auto simp: stopped_def progress_def)
  next
    case (moved f)
    then have "laid out node ?a ?log h True 4 4 (v, g)" by (simp add: in_jail_def progress_def)
    then show ?thesis by blast
  qed
  then obtain b k where "laid out node ?a ?log h b k k (v, ?g)" by auto
  from teardown_laid[OF assms(2,3,4,5) this] files show ?thesis by (simp add: h')
qed

subsection \<open>A park\<close>

lemma wake_moves_all:
  assumes "vm_wake out u node spec h = (Inr v, h')" and "ws_snapshot spec \<noteq> jail_root node (ws_vm_address spec)"
    and "(x, y) \<in> set wake_pairs"
  shows "h_files h' (jail_root node (ws_vm_address spec), y) = h_files h (ws_snapshot spec, x)"
    and "h_files h (ws_snapshot spec, x) \<noteq> None" and "h_files h' (ws_snapshot spec, x) = None"
proof -
  let ?s = "ws_snapshot spec" and ?root = "jail_root node (ws_vm_address spec)"
  have dist: "distinct (map fst wake_pairs)" "distinct (map snd wake_pairs)" by (simp_all add: wake_pairs_eq)
  have "wake_steps out node spec (vm_empty (ws_console_log spec), h) = (Inr (), v, h')"
    using assms(1) by (auto simp: vm_wake_def Let_def split: prod.splits sum.splits)
  then obtain g where g: "h_files g = h_files h" "h' = snd (move_files out ?s SNAPSHOT_FILES ?root WAKE_FILES g)"
    "fst (move_files out ?s SNAPSHOT_FILES ?root WAKE_FILES g) = None"
    by (cases rule: wake_steps_state) auto
  then have "moves out ?s ?root (x, y) g" using move_ok[OF _ assms(2) dist(1)] assms(3) by (auto simp: move_files_def)
  then show "h_files h' (?root, y) = h_files h (?s, x)" "h_files h (?s, x) \<noteq> None" "h_files h' (?s, x) = None"
    using moved_at[OF assms(2) dist assms(3), of out g] g(1,2) assms(2) dist
    by (auto simp: move_files_def move_pairs_files moves_def)
qed

lemma unwind_files:
  "(\<And>p. RemoveDir p \<in> set steps \<Longrightarrow> \<not> under p d) \<Longrightarrow> h_files (unwind u steps h) (d, n) = h_files h (d, n)"
proof (induction steps arbitrary: h)
  case (Cons st steps)
  have "h_files (snd (remove_cgroup u p k t (r, g))) = h_files g" for p k t r g
    by (induction u p k t "(r, g)" arbitrary: r g rule: remove_cgroup.induct)
      (auto simp: try_remove_cgroup_def remove_object_def split: option.splits)
  then have cg: "h_files (snd (remove_cgroup u p k t (try_remove_cgroup u p k' g))) = h_files g" for p k t k' g
    by (cases "try_remove_cgroup u p k' g") (auto simp: try_remove_cgroup_def remove_object_def split: option.splits if_splits)
  have "h_files (snd (run_undo u st h)) (d, n) = h_files h (d, n)"
    using Cons(2) cg by (cases st) (auto simp: run_undo_def remove_object_def remove_dir_all_def split: option.splits prod.splits, metis snd_conv)
  with Cons show ?case by simp
qed simp


lemma teardown_files:
  assumes "vm_undo v = undo_steps node (host_id a)" and "\<not> under (jail_dir node (host_id a)) d"
  shows "h_files (snd (teardown u v h)) (d, n) = h_files h (d, n)"
proof -
  have "h_files (case vm_vmm v of None \<Rightarrow> h | Some m \<Rightarrow> kill m h) = h_files h"
    by (auto simp: kill_def split: option.splits vmm.splits)
  with assms show ?thesis
    unfolding teardown_def Let_def snd_conv by (subst unwind_files) (auto simp: undo_steps_def)
qed

lemma park_ok:
  assumes "park out sn v root into h = (Inr (), h1)" and "root \<noteq> into"
  shows "h_files h1 (into, ''vmstate'') = Some (sn_vmstate sn)" "h_files h1 (into, ''mem'') = Some (sn_mem sn)"
    "h_files h1 (into, ''rootfs.ext4'') = h_files h (root, ''rootfs.ext4'')" "h_files h (root, ''rootfs.ext4'') \<noteq> None"
proof -
  let ?ps = "zip PARK_FILES SNAPSHOT_FILES"
  have ps: "?ps = [(''park.vmstate'', ''vmstate''), (''park.mem'', ''mem''), (''rootfs.ext4'', ''rootfs.ext4'')]"
    by (simp add: PARK_FILES_def SNAPSHOT_FILES_def)
  have dist: "distinct (map fst ?ps)" "distinct (map snd ?ps)" by (simp_all add: ps)
  define g where "g = kill v (write_snapshot root sn ((add_objects {Dir into} h)\<lparr>h_paused := vmm_process v # h_paused h\<rparr>))"
  have "park_steps out sn v root into h = (Inr (), h1)" using assms(1) by (auto simp: park_def split: prod.splits sum.splits)
  then have mv: "move_files out root PARK_FILES into SNAPSHOT_FILES g = (None, h1)"
    by (auto simp: park_steps_def Let_def g_def add_objects_def split: option.splits prod.splits)
  have g: "h_files g = h_files (write_snapshot root sn h)"
    by (auto simp: g_def kill_def write_snapshot_def add_objects_def split: vmm.splits)
  have all: "moves out root into p g" if "p \<in> set ?ps" for p
    using move_ok[OF _ assms(2) dist(1), of out None g] mv that by (simp add: move_files_def)
  have "h_files h1 (into, y) = h_files g (root, x)" if "(x, y) \<in> set ?ps" for x y
    using moved_at(2)[OF assms(2) dist that, of out g] all[OF that] mv assms(2) dist
    by (metis move_files_def move_pairs_files snd_conv fst_conv)
  moreover have "h_files g (root, ''park.vmstate'') = Some (sn_vmstate sn)" "h_files g (root, ''park.mem'') = Some (sn_mem sn)"
    "h_files g (root, ''rootfs.ext4'') = h_files h (root, ''rootfs.ext4'')"
    by (simp_all add: g write_snapshot_def PARK_FILES_def)
  moreover have "h_files g (root, ''rootfs.ext4'') \<noteq> None" using all[of "(''rootfs.ext4'', ''rootfs.ext4'')"] by (simp add: ps moves_def)
  ultimately show "h_files h1 (into, ''vmstate'') = Some (sn_vmstate sn)" "h_files h1 (into, ''mem'') = Some (sn_mem sn)"
    "h_files h1 (into, ''rootfs.ext4'') = h_files h (root, ''rootfs.ext4'')" "h_files h (root, ''rootfs.ext4'') \<noteq> None"
    by (simp_all add: ps)
qed

text \<open>C5: a VM that was parked and torn down wakes from exactly the state, the memory and the disk it was parked with, and
  its snapshot directory no longer holds them, whatever else the Node has done in between to files elsewhere.\<close>

theorem park_wake_roundtrip:
  assumes "park out sn vmm root into h = (Inr (), h1)" and "root \<noteq> into"
    and "vm_undo v = undo_steps node (host_id b)" and "\<not> under (jail_dir node (host_id b)) into"
    and "vm_wake out' u' node spec (snd (teardown u v h1)) = (Inr w, h2)"
    and "ws_snapshot spec = into" and "into \<noteq> jail_root node (ws_vm_address spec)"
  shows "h_files h2 (jail_root node (ws_vm_address spec), ''wake.vmstate'') = Some (sn_vmstate sn) \<and>
         h_files h2 (jail_root node (ws_vm_address spec), ''wake.mem'') = Some (sn_mem sn) \<and>
         h_files h2 (jail_root node (ws_vm_address spec), ''rootfs.ext4'') = h_files h (root, ''rootfs.ext4'') \<and>
         h_files h2 (into, ''vmstate'') = None \<and> h_files h2 (into, ''mem'') = None \<and> h_files h2 (into, ''rootfs.ext4'') = None"
  using wake_moves_all[OF assms(5), unfolded assms(6), OF assms(7)] park_ok[OF assms(1,2)] teardown_files[OF assms(3,4)]
  by (simp add: wake_pairs_eq)

text \<open>A park that fails leaves no snapshot behind; and unless it reports the VM lost, the VM runs on: its VMM is there,
  its processors are not paused and its disk is as it was.\<close>

theorem failed_park_keeps_no_snapshot:
  assumes "park out sn v root into h = (Inl e, h')" and "\<not> under into root" and "vmm_process v \<notin> set (h_paused h)"
  shows "(\<forall>d n. under into d \<longrightarrow> h_files h' (d, n) = None \<and> Dir d \<notin> h_objects h') \<and>
         (case e of
            Resumed _ \<Rightarrow> h_procs h' = h_procs h \<and> h_paused h' = h_paused h \<and> h_files h' (root, ''rootfs.ext4'') = h_files h (root, ''rootfs.ext4'')
          | Lost _ \<Rightarrow> True)"
proof -
  obtain g where g: "park_steps out sn v root into h = (Inl e, g)" and h': "h' = remove_dir_all into g"
    using assms(1) by (auto simp: park_def split: prod.splits sum.splits)
  have "h_procs g = h_procs h \<and> h_paused g = h_paused h \<and> h_files g (root, ''rootfs.ext4'') = h_files h (root, ''rootfs.ext4'')"
    if "e = Resumed r" for r
    using g that assms(3)
    by (auto simp: park_steps_def Let_def add_objects_def remove_files_def PARK_FILES_def split: option.splits prod.splits)
  with assms(2) show ?thesis
    by (auto simp: h' remove_dir_all_def dir_under_def split: parking.splits)
qed


subsection \<open>An example\<close>

definition vm_demo_wake :: wake_spec where
  "vm_demo_wake = \<lparr>ws_vm_address = 0x0A4D0002, ws_mem_mib = 256, ws_vcpus = 1, ws_snapshot = ''/p/a'', ws_console_log = ''/l''\<rparr>"

definition vm_demo_parked :: host where
  "vm_demo_parked = vm_demo_host\<lparr>h_objects := {Dir ''/p/a''},
     h_files := [(''/p/a'', ''vmstate'') \<mapsto> ''s'', (''/p/a'', ''mem'') \<mapsto> ''m'', (''/p/a'', ''rootfs.ext4'') \<mapsto> ''r'']\<rparr>"

definition no_load :: "call \<Rightarrow> string option" where
  "no_load c = (case c of Load_snapshot _ _ \<Rightarrow> Some ''bad'' | _ \<Rightarrow> None)"

lemma vm_demo_not_jailed: "\<not> under (jail_dir vm_demo_node (host_id a)) (''/p'' @ s)"
proof -
  have "jail_dir vm_demo_node (host_id a) = ''/j/firecracker/'' @ host_id a"
    by (simp add: jail_dir_eq vm_demo_node_def path_join_def starts_with_def ends_with_def)
  then show ?thesis by (auto simp: under_def starts_with_iff)
qed

lemma vm_demo_parked_ok: "host_wf vm_demo_node vm_demo_parked" "clear_of vm_demo_node a vm_demo_parked"
  using vm_demo_not_jailed[of _ "''/a''"]
  by (auto simp: host_wf_def clear_of_def owned_iff vm_demo_parked_def vm_demo_host_def split: if_splits)

lemma vm_demo_wake_fails: "isl (fst (vm_wake (vm_demo_outside no_load) vm_demo_undoing vm_demo_node vm_demo_wake vm_demo_parked))"
  by (simp add: vm_wake_def wake_steps_def host_steps_def Let_def act_defs calls_def on_vm_def on_host_def push_undo_def
      socket_up_def await_socket.simps[of _ _ _ 0] console_answers_def ip_batch_def move_in_def load_snapshot_def vm_demo_outside_def
      no_load_def split: prod.splits option.splits sum.splits)


theorem failed_wake_puts_snapshot_back_witness:
  "\<exists>c. snd (vm_wake (vm_demo_outside no_load) vm_demo_undoing vm_demo_node vm_demo_wake vm_demo_parked) =
     vm_demo_parked\<lparr>h_consoles := (h_consoles vm_demo_parked)(''/l'' := c)\<rparr>"
proof -
  obtain e h' where st: "vm_wake (vm_demo_outside no_load) vm_demo_undoing vm_demo_node vm_demo_wake vm_demo_parked = (Inl e, h')"
    using vm_demo_wake_fails by (metis isl_def prod.collapse)
  have spec: "ws_console_log vm_demo_wake = ''/l''" "ws_snapshot vm_demo_wake = ''/p/a''" by (simp_all add: vm_demo_wake_def)
  have h: "h_procs vm_demo_parked = []" "h_objects vm_demo_parked = {Dir ''/p/a''}" by (simp_all add: vm_demo_parked_def vm_demo_host_def)
  from failed_wake_puts_snapshot_back[OF st vm_demo_parked_ok(2,1) vm_demo_ok(3)] vm_demo_not_jailed[of _ "''/a''"] st
  show ?thesis by (simp add: spec h vm_demo_outside_def)
qed

definition vm_demo_jailed :: host where
  "vm_demo_jailed = vm_demo_host\<lparr>h_objects := {Dir ''/x''}, h_files := [(''/x'', ''rootfs.ext4'') \<mapsto> ''r'']\<rparr>"

definition vm_demo_snapshot :: snapshot where
  "vm_demo_snapshot = \<lparr>sn_vmstate = ''s'', sn_mem = ''m''\<rparr>"

definition vm_demo_vmm :: vmm where
  "vm_demo_vmm = Child \<lparr>pid = 5, start_time = 1\<rparr>"

definition vm_demo_park :: "(call \<Rightarrow> string option) \<Rightarrow> (parking + unit) \<times> host" where
  "vm_demo_park fault = park (vm_demo_outside fault) vm_demo_snapshot vm_demo_vmm ''/x'' ''/p/a'' vm_demo_jailed"

lemma vm_demo_parks:
  "vm_demo_park (\<lambda>_. None) = (Inr (), vm_demo_jailed\<lparr>h_objects := {Dir ''/x'', Dir ''/p/a''}, h_paused := [\<lparr>pid = 5, start_time = 1\<rparr>],
     h_files := [(''/p/a'', ''vmstate'') \<mapsto> ''s'', (''/p/a'', ''mem'') \<mapsto> ''m'', (''/p/a'', ''rootfs.ext4'') \<mapsto> ''r'']\<rparr>)"
  by (auto simp: vm_demo_park_def park_def park_steps_def Let_def vm_demo_outside_def vm_demo_snapshot_def vm_demo_vmm_def vm_demo_jailed_def
      vm_demo_host_def add_objects_def write_snapshot_def kill_def vmm_process_def move_files_def PARK_FILES_def SNAPSHOT_FILES_def
      rename_file_def fun_eq_iff)

definition vm_demo_old :: vm where
  "vm_demo_old = (vm_empty ''/l'')\<lparr>vm_undo := undo_steps vm_demo_node (host_id 0x0A4D0003)\<rparr>"

lemma vm_demo_torn_down: "snd (teardown vm_demo_undoing vm_demo_old (snd (vm_demo_park (\<lambda>_. None)))) = snd (vm_demo_park (\<lambda>_. None))"
proof -
  have jail: "jail_dir vm_demo_node (host_id a) = ''/j/firecracker/'' @ host_id a" for a
    by (simp add: jail_dir_eq vm_demo_node_def path_join_def starts_with_def ends_with_def)
  show ?thesis
    by (simp add: teardown_def vm_demo_parks vm_demo_old_def vm_empty_def undo_steps_def run_undo_def vm_demo_jailed_def jail
        try_remove_cgroup_def CGROUP_POLL_ATTEMPTS_def numeral_eq_Suc)
qed

lemma vm_demo_wakes:
  "\<not> isl (fst (vm_wake (vm_demo_outside (\<lambda>_. None)) vm_demo_undoing vm_demo_node vm_demo_wake (snd (vm_demo_park (\<lambda>_. None)))))"
proof -
  have ne: "jail_root vm_demo_node a \<noteq> ''/p/a''" "''/p/a'' \<noteq> jail_root vm_demo_node a" for a
    using vm_demo_not_jailed[of a "''/a''"] under_jail_root[of vm_demo_node a] by (auto simp del: under_jail_root)
  show ?thesis
    by (simp add: vm_wake_def wake_steps_def host_steps_def Let_def act_defs calls_def on_vm_def on_host_def push_undo_def
      socket_up_def await_socket.simps[of _ _ _ 0] console_answers_def ip_batch_def move_in_def load_snapshot_def vm_demo_outside_def
      vm_demo_parks vm_demo_wake_def move_files_def SNAPSHOT_FILES_def WAKE_FILES_def rename_file_def ne jail_objects_def add_objects_def
      spawn_jailer_def make_link_def open_console_def)
qed

theorem park_wake_roundtrip_witness:
  "\<exists>w h2. vm_wake (vm_demo_outside (\<lambda>_. None)) vm_demo_undoing vm_demo_node vm_demo_wake
       (snd (teardown vm_demo_undoing vm_demo_old (snd (vm_demo_park (\<lambda>_. None))))) = (Inr w, h2) \<and>
     h_files h2 (jail_root vm_demo_node 0x0A4D0002, ''wake.vmstate'') = Some ''s'' \<and>
     h_files h2 (jail_root vm_demo_node 0x0A4D0002, ''wake.mem'') = Some ''m'' \<and>
     h_files h2 (jail_root vm_demo_node 0x0A4D0002, ''rootfs.ext4'') = Some ''r''"
proof -
  obtain w h2 where wk: "vm_wake (vm_demo_outside (\<lambda>_. None)) vm_demo_undoing vm_demo_node vm_demo_wake
      (snd (teardown vm_demo_undoing vm_demo_old (snd (vm_demo_park (\<lambda>_. None))))) = (Inr w, h2)"
    using vm_demo_wakes unfolding vm_demo_torn_down by (metis isl_def old.sum.exhaust prod.collapse)
  have pk: "park (vm_demo_outside (\<lambda>_. None)) vm_demo_snapshot vm_demo_vmm ''/x'' ''/p/a'' vm_demo_jailed = (Inr (), snd (vm_demo_park (\<lambda>_. None)))"
    using vm_demo_parks by (simp add: vm_demo_park_def)
  have ne: "''/x'' \<noteq> ''/p/a''" "''/p/a'' \<noteq> jail_root vm_demo_node (ws_vm_address vm_demo_wake)" "ws_snapshot vm_demo_wake = ''/p/a''"
    using vm_demo_not_jailed[of "ws_vm_address vm_demo_wake" "''/a''"] under_jail_root[of vm_demo_node "ws_vm_address vm_demo_wake"]
    by (auto simp: vm_demo_wake_def simp del: under_jail_root)
  have old: "vm_undo vm_demo_old = undo_steps vm_demo_node (host_id 0x0A4D0003)" by (simp add: vm_demo_old_def)
  from park_wake_roundtrip[OF pk ne(1) old _ wk ne(3,2)] vm_demo_not_jailed[of _ "''/a''"] wk
  show ?thesis by (simp add: vm_demo_snapshot_def vm_demo_jailed_def vm_demo_wake_def)
qed

definition no_snapshot :: "call \<Rightarrow> string option" where
  "no_snapshot c = (if c = Create_snapshot then Some ''full'' else None)"

lemma vm_demo_park_fails: "\<exists>e. fst (vm_demo_park no_snapshot) = Inl (Resumed e)"
  by (simp add: vm_demo_park_def park_def park_steps_def Let_def vm_demo_outside_def no_snapshot_def)

theorem failed_park_keeps_no_snapshot_witness:
  "h_files (snd (vm_demo_park no_snapshot)) (''/p/a'', ''mem'') = None \<and> h_paused (snd (vm_demo_park no_snapshot)) = [] \<and>
   h_files (snd (vm_demo_park no_snapshot)) (''/x'', ''rootfs.ext4'') = Some ''r''"
proof -
  obtain e h' where pk: "vm_demo_park no_snapshot = (Inl (Resumed e), h')" using vm_demo_park_fails by (metis prod.collapse)
  have "\<not> under ''/p/a'' ''/x''" "vmm_process vm_demo_vmm \<notin> set (h_paused vm_demo_jailed)" "under ''/p/a'' ''/p/a''"
    by (simp_all add: under_def starts_with_def vm_demo_jailed_def vm_demo_host_def)
  with failed_park_keeps_no_snapshot[OF pk[unfolded vm_demo_park_def]] show ?thesis
    by (auto simp: pk vm_demo_jailed_def vm_demo_host_def)
qed

end
