(* ===== verification/Vm_Supervise.thy ===== *)
theory Vm_Supervise
  imports
    Vm_Park
    "HOL-Library.Sublist"
begin

section \<open>Supervising a running VM\<close>

text \<open>
  \<open>Vm::supervise\<close> of \<open>cirro-node/src/vm.rs\<close>. Each round of its \<open>select\<close> takes one event: the VMM has
  ended, a stop has been received, the channel of stops is closed, or the deadline of a graceful stop
  has passed. The loops are functions of the events in the order the select takes them; \<open>None\<close>
  is a VM that still runs when they are used up.
\<close>

datatype stop =
    Stop_graceful
  | Stop_force
  | Stop_park path nat

datatype event =
    Vmm_ended "exit_status option"
  | Received stop
  | Closed
  | Deadline

text \<open>
  What a supervisor meets: the calls and the snapshot of each park, by the number of its answer channel;
  whether Ctrl-Alt-Del can be sent, and if not, whether the VMM has ended; the cgroup's \<open>memory.events\<close>.
\<close>

record world =
  w_park :: "nat \<Rightarrow> outside \<times> snapshot"
  w_ctrl_alt_del :: bool
  w_ended :: "exit_status option option"
  w_events :: "string option"

type_synonym answers = "(nat \<times> vm_error option) list"

fun graceful_loop :: "vmm \<Rightarrow> string \<Rightarrow> event list \<Rightarrow> answers \<Rightarrow> host \<Rightarrow> (end_reason \<times> answers \<times> host) option" where
  "graceful_loop v console [] ans h = None"
| "graceful_loop v console (Vmm_ended status # es) ans h = Some (graceful_end status console, ans, h)"
| "graceful_loop v console (Deadline # es) ans h = Some (Forced, ans, kill v h)"
| "graceful_loop v console (Closed # es) ans h = Some (Forced, ans, kill v h)"
| "graceful_loop v console (Received Stop_force # es) ans h = Some (Forced, ans, kill v h)"
| "graceful_loop v console (Received Stop_graceful # es) ans h = graceful_loop v console es ans h"
| "graceful_loop v console (Received (Stop_park into n) # es) ans h =
     graceful_loop v console es (ans @ [(n, Some ''the VM is stopping'')]) h"

definition graceful_stop ::
  "world \<Rightarrow> vmm \<Rightarrow> string \<Rightarrow> event list \<Rightarrow> answers \<Rightarrow> host \<Rightarrow> (end_reason \<times> answers \<times> host) option" where
  "graceful_stop w v console es ans h =
     (if \<not> w_ctrl_alt_del w
      then (case w_ended w of
              Some status \<Rightarrow> Some (vmm_natural_end v (w_events w) status console, ans, h)
            | None \<Rightarrow> Some (Forced, ans, kill v h))
      else graceful_loop v console es ans h)"

text \<open>A deadline only exists in a graceful stop.\<close>

fun run_until_ended ::
  "world \<Rightarrow> vmm \<Rightarrow> path \<Rightarrow> string \<Rightarrow> event list \<Rightarrow> answers \<Rightarrow> host \<Rightarrow> (end_reason \<times> answers \<times> host) option" where
  "run_until_ended w v root console [] ans h = None"
| "run_until_ended w v root console (Vmm_ended status # es) ans h =
     Some (vmm_natural_end v (w_events w) status console, ans, h)"
| "run_until_ended w v root console (Received (Stop_park into n) # es) ans h =
     (case park (fst (w_park w n)) (snd (w_park w n)) v root into h of
        (Inr _, h') \<Rightarrow> Some (Parked, ans @ [(n, None)], h')
      | (Inl (Resumed e), h') \<Rightarrow> run_until_ended w v root console es (ans @ [(n, Some e)]) h'
      | (Inl (Lost e), h') \<Rightarrow> Some (Forced, ans @ [(n, Some e)], kill v h'))"
| "run_until_ended w v root console (Received Stop_graceful # es) ans h = graceful_stop w v console es ans h"
| "run_until_ended w v root console (Received Stop_force # es) ans h = Some (Forced, ans, kill v h)"
| "run_until_ended w v root console (Closed # es) ans h = Some (Forced, ans, kill v h)"
| "run_until_ended w v root console (Deadline # es) ans h = run_until_ended w v root console es ans h"

definition supervise :: "world \<Rightarrow> undoing \<Rightarrow> vm \<Rightarrow> event list \<Rightarrow> host \<Rightarrow> (end_reason \<times> answers \<times> host) option" where
  "supervise w u v es h =
     (case vm_vmm v of
        None \<Rightarrow> None
      | Some m \<Rightarrow>
          (case run_until_ended w m (vm_jail_root v) (console_of (vm_console_log v) h) es [] h of
             None \<Rightarrow> None
           | Some (reason, ans, h') \<Rightarrow> Some (reason, ans, snd (teardown u v h'))))"

subsection \<open>Parks are answered\<close>

fun park_numbers :: "event list \<Rightarrow> nat list" where
  "park_numbers [] = []"
| "park_numbers (Received (Stop_park _ n) # es) = n # park_numbers es"
| "park_numbers (_ # es) = park_numbers es"

definition parked_last :: "end_reason \<Rightarrow> answers \<Rightarrow> bool" where
  "parked_last reason new \<longleftrightarrow>
     (if reason = Parked then new \<noteq> [] \<and> snd (last new) = None \<and> list_all (\<lambda>a. snd a \<noteq> None) (butlast new)
      else list_all (\<lambda>a. snd a \<noteq> None) new)"

lemma natural_end_reasons [simp]:
  "natural_end st c \<noteq> Parked" "vmm_natural_end v ev st c \<noteq> Parked" "graceful_end st c \<noteq> Parked"
  "natural_end st c \<noteq> AgentDown" "vmm_natural_end v ev st c \<noteq> AgentDown" "graceful_end st c \<noteq> AgentDown"
  by (auto simp: natural_end_def vmm_natural_end_def graceful_end_def Let_def split: option.splits)

lemma parked_last_Cons: "e \<noteq> None \<Longrightarrow> parked_last r ans \<Longrightarrow> parked_last r ((n, e) # ans)"
  by (auto simp: parked_last_def)

lemma graceful_loop_answers:
  "graceful_loop v console es ans h = Some (r, ans', h') \<Longrightarrow>
   \<exists>new. ans' = ans @ new \<and> prefix (map fst new) (park_numbers es) \<and> parked_last r new \<and> r \<in> {Graceful, Crashed, Forced}"
proof (induction v console es ans h rule: graceful_loop.induct)
  case (7 v console into n es ans h)
  then obtain new where new: "ans' = (ans @ [(n, Some ''the VM is stopping'')]) @ new" "prefix (map fst new) (park_numbers es)"
    "parked_last r new" "r \<in> {Graceful, Crashed, Forced}" by auto
  then show ?case
    by (intro exI[of _ "(n, Some ''the VM is stopping'') # new"]) (auto intro: parked_last_Cons)
qed (auto simp: parked_last_def graceful_end_def split: if_splits)


lemma run_until_ended_answers:
  "run_until_ended w v root console es ans h = Some (r, ans', h') \<Longrightarrow>
   \<exists>new. ans' = ans @ new \<and> prefix (map fst new) (park_numbers es) \<and> parked_last r new \<and> r \<noteq> AgentDown"
proof (induction w v root console es ans h rule: run_until_ended.induct)
  case (3 w v root console into n es ans h)
  obtain p g where pk: "park (fst (w_park w n)) (snd (w_park w n)) v root into h = (p, g)" by (metis prod.exhaust)
  show ?case
  proof (cases p)
    case (Inr x)
    with 3(2) pk show ?thesis by (auto simp: parked_last_def intro!: exI[of _ "[(n, None)]"])
  next
    case (Inl e)
    show ?thesis
    proof (cases e)
      case (Resumed t)
      with 3(2) pk Inl have "run_until_ended w v root console es (ans @ [(n, Some t)]) g = Some (r, ans', h')" by simp
      from 3(1)[OF pk[symmetric] Inl Resumed this] obtain new where
        "ans' = (ans @ [(n, Some t)]) @ new" "prefix (map fst new) (park_numbers es)" "parked_last r new" "r \<noteq> AgentDown" by blast
      then show ?thesis by (intro exI[of _ "(n, Some t) # new"]) (auto intro: parked_last_Cons)
    next
      case (Lost t)
      with 3(2) pk Inl show ?thesis by (auto simp: parked_last_def intro!: exI[of _ "[(n, Some t)]"])
    qed
  qed
next
  case (4 w v root console es ans h)
  show ?case
  proof (cases "w_ctrl_alt_del w")
    case True
    with 4 graceful_loop_answers[of v console es ans h r ans' h'] show ?thesis by (auto simp: graceful_stop_def)
  next
    case False
    with 4 show ?thesis by (auto simp: graceful_stop_def parked_last_def split: option.splits)
  qed
qed (auto simp: parked_last_def)

subsection \<open>Stops end the VM\<close>

definition ends_vm :: "event \<Rightarrow> bool" where
  "ends_vm e \<longleftrightarrow> (case e of Vmm_ended _ \<Rightarrow> True | Received Stop_force \<Rightarrow> True | Closed \<Rightarrow> True | _ \<Rightarrow> False)"

fun stops_in :: "bool \<Rightarrow> event list \<Rightarrow> bool" where
  "stops_in asked [] = False"
| "stops_in asked (e # es) =
     (ends_vm e \<or> (asked \<and> e = Deadline) \<or> stops_in (asked \<or> e = Received Stop_graceful) es)"

lemma graceful_loop_ends: "stops_in True es \<Longrightarrow> graceful_loop v console es ans h \<noteq> None"
  by (induction v console es ans h rule: graceful_loop.induct) (auto simp: ends_vm_def)

lemma graceful_stop_ends: "stops_in True es \<Longrightarrow> graceful_stop w v console es ans h \<noteq> None"
  using graceful_loop_ends by (auto simp: graceful_stop_def split: option.splits)

lemma run_until_ended_ends: "stops_in False es \<Longrightarrow> run_until_ended w v root console es ans h \<noteq> None"
proof (induction w v root console es ans h rule: run_until_ended.induct)
  case (3 w v root console into n es ans h)
  then show ?case by (auto simp: ends_vm_def split: prod.splits sum.splits parking.splits)
next
  case (4 w v root console es ans h)
  then show ?case using graceful_stop_ends by (simp add: ends_vm_def)
qed (auto simp: ends_vm_def)



definition supervise_demo_world :: world where
  "supervise_demo_world = \<lparr>w_park = (\<lambda>n. (vm_demo_outside no_snapshot, vm_demo_snapshot)), w_ctrl_alt_del = True,
     w_ended = None, w_events = None\<rparr>"


text \<open>
  The kernel's OOM killer ends a VMM that an earlier agent started while it is being stopped: the end counts as graceful,
  although the same end without a stop counts as a crash.
\<close>

lemma oom_kill_counts_as_graceful:
  "\<exists>w v console. oom_killed v (w_events w) \<and> vmm_natural_end v (w_events w) None console = Crashed \<and>
     run_until_ended w v root console [Received Stop_graceful, Vmm_ended None] [] h = Some (Graceful, [], h)"
proof -
  let ?w = "supervise_demo_world\<lparr>w_events := Some (''oom_kill 1'' @ [CHR 0x0A])\<rparr>"
  let ?v = "Adopted \<lparr>pid = 5, start_time = 1\<rparr> ''/c''"
  have oom: "oom_killed ?v (Some (''oom_kill 1'' @ [CHR 0x0A]))" by code_simp
  have "graceful_end None [] = Graceful" by (simp add: graceful_end_def natural_end_def console_tail_bytes_def)
  with oom show ?thesis
    by (intro exI[of _ ?w] exI[of _ ?v] exI[of _ "[]"])
      (simp add: graceful_stop_def supervise_demo_world_def vmm_natural_end_def)
qed

end
