(* ===== verification/Vm_Limits.thy ===== *)
theory Vm_Limits
  imports
    Vm_Start
begin

section \<open>Identities, limits and identification of VMMs\<close>

text \<open>
  The numbers \<open>host_steps\<close> computes for jailer stay in their types' ranges and keep VMs apart; an error of
  an \<open>ip -batch\<close> names the command that failed; and a VMM is recognised whatever its command is called.
\<close>

lemma vm_uid_low16: "vm_uid a = VM_UID_BASE + ucast (low16 a)"
proof -
  have "or (push_bit 8 (ucast (octet 2 a))) (ucast (octet 3 a)) = (ucast (low16 a) :: u32)"
    by (rule bit_eqI) (auto simp: low16_def octet_def bit_simps)
  then show ?thesis by (simp add: vm_uid_def)
qed

lemma vm_uid_range: "unat (vm_uid a) = 900000 + unat (low16 a)"
proof -
  have l: "unat (low16 a) < 2 ^ 16" using unsigned_less[of "low16 a"] by simp
  then have "unat (ucast (low16 a) :: u32) = unat (low16 a)" by (simp add: unsigned_ucast_eq take_bit_nat_eq_self_iff)
  with l show ?thesis by (simp add: vm_uid_low16 VM_UID_BASE_def unat_word_ariths)
qed


lemma memory_max_exact: "unat (memory_max m) = (unat m + 32) * 2 ^ 20"
proof -
  have m: "unat m < 2 ^ 32" using unsigned_less[of m] by simp
  have "unat (ucast m :: u64) = unat m"
    using m by (simp add: unsigned_ucast_eq take_bit_nat_eq_self_iff)
  with m show ?thesis by (simp add: memory_max_def VMM_OVERHEAD_MIB_def unat_word_ariths)
qed

lemma cpu_quota_exact: "unat (cpu_quota v) = unat v * 100000"
proof -
  have v: "unat v < 2 ^ 8" using unsigned_less[of v] by simp
  have "unat (ucast v :: u32) = unat v"
    using v by (simp add: unsigned_ucast_eq take_bit_nat_eq_self_iff)
  with v show ?thesis by (simp add: cpu_quota_def unat_word_ariths)
qed

text \<open>On one Node no two VMs run under the same user, none of these users is one of the Node's first 900,000, and the
  limits given to jailer are exactly the memory asked for and the VMM's share, and 100 ms of processor time per
  100 ms and processor: nothing wraps around, for any value a request can hold.\<close>

theorem vm_identity_and_limits:
  assumes "subnet_ok s" and "a \<in> set (vm_addresses s)" and "b \<in> set (vm_addresses s)"
  shows "(vm_uid a = vm_uid b \<longleftrightarrow> a = b) \<and> 900000 \<le> unat (vm_uid a) \<and> unat (vm_uid a) < 965536 \<and>
         unat (memory_max mem_mib) = (unat mem_mib + 32) * 2 ^ 20 \<and> unat (cpu_quota vcpus) = unat vcpus * 100000"
proof -
  have "a = b" if "vm_uid a = vm_uid b"
  proof -
    from that have "unat (vm_uid a) = unat (vm_uid b)" by simp
    then have "low16 a = low16 b" by (simp add: vm_uid_range word_unat_eq_iff)
    then show ?thesis
      using vm_address_with_low16_inverse[OF assms(1,2)] vm_address_with_low16_inverse[OF assms(1,3)] by (metis option.inject)
  qed
  moreover have "unat (low16 a) < 2 ^ 16" using unsigned_less[of "low16 a"] by simp
  ultimately show ?thesis by (auto simp: vm_uid_range memory_max_exact cpu_quota_exact)
qed

theorem vm_identity_and_limits_witness:
  "vm_uid 0x0A4D0002 \<noteq> vm_uid 0x0A4D0003 \<and> unat (memory_max 256) = 288 * 2 ^ 20"
  using vm_identity_and_limits[of "\<lparr>network = 0x0A4D0000, prefix_len = 28\<rparr>" "0x0A4D0002" "0x0A4D0003" 256 1]
  by (simp add: subnet_eval)

subsection \<open>Errors of a batch\<close>

lemma failed_batch_named:
  assumes "o_batch out commands = Some (i, said)" and "i < length commands" and "length commands < 2 ^ 64"
  shows "ip_batch out commands = Some (said @ ''Command failed -:'' @ decimal (i + 1) @ '' (`'' @ commands ! i @ ''`)'')"
proof -
  have "rsplit_once_str ''Command failed -:'' (said @ ''Command failed -:'' @ decimal (i + 1)) = Some (said, decimal (i + 1))"
  proof (rule rsplit_once_str_append)
    show "hd ''Command failed -:'' \<notin> set (decimal (i + 1))"
      by (simp add: is_ascii_digit_def char_le_iff)
  qed simp_all
  moreover have "(parse_word (decimal (i + 1)) :: u64 option) = Some (of_nat (i + 1))"
    using assms(2,3) by (simp add: parse_word_def)
  moreover have n: "unat (of_nat (i + 1) :: u64) = i + 1"
    using assms(2,3) by (simp add: unat_of_nat take_bit_nat_eq_self_iff del: of_nat_Suc of_nat_add)
  moreover have "(0::u64) < of_nat (i + 1)"
    using n unfolding word_less_nat_alt by simp
  ultimately show ?thesis
    using assms(1,2) by (simp add: ip_batch_def name_failed_batch_command_def del: decimal.simps)
qed

subsection \<open>Processes\<close>

text \<open>The line of \<open>/proc/<pid>/stat\<close>: the id, the command in parentheses, and the fields from the third on.\<close>

definition stat_line :: "string \<Rightarrow> string \<Rightarrow> string list \<Rightarrow> string" where
  "stat_line p comm fs = p @ '' ('' @ comm @ '') '' @ join_with '' '' fs @ [CHR 0x0A]"


lemma rsplit_stat_line:
  assumes "list_all (\<lambda>f. CHR '')'' \<notin> set f) fs"
  shows "rsplit_once CHR '')'' (stat_line p comm fs) = Some (p @ '' ('' @ comm, CHR '' '' # join_with '' '' fs @ [CHR 0x0A])"
proof -
  have "CHR '')'' \<notin> set (join_with '' '' fs)"
    using assms by (induction fs rule: induct_list012) auto
  then show ?thesis by (simp add: rsplit_once_eq_Some stat_line_def)
qed

definition plain :: "string \<Rightarrow> bool" where
  "plain w \<longleftrightarrow> w \<noteq> [] \<and> list_all (\<lambda>c. 32 < (of_char c :: nat) \<and> (of_char c :: nat) < 127) w \<and> CHR '')'' \<notin> set w"

lemma ws_words_plain:
  "list_all (\<lambda>c. 32 < (of_char c :: nat) \<and> (of_char c :: nat) < 127) w \<Longrightarrow> ws_words acc (w @ rest) = ws_words (rev w @ acc) rest"
  by (induction w arbitrary: acc) (simp_all add: Let_def)

lemma ws_words_blank:
  "c = CHR '' '' \<or> c = CHR 0x0A \<Longrightarrow> ws_words acc (c # rest) = (if acc = [] then [] else [rev acc]) @ ws_words [] rest"
proof -
  assume "c = CHR '' '' \<or> c = CHR 0x0A"
  then have "ws_len (c # rest) = 1" by auto
  then show ?thesis by (simp del: ws_len.simps)
qed

lemma split_whitespace_line:
  "list_all plain fs \<Longrightarrow> split_whitespace (join_with '' '' fs @ [CHR 0x0A]) = fs"
proof (induction fs rule: induct_list012)
  case (3 f g fs)
  have "ws_words [] (f @ CHR '' '' # r) = f # ws_words [] r" for r
    using 3(3) ws_words_plain[of f "[]" "CHR '' '' # r"] by (simp add: plain_def ws_words_blank del: ws_words.simps)
  with 3 show ?case by (simp add: split_whitespace_def del: ws_words.simps)
next
  case (2 f)
  then show ?case
    using ws_words_plain[of f "[]" "[CHR 0x0A]"] by (simp add: plain_def split_whitespace_def ws_words_blank)
qed (simp add: split_whitespace_def Let_def)

lemma proc_stat_line:
  assumes "list_all plain fs" and "19 < length fs"
  shows "proc_stat (Some (stat_line p comm fs)) = map_option (Pair (hd (hd fs))) (parse_word (fs ! 19))"
proof -
  have words: "split_whitespace (CHR '' '' # join_with '' '' fs @ [CHR 0x0A]) = fs"
    using split_whitespace_line[OF assms(1)] ws_words_blank[of "CHR '' ''" "[]"] by (simp add: split_whitespace_def del: ws_words.simps)
  obtain f gs c cs where f: "fs = f # gs" "f = c # cs"
    using assms by (cases fs; cases "hd fs") (auto simp: plain_def)
  have "list_all (\<lambda>f. CHR '')'' \<notin> set f) fs" using assms(1) by (auto simp: list_all_iff plain_def)
  from rsplit_stat_line[OF this, of p comm] words f assms(2) show ?thesis
    by (cases "parse_word (fs ! 19) :: u64 option") (simp_all add: proc_stat_def)
qed

text \<open>Whatever the command of a process is called, with blanks and parentheses in any number, the agent reads its state
  and start time from \<open>/proc\<close> as they are; so a process taken for a running VMM has the VMM's start time and is no zombie.\<close>

theorem process_is_identified:
  assumes "list_all plain fs" and "19 < length fs" and "proc (pid q) = Some (stat_line p comm fs)"
  shows "is_running proc q \<longleftrightarrow> parse_word (fs ! 19) = Some (start_time q) \<and> hd (hd fs) \<noteq> CHR ''Z''"
  using proc_stat_line[OF assms(1,2), of p comm] assms(3)
  by (cases "parse_word (fs ! 19) :: u64 option") (auto simp: is_running_def)

theorem process_is_identified_witness:
  "is_running (\<lambda>_. Some (stat_line ''7'' ''a) S 1 (b'' (''R'' # replicate 18 ''0'' @ [''42'']))) \<lparr>pid = 7, start_time = 42\<rparr>"
proof -
  have "list_all plain (''R'' # replicate 18 ''0'' @ [''42''])" by (simp add: plain_def list_all_iff)
  moreover have "parse_word ''42'' = Some (42 :: u64)"
    by (simp add: parse_word_def parse_uint_def is_ascii_digit_def char_le_iff undecimal_def digit_val_def)
  ultimately show ?thesis
    using process_is_identified[of "''R'' # replicate 18 ''0'' @ [''42'']" "\<lambda>_. Some (stat_line ''7'' ''a) S 1 (b'' (''R'' # replicate 18 ''0'' @ [''42'']))"
        "\<lparr>pid = 7, start_time = 42\<rparr>"]
    by (simp add: nth_append)
qed

end
