(* ===== verification/Sharing.thy ===== *)
theory Sharing
  imports
    Lifecycle
begin

section \<open>Names, hostnames and claims under concurrent requests\<close>

text \<open>
  What VMs, Machine-backed Apps and the edge share. A name is a VM's or a Machine-backed App's, never
  both. A hostname belongs to at most one App as long as no failed start puts back an Ended App whose
  hostname was taken while the start ran; \<open>hostname_shared_after_failed_start\<close> (in \<open>Service\<close>)
  is an execution in which that happens. A VM is claimed by one park at a time, and while an idle
  park claims it no request is in flight to it.
\<close>

subsection \<open>Names\<close>

definition app_names :: "machines \<Rightarrow> string set" where
  "app_names ms = fst ` set (all_apps ms)"

definition agent_names :: "agent \<Rightarrow> bool" where
  "agent_names ag \<longleftrightarrow>
     machines_wf (ag_machines ag) \<and> (\<forall>n \<in> app_names (ag_machines ag). map_of (ag_vms ag) n = None)"

lemma app_names_mset: "mset (all_apps ms) = mset (all_apps ms') \<Longrightarrow> app_names ms = app_names ms'"
  unfolding app_names_def by (metis set_mset_mset)

lemma app_names_add_mset:
  "mset (all_apps ms) = add_mset (n, x) (mset (all_apps ms')) \<Longrightarrow> app_names ms = insert n (app_names ms')"
  unfolding app_names_def by (metis fst_conv image_insert set_mset_add_mset_insert set_mset_mset)

lemma machine_add_failure:
  assumes wf: "machines_wf ms" and run: "machine_add out add ms st = (Inl e, ms', st')"
  shows "machines_wf ms'" "all_apps ms' = all_apps ms"
proof -
  have "machines_wf ms' \<and> all_apps ms' = all_apps ms"
  proof (cases "ms_entries ms' = ms_entries ms \<and> ms_next_link ms' = ms_next_link ms")
    case True
    then show ?thesis using wf by (simp add: machines_wf_def all_apps_def app_hosts_def)
  next
    case False
    with run obtain t key pub ms1 e' where t: "target_parse (am_ssh add) = Inr t"
      and fresh: "map_of (ms_entries ms) (am_name add) = None"
      and pin: "write_known_hosts (ao_pin_fault out)
           (Some \<lparr>mr_name = am_name add, mr_ssh = target_text t, mr_pinned_key = key, mr_fingerprint = am_host_key add\<rparr>)
           (ms\<lparr>ms_public_key := Some pub\<rparr>) = (Inr (), ms1)"
      and conn: "connect (ao_connect_fault out) (ao_ports out)
           \<lparr>mr_name = am_name add, mr_ssh = target_text t, mr_pinned_key = key, mr_fingerprint = am_host_key add\<rparr>
           [] ms1 = (Inl e', ms')"
      by (auto simp: machine_add_def Let_def write_known_hosts_def
          split: sum.split_asm if_splits option.split_asm prod.split_asm)
    have ms1: "ms_entries ms1 = ms_entries ms" "ms_next_link ms1 = ms_next_link ms"
      using pin by (auto simp: write_known_hosts_def split: option.split_asm)
    have wf1: "machines_wf ms1" using wf ms1 by (simp add: machines_wf_def all_apps_def app_hosts_def)
    note tgt = target_parse_text[OF target_parse_ok[OF t]]
    have "machines_wf ms'" "ms_entries ms' = ms_entries ms1"
      using connect_outcome(1,4)[OF wf1 _ _ _ _ _ _ conn] fresh ms1 tgt by simp_all
    then show ?thesis using ms1 by (simp add: all_apps_def)
  qed
  then show "machines_wf ms'" "all_apps ms' = all_apps ms" by simp_all
qed

lemma machine_add_apps:
  assumes "machines_wf ms" and "machine_add out add ms st = (r, ms', st')"
  shows "machines_wf ms'" "mset (all_apps ms') = mset (all_apps ms)"
  using assms machine_add_failure[of ms out add st _ ms' st'] machine_add_success(1,2)[of ms out add st _ ms' st']
  by (cases r; simp)+

lemma agent_names_frame:
  assumes "agent_names ag" and "ag_machines ag' = ag_machines ag"
    and "\<And>n. map_of (ag_vms ag) n = None \<Longrightarrow> map_of (ag_vms ag') n = None"
  shows "agent_names ag'"
  using assms by (simp add: agent_names_def)

lemma own_slot_entry:
  assumes "agent_reg ag" and "t \<in> set (ag_tasks ag)" and "task_slot t = Some (n, e)"
  shows "map_of (ag_vms ag) n = Some e"
  using slot_owner[OF assms(1)[unfolded agent_reg_def] assms(2,3)] by simp

lemma agent_names_run:
  assumes reg: "agent_reg ag" and names: "agent_names ag" and run: "run_vm req rootfs ag = (r, ag')"
  shows "agent_names ag'"
proof (cases r)
  case (Inl e)
  with run_vm_failure[of req rootfs ag e ag'] run show ?thesis
    by (auto intro: agent_names_frame[OF names])
next
  case (Inr t)
  from run[unfolded Inr] show ?thesis
  proof (rule run_vm_success)
    fix guest log a old ag1
    assume res: "reserve req log (ag\<lparr>ag_next_log := ag_next_log ag + 1\<rparr>) = Inr (a, old, ag1)"
      and ag': "ag' = ag1\<lparr>ag_tasks := t # ag_tasks ag1\<rparr>"
    note sp = reserve_spec[OF res, simplified, OF reg_okD(1)[OF reg[unfolded agent_reg_def]]]
    have "rr_name req \<notin> app_names (ag_machines ag)"
      using sp(5) names by (simp add: agent_names_def has_app_iff app_names_def)
    then show ?thesis using names by (auto simp: agent_names_def ag' sp(1))
  qed
qed

lemma run_on_machine_cases:
  assumes "run_on_machine ports ports' fault mreq ag = (mr, ag')"
  obtains (refused) "ag' = ag"
    | (added) ms st where "add_app ports ports' fault mreq (ag_machines ag) (ag_store ag) = (mr, ms, st)"
        "ag' = ag\<lparr>ag_machines := ms, ag_store := st\<rparr>" "map_of (ag_vms ag) (mar_name mreq) = None"
        "app_with_host (ag_vms ag) (route_host (mar_route mreq)) = None"
proof -
  obtain r ms st where a: "add_app ports ports' fault mreq (ag_machines ag) (ag_store ag) = (r, ms, st)"
    by (metis prod_cases3)
  have "ag' = ag \<or> r = mr \<and> ag' = ag\<lparr>ag_machines := ms, ag_store := st\<rparr> \<and>
      map_of (ag_vms ag) (mar_name mreq) = None \<and> app_with_host (ag_vms ag) (route_host (mar_route mreq)) = None"
    using assms by (simp add: run_on_machine_def a split: sum.split_asm option.split_asm) auto
  with a show ?thesis using refused added by blast
qed

lemma agent_names_run_on_machine:
  assumes names: "agent_names ag" and run: "run_on_machine ports ports' fault mreq ag = (mr, ag')"
  shows "agent_names ag'"
proof -
  have wf: "machines_wf (ag_machines ag)" using names by (simp add: agent_names_def)
  from run show ?thesis
  proof (cases rule: run_on_machine_cases)
    case 2: (added ms st)
    show ?thesis
    proof (cases mr)
      case (Inl e)
      have "app_names ms = app_names (ag_machines ag)"
        using add_app_failure(2)[OF wf 2(1)[unfolded Inl]] by (rule app_names_mset)
      then show ?thesis
        using add_app_failure(1)[OF wf 2(1)[unfolded Inl]] names by (simp add: agent_names_def 2(2))
    next
      case (Inr info)
      have "app_names ms = insert (mar_name mreq) (app_names (ag_machines ag))"
        using add_app_success(2)[OF wf 2(1)[unfolded Inr]] by (rule app_names_add_mset)
      then show ?thesis
        using add_app_success(1)[OF wf 2(1)[unfolded Inr]] names 2(3) by (auto simp: agent_names_def 2(2))
    qed
  qed (use names in simp)
qed

lemma agent_names_remove:
  assumes names: "agent_names ag" and run: "remove_vm ports f_app f_snap f_db name ag = (u, ag')"
  shows "agent_names ag'"
proof -
  have wf: "machines_wf (ag_machines ag)" using names by (simp add: agent_names_def)
  obtain q ms st where app: "remove_app ports f_app name (ag_machines ag) (ag_store ag) = (q, ms, st)"
    by (metis prod_cases3)
  note out = remove_app_outcome[OF wf app]
  have sub: "app_names ms \<subseteq> app_names (ag_machines ag)"
    using out(2,4) by (cases "q = Inr True") (auto dest: app_names_add_mset)
  have "(ag_machines ag' = ag_machines ag \<or> ag_machines ag' = ms) \<and>
        (\<forall>n. map_of (ag_vms ag) n = None \<longrightarrow> map_of (ag_vms ag') n = None)"
    using run app
    by (auto simp: remove_vm_def Let_def split: sum.split_asm prod.split_asm bool.split_asm option.split_asm
        entry.split_asm if_splits)
  then show ?thesis using names out(1) sub by (auto simp: agent_names_def)
qed

lemma agent_names_machines:
  assumes names: "agent_names ag" and "machines_wf ms" and "mset (all_apps ms) = mset (all_apps (ag_machines ag))"
  shows "agent_names (ag\<lparr>ag_machines := ms, ag_store := st\<rparr>)"
  using assms app_names_mset[OF assms(3)] by (simp add: agent_names_def)

text \<open>
  The sections of a start, a wake and an end insert at names that have an entry already.
\<close>

lemma task_sections_names:
  assumes "agent_reg ag" and "t \<in> set (ag_tasks ag)" and "map_of (ag_vms ag) n = None"
  shows "map_of (ag_vms (start_failed t ag)) n = None" "map_of (ag_vms (start_record now fault t ag)) n = None"
    "map_of (ag_vms (start_finish time t ag)) n = None" "map_of (ag_vms (wake_failed err t ag)) n = None"
    "map_of (ag_vms (wake_record now fault fault' t ag)) n = None" "map_of (ag_vms (wake_finish time t ag)) n = None"
  using assms(3) own_slot_entry[OF assms(1,2)] agent_reg_task_ok[OF assms(1,2)]
  by (auto simp: start_failed_def start_record_def start_finish_def wake_failed_def wake_record_def wake_finish_def
      Let_def map_of_forget recorded_ok_def split: task.splits boot.splits option.splits sum.splits prod.splits)

lemma task_sections_machines:
  "ag_machines (start_failed t ag) = ag_machines ag" "ag_machines (start_record now fault t ag) = ag_machines ag"
  "ag_machines (start_finish time t ag) = ag_machines ag" "ag_machines (wake_failed err t ag) = ag_machines ag"
  "ag_machines (wake_record now fault fault' t ag) = ag_machines ag" "ag_machines (wake_finish time t ag) = ag_machines ag"
  by (auto simp: start_failed_def start_record_def start_finish_def wake_failed_def wake_record_def wake_finish_def
      Let_def split: task.splits boot.splits option.splits sum.splits prod.splits)

lemma supervisor_ends_names:
  assumes "agent_reg ag"
  shows "map_of (ag_vms ag) n = None \<Longrightarrow> map_of (ag_vms (supervisor_ends now fault sid reason ag)) n = None"
    "ag_machines (supervisor_ends now fault sid reason ag) = ag_machines ag"
proof -
  show "ag_machines (supervisor_ends now fault sid reason ag) = ag_machines ag"
    by (auto simp: supervisor_ends_def record_end_def Let_def split: option.splits entry.splits)
  show "map_of (ag_vms (supervisor_ends now fault sid reason ag)) n = None" if "map_of (ag_vms ag) n = None"
  proof (cases "map_of (ag_live ag) sid")
    case (Some name)
    from assms Some obtain info log where e: "map_of (ag_vms ag) name = Some (Running info log sid)"
      and a: "vi_vm_address info \<noteq> None" by (rule live_entry)
    then obtain a where "vi_vm_address info = Some a" by blast
    then show ?thesis using that e by (auto simp: supervisor_ends_live[OF Some e])
  qed (use that in \<open>simp add: supervisor_ends_def\<close>)
qed

lemma fold_claim_idle_frame:
  "ag_vms (fold claim_idle cs ag) = ag_vms ag" "ag_machines (fold claim_idle cs ag) = ag_machines ag"
  "ag_hosts (fold claim_idle cs ag) = ag_hosts ag" "ag_leases (fold claim_idle cs ag) = ag_leases ag"
  "ag_live (fold claim_idle cs ag) = ag_live ag" "ag_next_sid (fold claim_idle cs ag) = ag_next_sid ag"
  by (induction cs arbitrary: ag) (simp_all add: claim_idle_frame)

lemma agent_names_step:
  assumes "agent_step ag ag'" and "agent_reg ag" and "agent_names ag"
  shows "agent_names ag'"
  using assms
proof (induction rule: agent_step.induct)
  case (wake name ag r ag')
  show ?case
    by (rule agent_names_frame[OF wake(3)])
      (use wake(1) in \<open>auto simp: wake_vm_def Let_def split: if_splits option.split_asm entry.split_asm sum.split_asm\<close>)
next
  case (park name later ag r ag')
  then show ?case
    by (auto simp: park_vm_def claim_park_def Let_def agent_names_def dest!: take_claim_frame(1)
        split: sum.split_asm option.split_asm entry.split_asm)
next
  case (park_idle ag time)
  then show ?case by (simp add: agent_names_def park_idle_apps_def fold_claim_idle_frame)
next
  case (machine_add out add ag mu ms st)
  have wf: "machines_wf (ag_machines ag)" using machine_add(3) by (simp add: agent_names_def)
  show ?case using machine_add_apps[OF wf machine_add(1)] agent_names_machines[OF machine_add(3)] by blast
next
  case (machine_remove fault unpin name ag mu ms st)
  have wf: "machines_wf (ag_machines ag)" using machine_remove(3) by (simp add: agent_names_def)
  show ?case
    using machine_remove_outcome(1,2)[OF wf machine_remove(1)] agent_names_machines[OF machine_remove(3)] by blast
next
  case (remove ports f_app f_snap f_db name ag u ag')
  then show ?case by (blast intro: agent_names_remove)
next
  case (run req rootfs ag r ag')
  then show ?case by (blast intro: agent_names_run)
next
  case (run_on_machine ports ports' fault mreq ag mr ag')
  then show ?case by (blast intro: agent_names_run_on_machine)
qed (auto simp: task_sections_names task_sections_machines supervisor_ends_names app_names_def[of "disconnect_all _"]
    start_booted_def wake_booted_def park_send_def park_finish_def lease_start_def lease_end_def
    begin_shutdown_def agent_names_def Let_def split: task.splits boot.splits park_phase.splits sum.splits)

subsection \<open>Hostnames\<close>

definition agent_hostnames :: "agent \<Rightarrow> bool" where
  "agent_hostnames ag \<longleftrightarrow>
     exclusive entry_host (map_of (ag_vms ag)) \<and>
     (\<forall>h \<in> set (app_hosts (ag_machines ag)). free_of entry_host h (map_of (ag_vms ag)))"

text \<open>No App has taken the hostname of the Ended App a start would put back if it failed.\<close>

fun put_back_free :: "agent \<Rightarrow> task \<Rightarrow> bool" where
  "put_back_free ag (StartTask n spec rt (Some r) b) =
     (case vi_route (rp_info r) of
        None \<Rightarrow> True
      | Some route \<Rightarrow>
          free_of entry_host (route_host route) ((map_of (ag_vms ag))(n := None)) \<and>
          route_host route \<notin> set (app_hosts (ag_machines ag)))"
| "put_back_free ag _ = True"

lemma exclusive_free_elsewhere:
  assumes "exclusive f m" and "m k = Some v" and "f v = Some x"
  shows "free_of f x (m(k := None))"
  unfolding free_of_def
proof (intro allI impI notI)
  fix k' v'
  assume "(m(k := None)) k' = Some v'" and "f v' = Some x"
  then show False using exclusiveD[OF assms(1,2) _ assms(3), of k' v'] by (cases "k' = k") auto
qed

lemma hostnames_put:
  assumes "agent_hostnames ag" and "map_of (ag_vms ag') = (map_of (ag_vms ag))(n := x)"
    and "ag_machines ag' = ag_machines ag"
    and "\<And>e h. x = Some e \<Longrightarrow> entry_host e = Some h \<Longrightarrow>
          free_of entry_host h ((map_of (ag_vms ag))(n := None)) \<and> h \<notin> set (app_hosts (ag_machines ag))"
  shows "agent_hostnames ag'"
proof -
  have ex: "exclusive entry_host (map_of (ag_vms ag))"
    and apps: "\<And>h. h \<in> set (app_hosts (ag_machines ag)) \<Longrightarrow> free_of entry_host h (map_of (ag_vms ag))"
    using assms(1) by (simp_all add: agent_hostnames_def)
  have ex0: "exclusive entry_host ((map_of (ag_vms ag))(n := None))"
    by (rule exclusive_submap[OF ex]) (simp split: if_splits)
  have "exclusive entry_host ((map_of (ag_vms ag))(n := x))"
  proof (cases x)
    case (Some e)
    have "exclusive entry_host ((map_of (ag_vms ag))(n := None, n \<mapsto> e))"
      by (rule exclusive_upd_free[OF ex0]) (use assms(4)[OF Some] in blast)
    then show ?thesis using Some by simp
  qed (use ex0 in simp)
  moreover have "free_of entry_host h ((map_of (ag_vms ag))(n := x))" if "h \<in> set (app_hosts (ag_machines ag))" for h
    unfolding free_of_def
  proof (intro allI impI)
    fix k v
    assume "((map_of (ag_vms ag))(n := x)) k = Some v"
    then show "entry_host v \<noteq> Some h"
      using free_ofD[OF apps[OF that], of k v] assms(4)[of v h] that by (cases "k = n") auto
  qed
  ultimately show ?thesis using assms(2,3) by (simp add: agent_hostnames_def)
qed

lemma hostnames_same:
  assumes "agent_hostnames ag" and "map_of (ag_vms ag') = (map_of (ag_vms ag))(n \<mapsto> e')"
    and "ag_machines ag' = ag_machines ag" and "map_of (ag_vms ag) n = Some e" and "entry_host e' = entry_host e"
  shows "agent_hostnames ag'"
proof (rule hostnames_put[OF assms(1-3)])
  fix d h
  assume "Some e' = Some d" and "entry_host d = Some h"
  then have h: "entry_host e = Some h" using assms(5) by simp
  then have "h \<notin> set (app_hosts (ag_machines ag))"
    using assms(1,4) unfolding agent_hostnames_def free_of_def by blast
  moreover have "free_of entry_host h ((map_of (ag_vms ag))(n := None))"
    using assms(1,4) h by (intro exclusive_free_elsewhere[where v = e]) (simp_all add: agent_hostnames_def)
  ultimately show "free_of entry_host h ((map_of (ag_vms ag))(n := None)) \<and> h \<notin> set (app_hosts (ag_machines ag))"
    by simp
qed

lemma hostnames_frame:
  assumes "agent_hostnames ag" and "ag_vms ag' = ag_vms ag" and "set (app_hosts (ag_machines ag')) \<subseteq> set (app_hosts (ag_machines ag))"
  shows "agent_hostnames ag'"
  using assms by (auto simp: agent_hostnames_def)

lemma hostnames_run:
  assumes reg: "agent_reg ag" and names: "agent_names ag" and hosts: "agent_hostnames ag"
    and run: "run_vm req rootfs ag = (r, ag')"
  shows "agent_hostnames ag'"
proof (cases r)
  case (Inl e)
  with run_vm_failure[of req rootfs ag e ag'] run show ?thesis
    by (auto intro: hostnames_frame[OF hosts])
next
  case (Inr t)
  from run[unfolded Inr] show ?thesis
  proof (rule run_vm_success)
    fix guest log a old ag1
    assume res: "reserve req log (ag\<lparr>ag_next_log := ag_next_log ag + 1\<rparr>) = Inr (a, old, ag1)"
      and ag': "ag' = ag1\<lparr>ag_tasks := t # ag_tasks ag1\<rparr>"
    have wf: "bm_wf (ag_vms ag)" by (rule reg_okD(1)[OF reg[unfolded agent_reg_def]])
    note sp = reserve_spec[OF res, simplified, OF wf]
    show ?thesis
    proof (rule hostnames_put[OF hosts])
      show "map_of (ag_vms ag') = (map_of (ag_vms ag))(rr_name req := Some (Starting a log (rr_route req)))"
        by (simp add: ag' sp(1))
      fix e h
      assume "Some (Starting a log (rr_route req)) = Some e" "entry_host e = Some h"
      then obtain rt where rt: "rr_route req = Some rt" "route_host rt = h" by (auto simp: entry_host_def)
      have free: "free_of entry_host h ((map_of (ag_vms ag))(rr_name req := None))"
      proof (cases "app_with_host (ag_vms ag) h")
        case None
        then show ?thesis
          by (auto simp: free_of_def app_with_host_None dest!: map_of_SomeD split: if_splits)
      next
        case (Some p)
        then obtain e where "app_with_host (ag_vms ag) h = Some (rr_name req, e)"
          using sp(7)[OF rt(1)] rt(2) by auto
        then have "map_of (ag_vms ag) (rr_name req) = Some e" "entry_host e = Some h"
          using app_with_host_SomeD[of "ag_vms ag" h "rr_name req" e] wf by (simp_all add: bm.entry_iff)
        then show ?thesis
          using hosts by (intro exclusive_free_elsewhere[where v = e]) (simp_all add: agent_hostnames_def)
      qed
      have "h \<notin> set (app_hosts (ag_machines ag))"
        using sp(6)[OF rt(1)] rt(2) by (simp add: machine_app_with_host_None)
      with free show "free_of entry_host h ((map_of (ag_vms ag))(rr_name req := None)) \<and>
          h \<notin> set (app_hosts (ag_machines ag))" by simp
    qed (simp add: ag' sp(1))
  qed
qed

lemma hostnames_forget:
  assumes hosts: "agent_hostnames ag" and free: "put_back_free ag (StartTask name spec rt old b)"
    and same: "ag_vms ag1 = ag_vms ag" "ag_machines ag1 = ag_machines ag"
  shows "agent_hostnames (settle t (forget_start name old log ag1))"
proof (rule hostnames_put[OF hosts])
  show "map_of (ag_vms (settle t (forget_start name old log ag1))) =
        (map_of (ag_vms ag))(name := map_option (\<lambda>r. Ended (rp_info r) (rp_log r)) old)"
    by (simp add: map_of_forget same)
  fix e h
  assume "map_option (\<lambda>r. Ended (rp_info r) (rp_log r)) old = Some e" and "entry_host e = Some h"
  then show "free_of entry_host h ((map_of (ag_vms ag))(name := None)) \<and> h \<notin> set (app_hosts (ag_machines ag))"
    using free by (auto simp: entry_host_def)
qed (simp add: same)

lemma hostnames_start_failed:
  assumes "agent_hostnames ag" and "put_back_free ag t"
  shows "agent_hostnames (start_failed t ag)"
  using assms hostnames_forget[OF assms(1)]
  by (auto simp: start_failed_def split: task.splits boot.splits)

lemma hostnames_start_record:
  assumes "agent_hostnames ag" and "put_back_free ag t"
  shows "agent_hostnames (start_record now fault t ag)"
proof -
  have "agent_hostnames (advance t t' (ag\<lparr>ag_store := st\<rparr>))" for t t' st
    by (rule hostnames_frame[OF assms(1)]) simp_all
  then show ?thesis
    using assms hostnames_forget[OF assms(1)]
    by (auto simp: start_record_def Let_def split: task.splits boot.splits sum.splits prod.splits)
qed

lemma hostnames_start_finish:
  assumes "agent_reg ag" and "agent_hostnames ag" and "t \<in> set (ag_tasks ag)"
  shows "agent_hostnames (start_finish now t ag)"
proof (cases "\<exists>name spec rt old info p. t = StartTask name spec rt old (Recorded info p)")
  case True
  then obtain name spec rt old info p where t: "t = StartTask name spec rt old (Recorded info p)" by blast
  have "vi_name info = name" "vi_route info = rt"
    using agent_reg_task_ok[OF assms(1,3)] by (simp_all add: t recorded_ok_def)
  moreover have own: "map_of (ag_vms ag) name = Some (Starting (vs_vm_address spec) (vs_console_log spec) rt)"
    using own_slot_entry[OF assms(1,3)] by (simp add: t)
  ultimately show ?thesis
    unfolding t
    by (intro hostnames_same[OF assms(2) _ _ own, where e' = "Running info (vs_console_log spec) (ag_next_sid ag)"])
      (auto simp: start_finish_def entry_host_def split: option.splits)
next
  case False
  then have "start_finish now t ag = ag"
    by (auto simp: start_finish_def split: task.splits boot.splits)
  then show ?thesis using assms by simp
qed

lemma hostnames_wake:
  assumes "agent_hostnames ag" and "wake_vm name ag = (r, ag')"
  shows "agent_hostnames ag'"
proof (cases "ag' = ag")
  case False
  with assms(2) obtain info log a where "map_of (ag_vms ag) name = Some (Ended info log)"
    "map_of (ag_vms ag') = (map_of (ag_vms ag))(name \<mapsto> Starting a log (vi_route info))" "ag_machines ag' = ag_machines ag"
    by (auto simp: wake_vm_def Let_def split: if_splits option.split_asm entry.split_asm sum.split_asm)
  then show ?thesis
    by (intro hostnames_same[OF assms(1), where n = name and e' = "Starting a log (vi_route info)" and e = "Ended info log"])
      (auto simp: entry_host_def)
qed (use assms in simp)

lemma hostnames_wake_sections:
  assumes "agent_reg ag" and "agent_hostnames ag" and "t \<in> set (ag_tasks ag)"
  shows "agent_hostnames (wake_failed err t ag)" "agent_hostnames (wake_record now fault fault' t ag)"
    "agent_hostnames (wake_finish time t ag)"
proof -
  have same: "agent_hostnames ag'" if "ag_vms ag' = ag_vms ag" "ag_machines ag' = ag_machines ag" for ag'
    by (rule hostnames_frame[OF assms(2)]) (simp_all add: that)
  have put: "agent_hostnames ag'"
    if "t = WakeTask name spec old b" "map_of (ag_vms ag') = (map_of (ag_vms ag))(name \<mapsto> e)"
      "ag_machines ag' = ag_machines ag" "entry_route e = vi_route (rp_info old)" for ag' name spec old b e
  proof -
    have own: "map_of (ag_vms ag) name = Some (Starting (ws_vm_address spec) (ws_console_log spec) (vi_route (rp_info old)))"
      using own_slot_entry[OF assms(1,3)] by (simp add: that(1))
    show ?thesis
      using that(4) by (intro hostnames_same[OF assms(2) that(2,3) own]) (simp add: entry_host_def)
  qed
  show "agent_hostnames (wake_failed err t ag)"
  proof (cases "\<exists>name spec old. t = WakeTask name spec old Booting")
    case True
    then obtain name spec old where t: "t = WakeTask name spec old Booting" by blast
    show ?thesis
      by (rule put[OF t, where e = "Ended (rp_info old) (rp_log old)"]) (simp_all add: wake_failed_def t)
  next
    case False
    then have "wake_failed err t ag = ag" by (auto simp: wake_failed_def split: task.splits boot.splits)
    then show ?thesis using assms(2) by simp
  qed
  show "agent_hostnames (wake_record now fault fault' t ag)"
  proof (cases "\<exists>name spec old p. t = WakeTask name spec old (Booted p)")
    case True
    then obtain name spec old p where t: "t = WakeTask name spec old (Booted p)" by blast
    obtain r st where ins: "insert_running fault (wake_info name spec old now) (ws_console_log spec) p (ag_store ag) = (r, st)"
      by fastforce
    show ?thesis
    proof (cases r)
      case (Inl e)
      then show ?thesis
        using ins
        by (intro put[OF t, where e = "Ended (ended_info (rp_info old) \<lparr>ended_at = now, ended_reason = Forced\<rparr>) (rp_log old)"])
          (simp_all add: wake_record_def t Let_def ended_info_def)
    next
      case (Inr u)
      then show ?thesis using ins by (intro same) (simp_all add: wake_record_def t Let_def)
    qed
  next
    case False
    then have "wake_record now fault fault' t ag = ag" by (auto simp: wake_record_def split: task.splits boot.splits)
    then show ?thesis using assms(2) by simp
  qed
  show "agent_hostnames (wake_finish time t ag)"
  proof (cases "\<exists>name spec old info p. t = WakeTask name spec old (Recorded info p)")
    case True
    then obtain name spec old info p where t: "t = WakeTask name spec old (Recorded info p)" by blast
    have "vi_name info = name" "vi_route info = vi_route (rp_info old)"
      using agent_reg_task_ok[OF assms(1,3)] by (simp_all add: t recorded_ok_def)
    then show ?thesis
      by (intro put[OF t, where e = "Running info (ws_console_log spec) (ag_next_sid ag)"])
        (simp_all add: wake_finish_def t Let_def)
  next
    case False
    then have "wake_finish time t ag = ag" by (auto simp: wake_finish_def split: task.splits boot.splits)
    then show ?thesis using assms(2) by simp
  qed
qed

lemma hostnames_supervisor_ends:
  assumes "agent_reg ag" and "agent_hostnames ag"
  shows "agent_hostnames (supervisor_ends now fault sid reason ag)"
proof (cases "map_of (ag_live ag) sid")
  case (Some name)
  from assms(1) Some obtain info log where e: "map_of (ag_vms ag) name = Some (Running info log sid)"
    and a: "vi_vm_address info \<noteq> None" by (rule live_entry)
  then obtain a where "vi_vm_address info = Some a" by blast
  then show ?thesis
    by (intro hostnames_same[OF assms(2) _ _ e])
      (auto simp: supervisor_ends_live[OF Some e] entry_host_def ended_info_def)
qed (use assms in \<open>simp add: supervisor_ends_def\<close>)

lemma hostnames_run_on_machine:
  assumes names: "agent_names ag" and hosts: "agent_hostnames ag"
    and run: "run_on_machine ports ports' fault mreq ag = (mr, ag')"
  shows "agent_hostnames ag'"
  using run
proof (cases rule: run_on_machine_cases)
  case (added ms st)
  have wf: "machines_wf (ag_machines ag)" using names by (simp add: agent_names_def)
  show ?thesis
  proof (cases mr)
    case (Inl e)
    have "mset (app_hosts ms) = mset (app_hosts (ag_machines ag))"
      using add_app_failure(2)[OF wf added(1)[unfolded Inl]] by (simp add: app_hosts_def)
    then have "set (app_hosts ms) = set (app_hosts (ag_machines ag))" by (metis set_mset_mset)
    then show ?thesis by (intro hostnames_frame[OF hosts]) (simp_all add: added(2))
  next
    case (Inr info)
    have "mset (app_hosts ms) = mset (route_host (mar_route mreq) # app_hosts (ag_machines ag))"
      using add_app_success(2)[OF wf added(1)[unfolded Inr]] by (simp add: app_hosts_def)
    then have "set (app_hosts ms) = insert (route_host (mar_route mreq)) (set (app_hosts (ag_machines ag)))"
      by (metis list.simps(15) set_mset_mset)
    moreover have "free_of entry_host (route_host (mar_route mreq)) (map_of (ag_vms ag))"
      using added(4) by (auto simp: app_with_host_None free_of_def dest!: map_of_SomeD)
    ultimately show ?thesis using hosts by (simp add: agent_hostnames_def added(2))
  qed
qed (use hosts in simp)

lemma hostnames_remove:
  assumes names: "agent_names ag" and hosts: "agent_hostnames ag"
    and run: "remove_vm ports f_app f_snap f_db name ag = (u, ag')"
  shows "agent_hostnames ag'"
proof -
  have wf: "machines_wf (ag_machines ag)" using names by (simp add: agent_names_def)
  obtain q ms st where app: "remove_app ports f_app name (ag_machines ag) (ag_store ag) = (q, ms, st)"
    by (metis prod_cases3)
  note out = remove_app_outcome[OF wf app]
  have sub: "set (app_hosts ms) \<subseteq> set (app_hosts (ag_machines ag))"
  proof (cases "q = Inr True")
    case True
    then obtain n rt where "mset (all_apps (ag_machines ag)) = add_mset (name, n, rt) (mset (all_apps ms))"
      using out(2) by blast
    then have "set (all_apps ms) \<subseteq> set (all_apps (ag_machines ag))"
      by (metis set_mset_add_mset_insert set_mset_mset subset_insertI)
    then show ?thesis unfolding app_hosts_def set_map by (rule image_mono)
  qed (use out(4) in simp)
  have "(ag_vms ag' = ag_vms ag \<and> (ag_machines ag' = ag_machines ag \<or> ag_machines ag' = ms)) \<or>
        (map_of (ag_vms ag') = (map_of (ag_vms ag))(name := None) \<and> ag_machines ag' = ag_machines ag)"
    using run app
    by (auto simp: remove_vm_def Let_def split: sum.split_asm prod.split_asm bool.split_asm option.split_asm
        entry.split_asm if_splits)
  then show ?thesis
    using hostnames_frame[OF hosts, of ag'] hostnames_put[OF hosts, of ag' name None] sub by auto
qed

lemma hostnames_machines:
  assumes "agent_hostnames ag" and "mset (all_apps ms) = mset (all_apps (ag_machines ag))"
  shows "agent_hostnames (ag\<lparr>ag_machines := ms, ag_store := st\<rparr>)"
proof -
  have "mset (app_hosts ms) = mset (app_hosts (ag_machines ag))" using assms(2) by (simp add: app_hosts_def)
  then have "set (app_hosts ms) = set (app_hosts (ag_machines ag))" by (metis set_mset_mset)
  then show ?thesis by (intro hostnames_frame[OF assms(1)]) simp_all
qed

lemma agent_hostnames_step:
  assumes "agent_step ag ag'" and "agent_reg ag" and "agent_names ag" and "agent_hostnames ag"
    and "\<forall>t \<in> set (ag_tasks ag). put_back_free ag t"
  shows "agent_hostnames ag'"
  using assms
proof (induction rule: agent_step.induct)
  case (park name later ag r ag')
  then show ?case
    by (auto simp: park_vm_def claim_park_def Let_def agent_hostnames_def dest!: take_claim_frame(1)
        split: sum.split_asm option.split_asm entry.split_asm)
next
  case (park_idle ag time)
  then show ?case by (simp add: agent_hostnames_def park_idle_apps_def fold_claim_idle_frame)
next
  case (machine_add out add ag mu ms st)
  have wf: "machines_wf (ag_machines ag)" using machine_add(3) by (simp add: agent_names_def)
  show ?case using machine_add_apps[OF wf machine_add(1)] hostnames_machines[OF machine_add(4)] by blast
next
  case (machine_remove fault unpin name ag mu ms st)
  have wf: "machines_wf (ag_machines ag)" using machine_remove(3) by (simp add: agent_names_def)
  show ?case
    using machine_remove_outcome(1,2)[OF wf machine_remove(1)] hostnames_machines[OF machine_remove(4)] by blast
next
  case (shutdown ag)
  then show ?case by (simp add: agent_hostnames_def begin_shutdown_def app_hosts_def)
next
  case (start_booted t ag p)
  then show ?case by (auto simp: start_booted_def agent_hostnames_def split: task.splits boot.splits)
next
  case (wake_booted t ag p)
  then show ?case by (auto simp: wake_booted_def agent_hostnames_def split: task.splits boot.splits)
next
  case (park_send t ag time)
  then show ?case
    by (auto simp: park_send_def agent_hostnames_def Let_def split: task.splits park_phase.splits sum.splits)
next
  case (park_finish t ag time answer)
  then show ?case
    by (auto simp: park_finish_def agent_hostnames_def Let_def split: task.splits park_phase.splits sum.splits)
next
  case lease_start
  then show ?case by (simp add: lease_start_def agent_hostnames_def)
next
  case lease_end
  then show ?case by (simp add: lease_end_def agent_hostnames_def)
qed (blast intro: hostnames_run hostnames_start_failed hostnames_start_record hostnames_start_finish hostnames_wake
    hostnames_wake_sections hostnames_supervisor_ends hostnames_run_on_machine hostnames_remove)+

end
