(* ===== verification/Hosts.thy ===== *)
theory Hosts
  imports
    Lifecycle
begin

section \<open>Host state belongs to VMs\<close>

text \<open>
  The addresses whose host objects (namespace, veth, jail, cgroup) exist are those of the VMs that run
  and of the VMs that have booted and are about to: a failed start, a failed record and an ended VM
  leave nothing behind, and no VM loses its host state to another's clean-up.
\<close>

fun booted_address :: "task \<Rightarrow> ipv4 option" where
  "booted_address (StartTask _ spec _ _ b) = (case b of Booting \<Rightarrow> None | _ \<Rightarrow> Some (vs_vm_address spec))"
| "booted_address (WakeTask _ spec _ b) = (case b of Booting \<Rightarrow> None | _ \<Rightarrow> Some (ws_vm_address spec))"
| "booted_address (ParkTask _ _ _ _) = None"

definition running_addresses :: "(string \<rightharpoonup> entry) \<Rightarrow> ipv4 set" where
  "running_addresses m = {a. \<exists>n info log sid. m n = Some (Running info log sid) \<and> vi_vm_address info = Some a}"

definition booted_addresses :: "task list \<Rightarrow> ipv4 set" where
  "booted_addresses ts = {a. \<exists>t \<in> set ts. booted_address t = Some a}"

definition hosts_ok :: "ipv4 list \<Rightarrow> (string, entry) bmap \<Rightarrow> task list \<Rightarrow> bool" where
  "hosts_ok hs vms ts \<longleftrightarrow> set hs = running_addresses (map_of vms) \<union> booted_addresses ts"

definition agent_hosts :: "agent \<Rightarrow> bool" where
  "agent_hosts ag \<longleftrightarrow> hosts_ok (ag_hosts ag) (ag_vms ag) (ag_tasks ag)"

lemma running_addresses_upd:
  assumes "\<And>info log sid. m n \<noteq> Some (Running info log sid)"
  shows "running_addresses (m(n := x)) =
    running_addresses m \<union> (case x of Some (Running info log sid) \<Rightarrow> set_option (vi_vm_address info) | _ \<Rightarrow> {})"
proof -
  have "a \<in> running_addresses (m(n := x)) \<longleftrightarrow>
      a \<in> running_addresses m \<or> (\<exists>info log sid. x = Some (Running info log sid) \<and> vi_vm_address info = Some a)"
    (is "?l \<longleftrightarrow> ?r") for a
  proof
    assume ?l
    then obtain k info log sid where k: "(m(n := x)) k = Some (Running info log sid)" "vi_vm_address info = Some a"
      unfolding running_addresses_def by blast
    then show ?r unfolding running_addresses_def by (cases "k = n") auto
  next
    assume ?r
    then consider k info log sid where "m k = Some (Running info log sid)" "vi_vm_address info = Some a"
      | info log sid where "x = Some (Running info log sid)" "vi_vm_address info = Some a"
      unfolding running_addresses_def by blast
    then show ?l
    proof cases
      case 1
      then have "(m(n := x)) k = Some (Running info log sid)" using assms by auto
      then show ?thesis using 1(2) unfolding running_addresses_def by blast
    next
      case 2
      then have "(m(n := x)) n = Some (Running info log sid)" by simp
      then show ?thesis using 2(2) unfolding running_addresses_def by blast
    qed
  qed
  then show ?thesis by (auto split: option.splits entry.splits)
qed

lemma booted_addresses_simps [simp]:
  "booted_addresses [] = {}"
  "booted_addresses (t # ts) = set_option (booted_address t) \<union> booted_addresses ts"
  by (auto simp: booted_addresses_def)

lemma booted_addresses_remove1:
  "t \<in> set ts \<Longrightarrow> booted_addresses ts = set_option (booted_address t) \<union> booted_addresses (remove1 t ts)"
  by (induction ts) (simp_all, blast)

lemma booted_addresses_remove1_None:
  "booted_address t = None \<Longrightarrow> booted_addresses (remove1 t ts) = booted_addresses ts"
  using booted_addresses_remove1[of t ts] by (cases "t \<in> set ts") (simp_all add: remove1_idem)

text \<open>The address a task's VM has is the one its entry reserves, so no other VM's.\<close>

lemma booted_slot: "booted_address t = Some a \<Longrightarrow> \<exists>n e. task_slot t = Some (n, e) \<and> entry_vm_address e = Some a"
  by (cases t) (auto split: boot.splits)

lemma own_address:
  assumes ok: "reg_ok s vms ts live next" and t: "t \<in> set ts" "task_slot t = Some (n, e)" and a: "entry_vm_address e = Some a"
  shows "a \<notin> running_addresses (map_of vms)" "a \<notin> booted_addresses (remove1 t ts)"
proof -
  note own = slot_owner[OF ok t]
  show "a \<notin> running_addresses (map_of vms)"
  proof
    assume "a \<in> running_addresses (map_of vms)"
    then obtain m info log sid where m: "map_of vms m = Some (Running info log sid)" "vi_vm_address info = Some a"
      by (auto simp: running_addresses_def)
    then have "m = n" using exclusiveD[OF reg_okD(2)[OF ok] m(1) own(1)] a by simp
    then show False using m(1) own by simp
  qed
  show "a \<notin> booted_addresses (remove1 t ts)"
  proof
    assume "a \<in> booted_addresses (remove1 t ts)"
    then obtain u where u: "u \<in> set (remove1 t ts)" "booted_address u = Some a" by (auto simp: booted_addresses_def)
    from booted_slot[OF u(2)] obtain m e' where e': "task_slot u = Some (m, e')" "entry_vm_address e' = Some a" by blast
    have "(m, e') \<in> set (slots (remove1 t ts))" using u(1) e'(1) by (auto simp: slots_def set_map_filter)
    then have m: "map_of vms m = Some e'" "m \<noteq> n" using slots_after_remove1(2)[OF ok t] by (auto simp: starting_of_def)
    then show False using exclusiveD[OF reg_okD(2)[OF ok] m(1) own(1) e'(2) a] by blast
  qed
qed

subsection \<open>How host state changes\<close>

lemma hosts_ok_boot:
  assumes "hosts_ok hs vms ts" and "booted_address t = None" and "booted_address t' = Some a"
  shows "hosts_ok (a # hs) vms (t' # remove1 t ts)"
  using assms by (auto simp: hosts_ok_def booted_addresses_remove1_None)

lemma hosts_ok_advance:
  assumes "hosts_ok hs vms ts" and "t \<in> set ts" and "booted_address t' = booted_address t"
  shows "hosts_ok hs vms (t' # remove1 t ts)"
  using assms booted_addresses_remove1[OF assms(2)] by (auto simp: hosts_ok_def)

lemma hosts_ok_drop:
  assumes "hosts_ok hs vms ts" and "booted_address t = None"
    and "map_of vms' = (map_of vms)(n := x)" and "\<And>i l sid. map_of vms n \<noteq> Some (Running i l sid)"
    and "\<And>i l sid. x \<noteq> Some (Running i l sid)"
  shows "hosts_ok hs vms' (remove1 t ts)"
proof -
  have "running_addresses (map_of vms') = running_addresses (map_of vms)"
    unfolding assms(3) using assms(5) by (subst running_addresses_upd) (auto simp: assms(4) split: option.splits entry.splits)
  then show ?thesis using assms(1) by (simp add: hosts_ok_def booted_addresses_remove1_None[OF assms(2)])
qed

lemma hosts_ok_destroy:
  assumes reg: "reg_ok s vms ts live next" and ok: "hosts_ok hs vms ts"
    and t: "t \<in> set ts" "task_slot t = Some (n, e)" "entry_vm_address e = Some a" "booted_address t = Some a"
    and vms': "map_of vms' = (map_of vms)(n := x)" and x: "\<And>i l sid. x \<noteq> Some (Running i l sid)"
  shows "hosts_ok (removeAll a hs) vms' (remove1 t ts)"
proof -
  have "map_of vms n \<noteq> Some (Running i l sid)" for i l sid using slot_owner[OF reg t(1,2)] by auto
  then have "running_addresses (map_of vms') = running_addresses (map_of vms)"
    unfolding vms' using x by (subst running_addresses_upd) (auto split: option.splits entry.splits)
  then show ?thesis
    using ok own_address[OF reg t(1-3)] booted_addresses_remove1[OF t(1)] t(4) by (auto simp: hosts_ok_def)
qed

lemma hosts_ok_run:
  assumes reg: "reg_ok s vms ts live next" and ok: "hosts_ok hs vms ts"
    and t: "t \<in> set ts" "task_slot t = Some (n, e)" "booted_address t = Some a" and i: "vi_vm_address info = Some a"
  shows "hosts_ok hs (bm_insert n (Running info log sid) vms) (remove1 t ts)"
proof -
  have "map_of vms n \<noteq> Some (Running i l k)" for i l k using slot_owner[OF reg t(1,2)] by auto
  then have "running_addresses (map_of (bm_insert n (Running info log sid) vms)) = insert a (running_addresses (map_of vms))"
    using i by (simp add: running_addresses_upd)
  then show ?thesis using ok booted_addresses_remove1[OF t(1)] t(3) by (auto simp: hosts_ok_def)
qed

lemma hosts_ok_end:
  assumes reg: "reg_ok s vms ts live next" and ok: "hosts_ok hs vms ts"
    and n: "map_of vms n = Some (Running info log sid)" "vi_vm_address info = Some a"
    and vms': "map_of vms' = (map_of vms)(n \<mapsto> Ended info' log')"
  shows "hosts_ok (removeAll a hs) vms' ts"
proof -
  have "b \<in> running_addresses (map_of vms') \<longleftrightarrow> b \<in> running_addresses (map_of vms) \<and> b \<noteq> a" for b
  proof
    assume "b \<in> running_addresses (map_of vms')"
    then obtain m i l k where m: "map_of vms m = Some (Running i l k)" "vi_vm_address i = Some b" "m \<noteq> n"
      by (auto simp: running_addresses_def vms' split: if_splits)
    have "b \<noteq> a" using exclusiveD[OF reg_okD(2)[OF reg] m(1) n(1), of b] m(2,3) n(2) by auto
    then show "b \<in> running_addresses (map_of vms) \<and> b \<noteq> a" using m(1,2) unfolding running_addresses_def by blast
  next
    assume "b \<in> running_addresses (map_of vms) \<and> b \<noteq> a"
    then obtain m i l k where m: "map_of vms m = Some (Running i l k)" "vi_vm_address i = Some b" "b \<noteq> a"
      unfolding running_addresses_def by blast
    then have "m \<noteq> n" using n by auto
    then have "map_of vms' m = Some (Running i l k)" using m(1) by (simp add: vms')
    then show "b \<in> running_addresses (map_of vms')" using m(2) unfolding running_addresses_def by blast
  qed
  moreover have "a \<notin> booted_addresses ts"
  proof
    assume "a \<in> booted_addresses ts"
    then obtain u where u: "u \<in> set ts" "booted_address u = Some a" by (auto simp: booted_addresses_def)
    from booted_slot[OF u(2)] obtain m e where e: "task_slot u = Some (m, e)" "entry_vm_address e = Some a" by blast
    have "m = n" using exclusiveD[OF reg_okD(2)[OF reg] slot_owner(1)[OF reg u(1) e(1)] n(1) e(2)] n(2) by simp
    then show False using slot_owner[OF reg u(1) e(1)] n(1) by auto
  qed
  ultimately show ?thesis using ok by (auto simp: hosts_ok_def)
qed


subsection \<open>Every section keeps it\<close>

lemma agent_hosts_run:
  assumes "agent_reg ag" and "agent_hosts ag" and "run_vm req rootfs ag = (r, ag')"
  shows "agent_hosts ag'"
proof (cases r)
  case (Inl e)
  with run_vm_failure[of req rootfs ag e ag'] assms show ?thesis by (auto simp: agent_hosts_def)
next
  case (Inr t)
  from assms(3)[unfolded Inr] show ?thesis
  proof (rule run_vm_success)
    fix guest log a old ag1
    assume res: "reserve req log (ag\<lparr>ag_next_log := ag_next_log ag + 1\<rparr>) = Inr (a, old, ag1)"
      and t: "t = StartTask (rr_name req) \<lparr>vs_vm_address = a, vs_rootfs = rr_rootfs req, vs_mem_mib = rr_mem_mib req,
          vs_vcpus = rr_vcpus req, vs_guest = guest, vs_console_log = log\<rparr> (rr_route req) old Booting"
      and ag': "ag' = ag1\<lparr>ag_tasks := t # ag_tasks ag1\<rparr>"
    have wf: "bm_wf (ag_vms (ag\<lparr>ag_next_log := ag_next_log ag + 1\<rparr>))"
      using reg_okD(1)[OF assms(1)[unfolded agent_reg_def]] by simp
    note sp = reserve_spec(1,8)[OF res wf]
    have "map_of (ag_vms ag) (rr_name req) \<noteq> Some (Running i l sid)" for i l sid using sp(2) by auto
    then show ?thesis using assms(2) by (simp add: agent_hosts_def hosts_ok_def ag' sp(1) t running_addresses_upd)
  qed
qed

lemma agent_hosts_wake:
  assumes "agent_hosts ag" and "wake_vm name ag = (r, ag')"
  shows "agent_hosts ag'"
  using assms
  by (auto simp: wake_vm_def Let_def agent_hosts_def hosts_ok_def running_addresses_upd
      split: if_splits option.split_asm entry.split_asm sum.split_asm)

lemma agent_hosts_frame:
  assumes "agent_hosts ag" and "ag_hosts ag' = ag_hosts ag" "ag_vms ag' = ag_vms ag"
    and "booted_addresses (ag_tasks ag') = booted_addresses (ag_tasks ag)"
  shows "agent_hosts ag'"
  using assms by (simp add: agent_hosts_def hosts_ok_def)

lemma not_running_slot:
  assumes "agent_reg ag" and "t \<in> set (ag_tasks ag)" and "task_slot t = Some (n, e)"
  shows "map_of (ag_vms ag) n \<noteq> Some (Running i l sid)"
  using slot_owner[OF assms(1)[unfolded agent_reg_def] assms(2,3)] by auto

lemma agent_hosts_start_failed:
  assumes "agent_reg ag" and "agent_hosts ag" and "t \<in> set (ag_tasks ag)"
  shows "agent_hosts (start_failed t ag)"
proof (cases "\<exists>n spec rt old. t = StartTask n spec rt old Booting")
  case True
  then obtain n spec rt old where t: "t = StartTask n spec rt old Booting" by blast
  show ?thesis
    using hosts_ok_drop[OF assms(2)[unfolded agent_hosts_def], of t] not_running_slot[OF assms(1,3), of n]
    by (simp add: start_failed_def t agent_hosts_def map_of_forget split: option.splits)
next
  case False
  then have "start_failed t ag = ag" by (auto simp: start_failed_def split: task.splits boot.splits)
  then show ?thesis using assms(2) by simp
qed


lemma agent_hosts_booted:
  assumes "agent_hosts ag"
  shows "agent_hosts (start_booted p t ag)" "agent_hosts (wake_booted p t ag)"
  using hosts_ok_boot[OF assms[unfolded agent_hosts_def], of t] assms
  by (auto simp: start_booted_def wake_booted_def agent_hosts_def split: task.splits boot.splits)

lemma agent_hosts_start_record:
  assumes "agent_reg ag" and "agent_hosts ag" and "t \<in> set (ag_tasks ag)"
  shows "agent_hosts (start_record now fault t ag)"
proof (cases "\<exists>n spec rt old p. t = StartTask n spec rt old (Booted p)")
  case True
  then obtain n spec rt old p where t: "t = StartTask n spec rt old (Booted p)" by blast
  note ok = assms(2)[unfolded agent_hosts_def]
  show ?thesis
  proof (cases fault)
    case None
    then show ?thesis
      using hosts_ok_advance[OF ok assms(3), of "StartTask n spec rt old (Recorded (start_info n spec rt now) p)"]
      by (simp add: start_record_def t agent_hosts_def insert_running_def db_exec_def Let_def)
  next
    case (Some e)
    then show ?thesis
      using hosts_ok_destroy[OF assms(1)[unfolded agent_reg_def] ok assms(3)]
      by (simp add: start_record_def t agent_hosts_def insert_running_def db_exec_def Let_def map_of_forget
          split: option.splits)
  qed
next
  case False
  then have "start_record now fault t ag = ag" by (auto simp: start_record_def split: task.splits boot.splits)
  then show ?thesis using assms(2) by simp
qed

lemma agent_hosts_start_finish:
  assumes "agent_reg ag" and "agent_hosts ag" and "t \<in> set (ag_tasks ag)"
  shows "agent_hosts (start_finish time t ag)"
proof (cases "\<exists>n spec rt old info p. t = StartTask n spec rt old (Recorded info p)")
  case True
  then obtain n spec rt old info p where t: "t = StartTask n spec rt old (Recorded info p)" by blast
  have i: "vi_name info = n" "vi_vm_address info = Some (vs_vm_address spec)"
    using agent_reg_task_ok[OF assms(1,3)] by (simp_all add: t recorded_ok_def)
  show ?thesis
    using hosts_ok_run[OF assms(1)[unfolded agent_reg_def] assms(2)[unfolded agent_hosts_def] assms(3), of n] i
    by (auto simp: start_finish_def t agent_hosts_def start_supervising_def Let_def split: option.splits)
next
  case False
  then have "start_finish time t ag = ag" by (auto simp: start_finish_def split: task.splits boot.splits)
  then show ?thesis using assms(2) by simp
qed

lemma agent_hosts_wake_failed:
  assumes "agent_reg ag" and "agent_hosts ag" and "t \<in> set (ag_tasks ag)"
  shows "agent_hosts (wake_failed err t ag)"
proof (cases "\<exists>n spec old. t = WakeTask n spec old Booting")
  case True
  then obtain n spec old where t: "t = WakeTask n spec old Booting" by blast
  show ?thesis
    using hosts_ok_drop[OF assms(2)[unfolded agent_hosts_def], of t] not_running_slot[OF assms(1,3), of n]
    by (simp add: wake_failed_def t agent_hosts_def)
next
  case False
  then have "wake_failed err t ag = ag" by (auto simp: wake_failed_def split: task.splits boot.splits)
  then show ?thesis using assms(2) by simp
qed

lemma agent_hosts_wake_record:
  assumes "agent_reg ag" and "agent_hosts ag" and "t \<in> set (ag_tasks ag)"
  shows "agent_hosts (wake_record now fault fault' t ag)"
proof (cases "\<exists>n spec old p. t = WakeTask n spec old (Booted p)")
  case True
  then obtain n spec old p where t: "t = WakeTask n spec old (Booted p)" by blast
  note ok = assms(2)[unfolded agent_hosts_def]
  show ?thesis
  proof (cases fault)
    case None
    then show ?thesis
      using hosts_ok_advance[OF ok assms(3), of "WakeTask n spec old (Recorded (wake_info n spec old now) p)"]
      by (simp add: wake_record_def t agent_hosts_def insert_running_def db_exec_def Let_def)
  next
    case (Some e)
    then show ?thesis
      using hosts_ok_destroy[OF assms(1)[unfolded agent_reg_def] ok assms(3)]
      by (simp add: wake_record_def t agent_hosts_def insert_running_def db_exec_def Let_def)
  qed
next
  case False
  then have "wake_record now fault fault' t ag = ag" by (auto simp: wake_record_def split: task.splits boot.splits)
  then show ?thesis using assms(2) by simp
qed

lemma agent_hosts_wake_finish:
  assumes "agent_reg ag" and "agent_hosts ag" and "t \<in> set (ag_tasks ag)"
  shows "agent_hosts (wake_finish time t ag)"
proof (cases "\<exists>n spec old info p. t = WakeTask n spec old (Recorded info p)")
  case True
  then obtain n spec old info p where t: "t = WakeTask n spec old (Recorded info p)" by blast
  have i: "vi_name info = n" "vi_vm_address info = Some (ws_vm_address spec)"
    using agent_reg_task_ok[OF assms(1,3)] by (simp_all add: t recorded_ok_def)
  show ?thesis
    using hosts_ok_run[OF assms(1)[unfolded agent_reg_def] assms(2)[unfolded agent_hosts_def] assms(3), of n] i
    by (simp add: wake_finish_def t agent_hosts_def start_supervising_def Let_def)
next
  case False
  then have "wake_finish time t ag = ag" by (auto simp: wake_finish_def split: task.splits boot.splits)
  then show ?thesis using assms(2) by simp
qed

lemma agent_hosts_supervisor_ends:
  assumes "agent_reg ag" and "agent_hosts ag"
  shows "agent_hosts (supervisor_ends now fault sid reason ag)"
proof (cases "map_of (ag_live ag) sid")
  case (Some name)
  from assms(1) Some obtain info log where e: "map_of (ag_vms ag) name = Some (Running info log sid)"
    and a: "vi_vm_address info \<noteq> None" by (rule live_entry)
  then obtain a where a: "vi_vm_address info = Some a" by blast
  show ?thesis
    using hosts_ok_end[OF assms(1)[unfolded agent_reg_def] assms(2)[unfolded agent_hosts_def] e a] a
    by (simp add: supervisor_ends_live[OF Some e] agent_hosts_def)
qed (use assms in \<open>simp add: supervisor_ends_def\<close>)

lemma agent_hosts_park_sections:
  assumes "agent_hosts ag" and "t \<in> set (ag_tasks ag)"
  shows "agent_hosts (park_send time t ag)" "agent_hosts (park_finish time answer t ag)"
  using assms
  by (auto simp: park_send_def park_finish_def agent_hosts_def hosts_ok_def Let_def booted_addresses_remove1_None
      split: task.splits park_phase.splits sum.splits)

lemma agent_hosts_claim_idle: "agent_hosts ag \<Longrightarrow> agent_hosts (claim_idle c ag)"
  by (auto simp: claim_idle_def agent_hosts_def hosts_ok_def take_claim_def split: option.splits)

lemma agent_hosts_park_idle: "agent_hosts ag \<Longrightarrow> agent_hosts (park_idle_apps now ag)"
proof -
  have "agent_hosts (fold claim_idle cs ag)" if "agent_hosts ag" for cs ag
    using that by (induction cs arbitrary: ag) (simp_all add: agent_hosts_claim_idle)
  then show "agent_hosts ag \<Longrightarrow> agent_hosts (park_idle_apps now ag)" by (simp add: park_idle_apps_def)
qed

lemma agent_hosts_step: "agent_step ag ag' \<Longrightarrow> agent_reg ag \<Longrightarrow> agent_hosts ag \<Longrightarrow> agent_hosts ag'"
proof (induction rule: agent_step.induct)
  case (park name later ag r ag')
  then show ?case
    by (auto simp: park_vm_def claim_park_def Let_def take_claim_def agent_hosts_def hosts_ok_def
        split: sum.split_asm option.split_asm entry.split_asm if_splits)
next
  case lease_start
  then show ?case by (simp add: agent_hosts_def lease_start_def)
next
  case lease_end
  then show ?case by (simp add: agent_hosts_def lease_end_def)
next
  case (run_on_machine ports ports' fault mreq ag mr ag')
  then show ?case by (auto simp: agent_hosts_def run_on_machine_def split: sum.split_asm prod.split_asm)
next
  case (remove ports f_app f_snap f_db name ag u ag')
  then show ?case
    by (auto simp: agent_hosts_def hosts_ok_def running_addresses_upd remove_vm_def Let_def
        split: sum.split_asm prod.split_asm bool.split_asm option.split_asm entry.split_asm if_splits)
next
  case machine_add
  then show ?case by (simp add: agent_hosts_def)
next
  case machine_remove
  then show ?case by (simp add: agent_hosts_def)
next
  case shutdown
  then show ?case by (simp add: agent_hosts_def begin_shutdown_def)
qed (blast intro: agent_hosts_run agent_hosts_wake agent_hosts_booted agent_hosts_start_failed agent_hosts_start_record
    agent_hosts_start_finish agent_hosts_wake_failed agent_hosts_wake_record agent_hosts_wake_finish
    agent_hosts_supervisor_ends agent_hosts_park_sections agent_hosts_park_idle)+

end
