(* ===== verification/Routing.thy ===== *)
theory Routing
  imports
    Claims
begin

section \<open>Where the edge sends a request\<close>

text \<open>
  \<open>agent.rs\<close>'s \<open>Edge\<close>: \<open>step_for\<close> decides under the VM table's lock what a request for a hostname needs
  next, and \<open>resolve\<close> goes on until there is an answer, waking a parked App and holding the request while
  the App starts, wakes or parks. The registry changes between two looks; \<open>resolve_loop\<close> takes what each
  round meets as its argument, so it covers every interleaving. The lemmas show that a request is only
  sent to a VM that runs and isn't being parked, and that whatever holds a request is a task whose end
  it is told of.
\<close>

datatype unavailable =
    NoVmAddress string
  | StillStartingAfter string
  | StillParkingAfter string
  | AppEnded string "end_reason option"
  | WakeFailed api_message
  | WakeFailedUnknown string
  | AppUnreachable string "string option"

datatype resolution =
    UpstreamVm ipv4 u16 nat
  | UpstreamPort u16
  | NotFound
  | Unavailable unavailable

datatype holding = HoldStart | HoldPark

datatype step =
    Answer resolution
  | Hold string holding
  | Wake string

definition HOLD_FOR_START :: nat where
  "HOLD_FOR_START = 30"

fun machine_answer :: "machine_resolution \<Rightarrow> resolution" where
  "machine_answer (ViaPort port) = UpstreamPort port"
| "machine_answer (MachineUnreachable name err) = Unavailable (AppUnreachable name err)"

text \<open>A request that is sent to a VM counts as in flight from here on, until its lease ends.\<close>

definition step_for :: "string \<Rightarrow> agent \<Rightarrow> step \<times> agent" where
  "step_for host ag =
     (case machine_resolve (ag_machines ag) host of
        Some r \<Rightarrow> (Answer (machine_answer r), ag)
      | None \<Rightarrow>
          (case app_with_host (ag_vms ag) host of
             None \<Rightarrow> (Answer NotFound, ag)
           | Some (name, Running info _ sid) \<Rightarrow>
               if parking (ag_traffic ag sid) then (Hold name HoldPark, ag)
               else (case (vi_vm_address info, vi_route info) of
                       (Some address, Some route) \<Rightarrow>
                         (Answer (UpstreamVm address (route_port route) sid), lease_start sid ag)
                     | _ \<Rightarrow> (Answer (Unavailable (NoVmAddress name)), ag))
           | Some (name, Starting _ _ _) \<Rightarrow> (Hold name HoldStart, ag)
           | Some (name, Ended info _) \<Rightarrow>
               if is_parked info then (Wake name, ag)
               else (Answer (Unavailable (AppEnded name (map_option ended_reason (vi_ended info)))), ag)))"

text \<open>
  One round of \<open>resolve\<close>: the registry it looks at, whether the deadline passes while it waits, what the
  wake it asks for returns, and the failures of earlier wakes at that time.
\<close>

record look =
  lk_agent :: agent
  lk_deadline :: bool
  lk_wake :: "api_error + vm_info"
  lk_failures :: "(string, api_message) bmap"

fun resolve_loop :: "string \<Rightarrow> api_message option option \<Rightarrow> look list \<Rightarrow> resolution option" where
  "resolve_loop host tried [] = None"
| "resolve_loop host tried (l # ls) =
     (case fst (step_for host (lk_agent l)) of
        Answer r \<Rightarrow> Some r
      | Hold name holding \<Rightarrow>
          (let tried = (if holding = HoldStart then Some None else tried)
           in if lk_deadline l
              then Some (Unavailable (case holding of HoldStart \<Rightarrow> StillStartingAfter name | HoldPark \<Rightarrow> StillParkingAfter name))
              else resolve_loop host tried ls)
      | Wake name \<Rightarrow>
          (case tried of
             Some why \<Rightarrow>
               (case (case why of Some w \<Rightarrow> Some w | None \<Rightarrow> map_of (lk_failures l) name) of
                  Some w \<Rightarrow> Some (Unavailable (WakeFailed w))
                | None \<Rightarrow> Some (Unavailable (WakeFailedUnknown name)))
           | None \<Rightarrow>
               if lk_deadline l then Some (Unavailable (StillStartingAfter name))
               else (case lk_wake l of
                       Inr _ \<Rightarrow> resolve_loop host tried ls
                     | Inl (ApiError status why) \<Rightarrow>
                         if status = CONFLICT then resolve_loop host (Some (Some why)) ls
                         else Some (Unavailable (WakeFailed why)))))"

definition resolve :: "string \<Rightarrow> look list \<Rightarrow> resolution option" where
  "resolve host looks = resolve_loop host None looks"

subsection \<open>What a look decides\<close>

lemma machine_answer_no_vm [simp]: "machine_answer r \<noteq> UpstreamVm a p sid" "machine_answer r \<noteq> NotFound"
  by (cases r; simp)+

lemma step_for_agent:
  "step_for host ag = (s, ag') \<Longrightarrow>
   ag' = (case s of Answer (UpstreamVm _ _ sid) \<Rightarrow> lease_start sid ag | _ \<Rightarrow> ag)"
  by (auto simp: step_for_def split: option.split_asm entry.split_asm if_splits resolution.split machine_resolution.split
      elim!: machine_answer.elims)

lemma step_for_upstream:
  assumes "agent_reg ag" and "step_for host ag = (Answer (UpstreamVm a port sid), ag')"
  shows "\<exists>name info log r. map_of (ag_vms ag) name = Some (Running info log sid) \<and> vi_vm_address info = Some a \<and>
     vi_route info = Some r \<and> route_host r = host \<and> route_port r = port \<and> \<not> parking (ag_traffic ag sid)"
proof -
  obtain name info log r where at: "app_with_host (ag_vms ag) host = Some (name, Running info log sid)"
    and i: "vi_vm_address info = Some a" "vi_route info = Some r" "route_port r = port" "\<not> parking (ag_traffic ag sid)"
    using assms(2)
    by (auto simp: step_for_def split: option.split_asm entry.split_asm if_splits)
  from app_with_host_SomeD[OF at] i(2) have "route_host r = host" by (simp add: entry_host_def)
  moreover have "map_of (ag_vms ag) name = Some (Running info log sid)"
    using app_with_host_SomeD[OF at] reg_okD(1)[OF assms(1)[unfolded agent_reg_def]] by (simp add: bm.entry_iff)
  ultimately show ?thesis using i by blast
qed

lemma step_for_is_step:
  assumes "agent_reg ag" and "step_for host ag = (s, ag')"
  shows "ag' = ag \<or> agent_step ag ag'"
proof (cases "\<exists>a p sid. s = Answer (UpstreamVm a p sid)")
  case True
  then obtain a p sid where s: "s = Answer (UpstreamVm a p sid)" by blast
  from step_for_upstream[OF assms(1) assms(2)[unfolded s]] obtain name info log where
    "map_of (ag_vms ag) name = Some (Running info log sid)" "\<not> parking (ag_traffic ag sid)" by blast
  then show ?thesis using step_for_agent[OF assms(2)] s agent_step.lease_start by simp
next
  case False
  then show ?thesis using step_for_agent[OF assms(2)] by (auto split: step.splits resolution.splits)
qed

lemma step_for_addressed:
  assumes "agent_reg ag"
  shows "fst (step_for host ag) \<noteq> Answer (Unavailable (NoVmAddress name))"
proof
  assume "fst (step_for host ag) = Answer (Unavailable (NoVmAddress name))"
  then obtain info log sid where at: "app_with_host (ag_vms ag) host = Some (name, Running info log sid)"
    and no: "vi_vm_address info = None \<or> vi_route info = None"
    by (auto simp: step_for_def split: option.split_asm entry.split_asm if_splits elim!: machine_answer.elims)
  from app_with_host_SomeD[OF at] have "vi_route info \<noteq> None" "map_of (ag_vms ag) name = Some (Running info log sid)"
    using reg_okD(1)[OF assms[unfolded agent_reg_def]] by (auto simp: entry_host_def bm.entry_iff)
  with no reg_okD(3)[OF assms[unfolded agent_reg_def]] show False by fastforce
qed

subsection \<open>A held request is told\<close>

definition settles_hold :: "string \<Rightarrow> holding \<Rightarrow> agent \<Rightarrow> task \<Rightarrow> bool" where
  "settles_hold name h ag t \<longleftrightarrow>
     (case h of
        HoldStart \<Rightarrow> (\<exists>e. task_slot t = Some (name, e))
      | HoldPark \<Rightarrow> (\<exists>info log sid. map_of (ag_vms ag) name = Some (Running info log sid) \<and> claim_of t = Some sid))"

lemma hold_has_task:
  assumes "agent_reg ag" and "agent_claims ag" and "step_for host ag = (Hold name h, ag')"
  shows "\<exists>t \<in> set (ag_tasks ag). settles_hold name h ag t"
proof -
  note ok = assms(1)[unfolded agent_reg_def]
  obtain e where at: "app_with_host (ag_vms ag) host = Some (name, e)"
    and e: "is_starting e \<and> h = HoldStart \<or> (\<exists>info log sid. e = Running info log sid \<and> parking (ag_traffic ag sid) \<and> h = HoldPark)"
    using assms(3) by (auto simp: step_for_def split: option.split_asm entry.split_asm if_splits)
  have m: "map_of (ag_vms ag) name = Some e"
    using app_with_host_SomeD[OF at] reg_okD(1)[OF ok] by (simp add: bm.entry_iff)
  from e show ?thesis
  proof (elim disjE exE conjE)
    assume s: "is_starting e" "h = HoldStart"
    then have "(name, e) \<in> set (slots (ag_tasks ag))" using reg_okD(6)[OF ok] m by (simp add: starting_of_def)
    then show ?thesis using s by (auto simp: slots_def set_map_filter settles_hold_def)
  next
    fix info log sid
    assume s: "e = Running info log sid" "parking (ag_traffic ag sid)" "h = HoldPark"
    then have "sid \<in> set (claims (ag_tasks ag))" using assms(2) by (simp add: agent_claims_def claims_ok_def)
    then show ?thesis using s m by (auto simp: claims_def set_map_filter settles_hold_def)
  qed
qed


text \<open>
  \<open>settled\<close> is told whenever a start or wake is over: until then its App stays as the request found it,
  so a request that listens before it looks misses nothing.
\<close>

definition told :: "string \<Rightarrow> agent \<Rightarrow> agent \<Rightarrow> bool" where
  "told n ag ag' \<longleftrightarrow>
     (\<forall>e. map_of (ag_vms ag) n = Some e \<longrightarrow> is_starting e \<longrightarrow>
        map_of (ag_vms ag') n = Some e \<or> ag_settled ag < ag_settled ag')"

lemma told_same: "map_of (ag_vms ag') n = map_of (ag_vms ag) n \<Longrightarrow> told n ag ag'"
  by (simp add: told_def)

lemma told_settled: "ag_settled ag < ag_settled ag' \<Longrightarrow> told n ag ag'"
  by (simp add: told_def)

lemma told_run:
  assumes "agent_reg ag" and "run_vm req rootfs ag = (r, ag')"
  shows "told n ag ag'"
proof (cases r)
  case (Inl e)
  with run_vm_failure[of req rootfs ag e ag'] assms show ?thesis by (auto simp: told_def)
next
  case (Inr t)
  from assms(2)[unfolded Inr] show ?thesis
  proof (rule run_vm_success)
    fix guest log a old ag1
    assume res: "reserve req log (ag\<lparr>ag_next_log := ag_next_log ag + 1\<rparr>) = Inr (a, old, ag1)"
      and ag': "ag' = ag1\<lparr>ag_tasks := t # ag_tasks ag1\<rparr>"
    have wf: "bm_wf (ag_vms (ag\<lparr>ag_next_log := ag_next_log ag + 1\<rparr>))"
      using reg_okD(1)[OF assms(1)[unfolded agent_reg_def]] by simp
    from reserve_spec(1,8)[OF res wf] show ?thesis by (auto simp: ag' told_def)
  qed
qed

lemma told_task_sections:
  "told n ag (start_failed t ag)" "told n ag (start_booted p t ag)" "told n ag (start_record now fault t ag)"
  "told n ag (start_finish time t ag)" "told n ag (wake_failed err t ag)" "told n ag (wake_booted p t ag)"
  "told n ag (wake_record now fault fault' t ag)" "told n ag (wake_finish time t ag)"
  by (auto simp: told_def settle_def advance_def start_failed_def start_booted_def start_record_def start_finish_def
      wake_failed_def wake_booted_def wake_record_def wake_finish_def forget_start_def start_supervising_def Let_def
      split: task.splits boot.splits option.splits sum.splits prod.splits)

lemma told_supervisor_ends:
  assumes "agent_reg ag"
  shows "told n ag (supervisor_ends now fault sid reason ag)"
proof (cases "map_of (ag_live ag) sid")
  case (Some name)
  from assms Some obtain info log where e: "map_of (ag_vms ag) name = Some (Running info log sid)"
    and a: "vi_vm_address info \<noteq> None" by (rule live_entry)
  then obtain a where "vi_vm_address info = Some a" by blast
  then show ?thesis using e by (auto simp: supervisor_ends_live[OF Some e] told_def)
qed (simp add: supervisor_ends_def told_def)

lemma fold_claim_idle_vms: "ag_vms (fold claim_idle cs ag) = ag_vms ag"
  by (induction cs arbitrary: ag) (simp_all add: claim_idle_frame)

lemma told_park_sections:
  "told n ag (park_idle_apps now ag)" "told n ag (park_send now t ag)" "told n ag (park_finish now answer t ag)"
  "park_vm name later ag = (r, ag') \<Longrightarrow> told n ag ag'"
proof -
  show "told n ag (park_idle_apps now ag)"
    by (rule told_same) (simp add: park_idle_apps_def fold_claim_idle_vms)
  show "told n ag (park_send now t ag)" "told n ag (park_finish now answer t ag)"
    by (auto simp: told_def settle_def advance_def park_send_def park_finish_def Let_def
        split: task.splits park_phase.splits sum.splits)
  show "told n ag ag'" if "park_vm name later ag = (r, ag')"
    using that by (auto simp: park_vm_def claim_park_def Let_def take_claim_def told_def
        split: sum.split_asm option.split_asm entry.split_asm if_splits)
qed

lemma told_step: "agent_step ag ag' \<Longrightarrow> agent_reg ag \<Longrightarrow> told n ag ag'"
proof (induction rule: agent_step.induct)
  case (wake name ag r ag')
  then show ?case
    by (auto simp: wake_vm_def Let_def told_def split: if_splits option.split_asm entry.split_asm sum.split_asm)
next
  case lease_start
  show ?case by (rule told_same) (simp add: lease_start_def)
next
  case lease_end
  show ?case by (rule told_same) (simp add: lease_end_def)
next
  case (run_on_machine ports ports' fault mreq ag mr ag')
  then show ?case by (auto simp: told_def run_on_machine_def split: sum.split_asm prod.split_asm)
next
  case (remove ports f_app f_snap f_db name ag u ag')
  then show ?case
    by (auto simp: told_def remove_vm_def Let_def split: sum.split_asm prod.split_asm bool.split_asm
        option.split_asm entry.split_asm if_splits)
next
  case shutdown
  show ?case by (rule told_same) (simp add: begin_shutdown_def)
next
  case machine_add
  show ?case by (rule told_same) simp
next
  case machine_remove
  show ?case by (rule told_same) simp
qed (blast intro: told_run told_task_sections told_supervisor_ends told_park_sections)+

end
