(* ===== verification/Service.thy ===== *)
theory Service
  imports
    Sharing
    Hosts
    Restart
    Routing
begin

section \<open>The agent over its whole life\<close>

text \<open>
  \<open>reachable\<close> is every state of an agent: fresh on an empty state directory, after any section of any
  handler, and restarted over what the agent before it left. The properties of the agent as a whole are
  stated for those states, from the invariants of \<open>Lifecycle\<close>, \<open>Recording\<close>, \<open>Claims\<close> and \<open>Restart\<close>. A restart
  that met an I/O error does not serve requests and is not a state here.
\<close>

definition empty_store :: "subnet \<Rightarrow> store" where
  "empty_store s = fresh_store\<lparr>node_table := [subnet_text s]\<rparr>"

definition fresh_agent :: "subnet \<Rightarrow> path \<Rightarrow> agent" where
  "fresh_agent s state_dir = agent_new s state_dir (empty_store s) [] [] []"

inductive reachable :: "agent \<Rightarrow> bool" where
  fresh: "subnet_ok s \<Longrightarrow> reachable (fresh_agent s state_dir)"
| step: "reachable ag \<Longrightarrow> agent_step ag ag' \<Longrightarrow> reachable ag'"
| restarted: "reachable ag \<Longrightarrow> processes_current out ag \<Longrightarrow> no_faults out \<Longrightarrow>
    names_cover (ro_names out) (ag_hosts ag) \<Longrightarrow> restart out state_dir ag = Inr ag' \<Longrightarrow>
    restore f1 f2 links no_machines (ag_store ag') = Inr ms \<Longrightarrow> reachable (ag'\<lparr>ag_machines := ms\<rparr>)"

lemma fresh_agent_opens: "store_open None None None None None (subnet_text s) = (Inr (), empty_store s)"
  by (simp add: store_open_def empty_store_def fresh_store_def add_missing_columns_def vms_schema_def ADDED_def
      db_exec_def Let_def)

lemma empty_store_wf: "store_wf (empty_store s)" "store_view (empty_store s) = Map.empty"
  by (auto simp: empty_store_def fresh_store_def store_wf_def store_view_def)

subsection \<open>The invariants hold throughout\<close>

definition agent_inv :: "agent \<Rightarrow> bool" where
  "agent_inv ag \<longleftrightarrow> subnet_ok (ag_subnet ag) \<and> agent_reg ag \<and> agent_rec ag \<and> agent_claims ag \<and> agent_hosts ag"

lemma agent_inv_fresh: "subnet_ok s \<Longrightarrow> agent_inv (fresh_agent s dir)"
  using agent_new_restoring[OF empty_store_wf(1), of s dir s "[]" "[]" "[]"]
  by (simp add: agent_inv_def restoring_def fresh_agent_def agent_rec_def agent_new_def empty_store_wf recording_def
      entry_recorded_def agent_hosts_def hosts_ok_def running_addresses_def)

lemma run_vm_subnet: "run_vm req rootfs ag = (r, ag') \<Longrightarrow> ag_subnet ag' = ag_subnet ag"
  by (auto simp: run_vm_def new_log_path_def reserve_def Let_def split: sum.split_asm prod.split_asm)

lemma fold_claim_idle_subnet [simp]: "ag_subnet (fold claim_idle cs ag) = ag_subnet ag"
  by (induction cs arbitrary: ag) (simp_all add: claim_idle_frame)

lemma task_sections_subnet:
  "ag_subnet (start_failed t ag) = ag_subnet ag" "ag_subnet (start_booted p t ag) = ag_subnet ag"
  "ag_subnet (start_record now fault t ag) = ag_subnet ag" "ag_subnet (start_finish time t ag) = ag_subnet ag"
  "ag_subnet (wake_failed err t ag) = ag_subnet ag" "ag_subnet (wake_booted p t ag) = ag_subnet ag"
  "ag_subnet (wake_record now fault fault' t ag) = ag_subnet ag" "ag_subnet (wake_finish time t ag) = ag_subnet ag"
  "ag_subnet (park_send time t ag) = ag_subnet ag" "ag_subnet (park_finish time answer t ag) = ag_subnet ag"
  by (auto simp: start_failed_def start_booted_def start_record_def start_finish_def wake_failed_def wake_booted_def
      wake_record_def wake_finish_def park_send_def park_finish_def Let_def
      split: task.splits boot.splits park_phase.splits option.splits sum.splits prod.splits)

lemma agent_step_subnet: "agent_step ag ag' \<Longrightarrow> ag_subnet ag' = ag_subnet ag"
proof (induction rule: agent_step.induct)
  case (wake name ag r ag')
  then show ?case by (auto simp: wake_vm_def Let_def split: if_splits option.split_asm entry.split_asm sum.split_asm)
next
  case (supervisor_ends ag now fault sid reason)
  show ?case by (auto simp: supervisor_ends_def record_end_def Let_def split: option.splits entry.splits)
next
  case (park name later ag r ag')
  then show ?case
    by (auto simp: park_vm_def claim_park_def Let_def take_claim_def
        split: sum.split_asm option.split_asm entry.split_asm if_splits)
next
  case (run_on_machine ports ports' fault mreq ag mr ag')
  then show ?case by (auto simp: run_on_machine_def split: sum.split_asm prod.split_asm)
next
  case (remove ports f_app f_snap f_db name ag u ag')
  then show ?case
    by (auto simp: remove_vm_def Let_def split: sum.split_asm prod.split_asm bool.split_asm
        option.split_asm entry.split_asm if_splits)
next
  case (run req rootfs ag r ag')
  then show ?case by (rule run_vm_subnet)
qed (simp_all add: task_sections_subnet park_idle_apps_def lease_start_def lease_end_def begin_shutdown_def)

lemma agent_inv_step: "agent_step ag ag' \<Longrightarrow> agent_inv ag \<Longrightarrow> agent_inv ag'"
  using agent_step_subnet[of ag ag'] agent_reg_step[of ag ag'] agent_rec_step[of ag ag'] agent_claims_step[of ag ag']
    agent_hosts_step[of ag ag']
  by (simp add: agent_inv_def)

lemma hosts_in_subnet:
  assumes "agent_reg ag" and "agent_hosts ag"
  shows "set (ag_hosts ag) \<subseteq> set (vm_addresses (ag_subnet ag))"
proof
  fix a
  assume "a \<in> set (ag_hosts ag)"
  then consider n info log sid where "map_of (ag_vms ag) n = Some (Running info log sid)" "vi_vm_address info = Some a"
    | t where "t \<in> set (ag_tasks ag)" "booted_address t = Some a"
    using assms(2) by (auto simp: agent_hosts_def hosts_ok_def running_addresses_def booted_addresses_def)
  then show "a \<in> set (vm_addresses (ag_subnet ag))"
  proof cases
    case 1
    then show ?thesis using reg_okD(4)[OF assms(1)[unfolded agent_reg_def] 1(1)] by simp
  next
    case 2
    from booted_slot[OF 2(2)] obtain n e where e: "task_slot t = Some (n, e)" "entry_vm_address e = Some a" by blast
    show ?thesis
      using reg_okD(4)[OF assms(1)[unfolded agent_reg_def] slot_owner(1)[OF assms(1)[unfolded agent_reg_def] 2(1) e(1)] e(2)] .
  qed
qed

lemma on_record_host:
  assumes "agent_inv ag" and "on_record ag n" and "store_view (ag_store ag) n = Some r"
    and "vi_vm_address (rec_info r) = Some a"
  shows "a \<in> running_addresses (map_of (ag_vms ag)) \<union> booted_addresses (ag_tasks ag)"
proof -
  have reg: "agent_reg ag" and rec: "agent_rec ag" using assms(1) by (simp_all add: agent_inv_def)
  obtain e where e: "map_of (ag_vms ag) n = Some e" "entry_vm_address e = Some a"
    using on_record_address[OF reg rec assms(2,3)] assms(4) by auto
  have task: "booted_address t = Some a" if "t \<in> set (ag_tasks ag)" "task_slot t = Some (n, e')" "booted_address t \<noteq> None" for t e'
    using slot_owner(1)[OF reg[unfolded agent_reg_def] that(1,2)] e booted_slot[of t] that(2,3) by force
  show ?thesis
    using assms(2) e task unfolding on_record_def running_addresses_def booted_addresses_def by fastforce
qed

lemma restored_entry:
  assumes "store_wf st" and all: "restored_all out (records_of st) ag0 ag1" and "ag_vms ag0 = []"
    and n: "map_of (ag_vms ag1) n = Some e"
  shows "\<exists>r. store_view st n = Some r \<and> restored_as out r e"
proof (cases "n \<in> rec_name ` set (records_of st)")
  case True
  then obtain r where r: "r \<in> set (records_of st)" "n = rec_name r" by blast
  then obtain e' where "map_of (ag_vms ag1) n = Some e'" "restored_as out r e'"
    using all unfolding restored_all_def by blast
  then show ?thesis using n r in_records_of[OF assms(1)] by auto
next
  case False
  then show ?thesis using all n assms(3) by (simp add: restored_all_def)
qed

lemma restart_hosts:
  assumes inv: "agent_inv ag" and cur: "processes_current out ag" and names: "names_cover (ro_names out) (ag_hosts ag)"
    and all: "restored_all out (records_of (ag_store ag)) ag0 ag1"
    and ag0: "ag_vms ag0 = []" "ag_hosts ag0 = ag_hosts ag" "ag_subnet ag0 = ag_subnet ag"
  shows "set (ag_hosts (sweep_host_state (ro_names out) ag1)) = running_addresses (map_of (ag_vms ag1))"
proof -
  have wf: "store_wf (ag_store ag)" and reg: "agent_reg ag" and hosts: "agent_hosts ag"
    using inv by (simp_all add: agent_inv_def agent_rec_def)
  have wf1: "bm_wf (ag_vms ag1)" using all reg_okD(1) by (auto simp: restored_all_def restoring_def agent_reg_def)
  note entry = restored_entry[OF wf all ag0(1)]
  have held: "a \<in> set (held_addresses (ag_vms ag1)) \<longleftrightarrow> a \<in> running_addresses (map_of (ag_vms ag1))" for a
  proof
    assume "a \<in> set (held_addresses (ag_vms ag1))"
    then obtain n e where e: "map_of (ag_vms ag1) n = Some e" "entry_vm_address e = Some a"
      using in_held_addresses[OF wf1] by blast
    then obtain r where "restored_as out r e" using entry by blast
    then obtain info log sid where "e = Running info log sid"
      using e(2) by (auto simp: restored_as_def split: if_splits)
    with e have "map_of (ag_vms ag1) n = Some (Running info log sid)" "vi_vm_address info = Some a" by simp_all
    then show "a \<in> running_addresses (map_of (ag_vms ag1))" unfolding running_addresses_def by blast
  next
    assume "a \<in> running_addresses (map_of (ag_vms ag1))"
    then show "a \<in> set (held_addresses (ag_vms ag1))"
      unfolding in_held_addresses[OF wf1] running_addresses_def by fastforce
  qed
  have known: "a \<in> set (ag_hosts ag)" if running: "a \<in> running_addresses (map_of (ag_vms ag1))" for a
  proof -
    obtain n info log sid where e: "map_of (ag_vms ag1) n = Some (Running info log sid)" "vi_vm_address info = Some a"
      using running unfolding running_addresses_def by blast
    then obtain r where r: "store_view (ag_store ag) n = Some r" "restored_as out r (Running info log sid)"
      using entry by blast
    then have "live_record out r" "vi_vm_address (rec_info r) = Some a"
      using e(2) by (auto simp: restored_as_def split: if_splits)
    then have "on_record ag n" using cur r(1) by (simp add: processes_current_def)
    then have "a \<in> running_addresses (map_of (ag_vms ag)) \<union> booted_addresses (ag_tasks ag)"
      using on_record_host[OF inv _ r(1) \<open>vi_vm_address (rec_info r) = Some a\<close>] by blast
    then show ?thesis using hosts by (simp add: agent_hosts_def hosts_ok_def)
  qed
  have sub: "set (ag_hosts ag) \<subseteq> set (vm_addresses (ag_subnet ag))"
    using hosts_in_subnet[OF reg hosts] .
  have f: "ag_hosts ag1 = ag_hosts ag" "ag_subnet ag1 = ag_subnet ag" using all ag0 by (simp_all add: restored_all_def)
  have "set (ag_hosts (sweep_host_state (ro_names out) ag1)) = set (ag_hosts ag1) \<inter> set (held_addresses (ag_vms ag1))"
    using inv sub names by (intro sweep_exact) (simp_all add: f agent_inv_def)
  then show ?thesis using held known by (auto simp: f)
qed

lemma agent_inv_restart:
  assumes "agent_inv ag" and "processes_current out ag" and "no_faults out"
    and names: "names_cover (ro_names out) (ag_hosts ag)" and "restart out dir ag = Inr ag'"
  shows "agent_inv (ag'\<lparr>ag_machines := ms\<rparr>)"
proof -
  have inv: "agent_reg ag" "agent_rec ag" using assms(1) by (simp_all add: agent_inv_def)
  show ?thesis
  proof (rule restart_outcome[OF inv assms(2,3), of dir])
    fix ag0 ag1
    assume r: "restart out dir ag = Inr (sweep_host_state (ro_names out) ag1)"
      and all: "restored_all out (records_of (ag_store ag)) ag0 ag1" and rec: "agent_rec ag1"
      and ag0: "ag0 = remove_unowned_snapshots (ro_stuck out) (records_of (ag_store ag))
           (remove_unrecorded_logs (records_of (ag_store ag))
             (agent_new (ag_subnet ag) dir (ag_store ag) (ag_logs ag) (ag_parked ag) (ag_hosts ag)))"
    have "ag_subnet ag1 = ag_subnet ag" using all ag0 by (simp add: restored_all_def agent_new_def)
    moreover have "agent_reg ag1" "agent_claims ag1" using all by (simp_all add: restored_all_def restoring_def)
    moreover have "set (ag_hosts (sweep_host_state (ro_names out) ag1)) = running_addresses (map_of (ag_vms ag1))"
      using restart_hosts[OF assms(1,2) names all] ag0 by (simp add: agent_new_def)
    moreover have "ag_tasks ag1 = []" using all by (simp add: restored_all_def restoring_def)
    moreover have "ag' = sweep_host_state (ro_names out) ag1" using r assms(5) by simp
    ultimately show ?thesis
      using assms(1) rec by (simp add: agent_inv_def agent_reg_def agent_rec_def agent_claims_def sweep_host_state_def
          agent_hosts_def hosts_ok_def)
  qed
qed

lemma reachable_inv: "reachable ag \<Longrightarrow> agent_inv ag"
  by (induction rule: reachable.induct) (simp_all add: agent_inv_fresh agent_inv_step agent_inv_restart)

lemma reachableD:
  assumes "reachable ag"
  shows "subnet_ok (ag_subnet ag)" "agent_reg ag" "agent_rec ag" "agent_claims ag" "agent_hosts ag"
  using reachable_inv[OF assms] by (simp_all add: agent_inv_def)

lemma reachable_steps: "agent_step\<^sup>*\<^sup>* ag ag' \<Longrightarrow> reachable ag \<Longrightarrow> reachable ag'"
  by (induction rule: rtranclp_induct) (auto intro: reachable.step)


subsection \<open>A run of the agent\<close>

text \<open>
  \<open>start_app\<close> is a run request that goes through, with the sections in between; the runs below give the
  properties' examples.
\<close>

definition start_app :: "process_id \<Rightarrow> run_request \<Rightarrow> agent \<Rightarrow> agent" where
  "start_app p req ag =
     (let ag1 = snd (run_vm req (Inr ()) ag);
          ag2 = start_booted p (hd (ag_tasks ag1)) ag1;
          ag3 = start_record 100 None (hd (ag_tasks ag2)) ag2
      in start_finish 0 (hd (ag_tasks ag3)) ag3)"

definition accepted :: "(api_error + 'a) \<times> agent \<Rightarrow> bool" where
  "accepted r \<longleftrightarrow> (case fst r of Inl _ \<Rightarrow> False | Inr _ \<Rightarrow> True)"

lemma start_app_steps:
  assumes "accepted (run_vm req (Inr ()) ag)"
  shows "agent_step\<^sup>*\<^sup>* ag (start_app p req ag)"
proof -
  define ag1 where "ag1 = snd (run_vm req (Inr ()) ag)"
  obtain t where run: "run_vm req (Inr ()) ag = (Inr t, ag1)"
    using assms by (cases "fst (run_vm req (Inr ()) ag)") (auto simp: accepted_def ag1_def prod_eq_iff)
  obtain spec old ts where t: "t = StartTask (rr_name req) spec (rr_route req) old Booting"
    and ag1: "ag_tasks ag1 = t # ts"
    using run by (auto elim!: run_vm_success)
  define ag2 where "ag2 = start_booted p t ag1"
  define t2 where "t2 = StartTask (rr_name req) spec (rr_route req) old (Booted p)"
  have ag2: "ag_tasks ag2 = t2 # ts"
    by (simp add: ag2_def start_booted_def t advance_def ag1[unfolded t] t2_def)
  define ag3 where "ag3 = start_record 100 None t2 ag2"
  obtain t3 where ag3: "ag_tasks ag3 = t3 # ts"
    by (auto simp: ag3_def start_record_def t2_def advance_def ag2[unfolded t2_def] Let_def insert_running_def db_exec_def)
  have "start_app p req ag = start_finish 0 t3 ag3"
    by (simp add: start_app_def Let_def ag1_def[symmetric] ag1 ag2_def[symmetric] ag2 ag3_def[symmetric] ag3)
  moreover have "agent_step ag ag1" using run by (rule agent_step.run)
  moreover have "agent_step ag1 ag2" unfolding ag2_def by (rule agent_step.start_booted) (simp add: ag1)
  moreover have "agent_step ag2 ag3" unfolding ag3_def by (rule agent_step.start_record) (simp add: ag2)
  moreover have "agent_step ag3 (start_finish 0 t3 ag3)" by (rule agent_step.start_finish) (simp add: ag3)
  ultimately have "agent_step\<^sup>*\<^sup>* ag ag3" "agent_step ag3 (start_app p req ag)" by (auto intro: rtranclp.intros)
  then show ?thesis by (rule rtranclp.rtrancl_into_rtrancl)
qed

definition demo_subnet :: subnet where
  "demo_subnet = \<lparr>network = 0x0A4D0000, prefix_len = 28\<rparr>"

definition demo_request :: "string \<Rightarrow> route option \<Rightarrow> run_request" where
  "demo_request name rt = \<lparr>rr_name = name, rr_rootfs = ''/r'', rr_mem_mib = 256, rr_vcpus = 1, rr_command = [''/app''],
     rr_env = [], rr_workdir = None, rr_user = None, rr_route = rt\<rparr>"

definition demo_route :: "route option" where
  "demo_route = Some \<lparr>route_host = ''h'', route_port = 80, idle_park_secs = Some 5\<rparr>"

definition demo_process :: process_id where
  "demo_process = \<lparr>pid = 7, start_time = 9\<rparr>"

definition demo_fresh :: agent where
  "demo_fresh = fresh_agent demo_subnet ''/s''"

definition demo_running :: agent where
  "demo_running = start_app demo_process (demo_request ''a'' demo_route) demo_fresh"

definition demo_two :: agent where
  "demo_two = start_app demo_process (demo_request ''b'' None) demo_running"

definition demo_idle :: agent where
  "demo_idle = park_idle_apps 6 demo_running"

definition demo_parking :: agent where
  "demo_parking = supervisor_ends 200 None 0 Parked (park_send 6 (hd (ag_tasks demo_idle)) demo_idle)"

definition demo_parked :: agent where
  "demo_parked = park_finish 7 ParkDone (hd (ag_tasks demo_parking)) demo_parking"

definition demo_starting :: agent where
  "demo_starting = snd (run_vm (demo_request ''a'' demo_route) (Inr ()) demo_fresh)"

text \<open>A running App ended; its name is being reused without a route, and another App has its hostname.\<close>

definition demo_reused :: agent where
  "demo_reused =
     (let ag = supervisor_ends 200 None 0 Exited demo_running;
          ag = snd (run_vm (demo_request ''a'' None) (Inr ()) ag)
      in start_app demo_process (demo_request ''b'' demo_route) ag)"

definition demo_shared :: agent where
  "demo_shared = start_failed (hd (ag_tasks demo_reused)) demo_reused"

lemma demo_subnet_ok: "subnet_ok demo_subnet"
  by (simp add: demo_subnet_def subnet_eval)

lemma reachable_demo_fresh: "reachable demo_fresh"
  unfolding demo_fresh_def by (rule reachable.fresh) (rule demo_subnet_ok)

lemma demo_fresh_accepts: "accepted (run_vm (demo_request ''a'' demo_route) (Inr ()) demo_fresh)"
  by code_simp

lemma reachable_demo_running: "reachable demo_running"
  unfolding demo_running_def
  by (rule reachable_steps[OF start_app_steps[OF demo_fresh_accepts] reachable_demo_fresh])


text \<open>What the examples look at.\<close>

definition demo_view :: "agent \<Rightarrow> (string, entry) bmap \<times> task list \<times> string list \<times> ipv4 list" where
  "demo_view ag = (ag_vms ag, ag_tasks ag, map fst (vms_table (ag_store ag)), ag_hosts ag)"

definition demo_info :: "string \<Rightarrow> ipv4 \<Rightarrow> route option \<Rightarrow> vm_info" where
  "demo_info name a rt =
     \<lparr>vi_name = name, vi_vm_address = Some a, vi_mem_mib = 256, vi_vcpus = 1, vi_started_at = 100, vi_ended = None,
      vi_route = rt\<rparr>"

lemma demo_running_view:
  "demo_view demo_running =
     ([(''a'', Running (demo_info ''a'' 0x0A4D0002 demo_route) ''/s/logs/a.0.log'' 0)], [], [''a''], [0x0A4D0002])"
  by code_simp

lemma demo_two_view:
  "demo_view demo_two =
     ([(''a'', Running (demo_info ''a'' 0x0A4D0002 demo_route) ''/s/logs/a.0.log'' 0),
       (''b'', Running (demo_info ''b'' 0x0A4D0003 None) ''/s/logs/b.1.log'' 1)], [], [''a'', ''b''],
      [0x0A4D0003, 0x0A4D0002])"
  by code_simp

lemma reachable_run: "reachable ag \<Longrightarrow> reachable (snd (run_vm req rootfs ag))"
  by (rule reachable.step[OF _ agent_step.run[OF prod.collapse[symmetric]]])

lemma reachable_start_app:
  "reachable ag \<Longrightarrow> accepted (run_vm req (Inr ()) ag) \<Longrightarrow> reachable (start_app p req ag)"
  using reachable_steps start_app_steps by blast

lemma reachable_demo_two: "reachable demo_two"
  unfolding demo_two_def by (rule reachable_start_app[OF reachable_demo_running]) code_simp

lemma reachable_demo_starting: "reachable demo_starting"
  unfolding demo_starting_def by (rule reachable_run[OF reachable_demo_fresh])

lemma reachable_demo_idle: "reachable demo_idle"
  unfolding demo_idle_def by (rule reachable.step[OF reachable_demo_running agent_step.park_idle])

lemma demo_idle_tasks: "ag_tasks demo_idle = [ParkTask ''a'' 0 True Claimed]"
  by code_simp

lemma demo_parking_tasks: "ag_tasks demo_parking = [ParkTask ''a'' 0 True (Sent 0)]"
  by code_simp

lemma reachable_demo_parking: "reachable demo_parking"
  unfolding demo_parking_def
  by (rule reachable.step[OF reachable.step[OF reachable_demo_idle agent_step.park_send] agent_step.supervisor_ends])
    (simp add: demo_idle_tasks)

lemma reachable_demo_parked: "reachable demo_parked"
  unfolding demo_parked_def
  by (rule reachable.step[OF reachable_demo_parking agent_step.park_finish]) (simp add: demo_parking_tasks)

lemma reachable_demo_reused: "reachable demo_reused"
  unfolding demo_reused_def Let_def
  by (rule reachable_start_app[OF reachable_run[OF reachable.step[OF reachable_demo_running agent_step.supervisor_ends]]])
    code_simp

lemma demo_reused_tasks: "hd (ag_tasks demo_reused) \<in> set (ag_tasks demo_reused)"
  by code_simp

lemma reachable_demo_shared: "reachable demo_shared"
  unfolding demo_shared_def
  by (rule reachable.step[OF reachable_demo_reused agent_step.start_failed[OF demo_reused_tasks]])

subsection \<open>Addresses\<close>

text \<open>C1: two VMs of a Node never hold the same address, nor host objects of the same name, whatever
  requests run concurrently and across restarts of the agent, and both addresses are the subnet's.\<close>

theorem vms_never_share_address:
  assumes "reachable ag" and "map_of (ag_vms ag) n = Some e" and "map_of (ag_vms ag) m = Some e'" and "n \<noteq> m"
    and "entry_vm_address e = Some a" and "entry_vm_address e' = Some b"
  shows "a \<noteq> b \<and> host_id a \<noteq> host_id b \<and> a \<in> set (vm_addresses (ag_subnet ag)) \<and> b \<in> set (vm_addresses (ag_subnet ag))"
proof -
  note ok = reachableD(2)[OF assms(1), unfolded agent_reg_def]
  have "a \<noteq> b" using exclusiveD[OF reg_okD(2)[OF ok] assms(2,3,5)] assms(4,6) by blast
  moreover have "a \<in> set (vm_addresses (ag_subnet ag))" "b \<in> set (vm_addresses (ag_subnet ag))"
    using reg_okD(4)[OF ok] assms(2,3,5,6) by blast+
  ultimately show ?thesis using host_id_inj[OF reachableD(1)[OF assms(1)]] by blast
qed

theorem vms_never_share_address_witness:
  "(0x0A4D0002 :: ipv4) \<noteq> 0x0A4D0003 \<and> host_id 0x0A4D0002 \<noteq> host_id 0x0A4D0003 \<and>
   0x0A4D0002 \<in> set (vm_addresses (ag_subnet demo_two)) \<and> 0x0A4D0003 \<in> set (vm_addresses (ag_subnet demo_two))"
proof (rule vms_never_share_address[OF reachable_demo_two])
  show "map_of (ag_vms demo_two) ''a'' = Some (Running (demo_info ''a'' 0x0A4D0002 demo_route) ''/s/logs/a.0.log'' 0)"
    "map_of (ag_vms demo_two) ''b'' = Some (Running (demo_info ''b'' 0x0A4D0003 None) ''/s/logs/b.1.log'' 1)"
    using demo_two_view by (simp_all add: demo_view_def)
qed (simp_all add: demo_info_def)

text \<open>A VM gets the lowest address of the subnet that no VM holds; a request is refused for want of an
  address only when every one is held.\<close>

theorem free_address_lowest:
  assumes "bm_wf vms"
  shows "free_vm_address s vms =
    (case sorted_list_of_set (set (vm_addresses s) - {a. \<exists>n e. map_of vms n = Some e \<and> entry_vm_address e = Some a}) of
       [] \<Rightarrow> Inl (ApiError SERVICE_UNAVAILABLE NoFreeAddresses)
     | a # _ \<Rightarrow> Inr a)"
proof -
  let ?p = "\<lambda>a. a \<notin> set (held_addresses vms)"
  have held: "{a. \<exists>n e. map_of vms n = Some e \<and> entry_vm_address e = Some a} = set (held_addresses vms)"
    using in_held_addresses[OF assms] by auto
  have "sorted (vm_addresses s)" "distinct (vm_addresses s)"
    using sorted_vm_addresses[of s] by (auto simp: strict_sorted_iff)
  then have "sorted (filter ?p (vm_addresses s))" "distinct (filter ?p (vm_addresses s))"
    by (auto intro: sorted_filter[of "\<lambda>x. x", simplified])
  then have "sorted_list_of_set (set (filter ?p (vm_addresses s))) = filter ?p (vm_addresses s)"
    by (rule sorted_list_of_set.idem_if_sorted_distinct)
  moreover have "set (filter ?p (vm_addresses s)) = set (vm_addresses s) - set (held_addresses vms)" by auto
  ultimately have "sorted_list_of_set (set (vm_addresses s) - set (held_addresses vms)) = filter ?p (vm_addresses s)" by simp
  moreover have "find ?p xs = (case filter ?p xs of [] \<Rightarrow> None | a # _ \<Rightarrow> Some a)" for xs :: "ipv4 list"
    by (induction xs) auto
  ultimately show ?thesis
    unfolding held free_vm_address_def ok_or_def by (simp split: list.splits)
qed

theorem free_address_lowest_witness:
  "free_vm_address demo_subnet [(''a'', Starting 0x0A4D0002 ''l'' None)] =
   (case sorted_list_of_set (set (vm_addresses demo_subnet) -
        {a. \<exists>n e. map_of [(''a'', Starting 0x0A4D0002 ''l'' None)] n = Some e \<and> entry_vm_address e = Some a}) of
      [] \<Rightarrow> Inl (ApiError SERVICE_UNAVAILABLE NoFreeAddresses)
    | a # _ \<Rightarrow> Inr a)"
  by (rule free_address_lowest) (simp add: bm_wf_def)

subsection \<open>Records and restarts\<close>



text \<open>C4: an agent restarted over whatever an earlier one left starts (when the disk reads and the database
  writes), and has exactly the recorded VMs: as running those whose process runs, as Ended every other,
  with the reason \<open>agent_down\<close> when it was recorded as running.\<close>

theorem restart_takes_back:
  assumes "reachable ag" and "processes_current out ag" and "no_faults out"
  shows "\<exists>ag'. restart out dir ag = Inr ag' \<and>
    (\<forall>n. case store_view (ag_store ag) n of
           None \<Rightarrow> map_of (ag_vms ag') n = None
         | Some r \<Rightarrow> (\<exists>e. map_of (ag_vms ag') n = Some e \<and> restored_as out r e))"
proof (rule restart_outcome[OF reachableD(2,3)[OF assms(1)] assms(2,3), of dir])
  fix ag1 ag0
  assume r: "restart out dir ag = Inr (sweep_host_state (ro_names out) ag1)"
    and all: "restored_all out (records_of (ag_store ag)) ag0 ag1"
    and ag0: "ag0 = remove_unowned_snapshots (ro_stuck out) (records_of (ag_store ag))
           (remove_unrecorded_logs (records_of (ag_store ag))
             (agent_new (ag_subnet ag) dir (ag_store ag) (ag_logs ag) (ag_parked ag) (ag_hosts ag)))"
  have wf: "store_wf (ag_store ag)" using reachableD(3)[OF assms(1)] by (simp add: agent_rec_def)
  have "case store_view (ag_store ag) n of
           None \<Rightarrow> map_of (ag_vms ag1) n = None
         | Some r \<Rightarrow> (\<exists>e. map_of (ag_vms ag1) n = Some e \<and> restored_as out r e)" for n
  proof (cases "store_view (ag_store ag) n")
    case None
    then have "n \<notin> rec_name ` set (records_of (ag_store ag))" using in_records_of[OF wf] by force
    then show ?thesis using all None by (simp add: restored_all_def ag0 agent_new_def)
  next
    case (Some x)
    have "rec_name x = n" using store_view_name[OF Some] .
    then have "x \<in> set (records_of (ag_store ag))" using in_records_of[OF wf] Some by simp
    then show ?thesis using all Some \<open>rec_name x = n\<close> by (auto simp: restored_all_def)
  qed
  then show ?thesis
    by (intro exI[of _ "sweep_host_state (ro_names out) ag1"]) (simp only: r sweep_frame simp_thms)
qed

definition demo_outside :: reconcile_outside where
  "demo_outside = \<lparr>ro_load = None, ro_logs_dir = None, ro_parked_dir = None, ro_mark = (\<lambda>_. None),
     ro_alive = (\<lambda>p. p = demo_process), ro_stuck = (\<lambda>_. False), ro_names = [[host_id 0x0A4D0002, ''lo'']],
     ro_now = 300, ro_time = 0\<rparr>"

lemma demo_running_current: "processes_current demo_outside demo_running"
proof -
  have "dom (store_view (ag_store demo_running)) = set (map fst (vms_table (ag_store demo_running)))"
    using reachableD(3)[OF reachable_demo_running] by (simp add: store_view_dom agent_rec_def)
  also have "\<dots> = {''a''}" using demo_running_view by (simp add: demo_view_def)
  finally have "n = ''a''" if "store_view (ag_store demo_running) n = Some r" for n r using that by blast
  moreover have "on_record demo_running ''a''"
    unfolding on_record_def using demo_running_view by (simp add: demo_view_def)
  ultimately show ?thesis unfolding processes_current_def by blast
qed

lemma demo_no_faults: "no_faults demo_outside"
  by (simp add: no_faults_def demo_outside_def)

theorem restart_takes_back_witness:
  "\<exists>ag'. restart demo_outside ''/s'' demo_running = Inr ag' \<and>
    (\<forall>n. case store_view (ag_store demo_running) n of
           None \<Rightarrow> map_of (ag_vms ag') n = None
         | Some r \<Rightarrow> (\<exists>e. map_of (ag_vms ag') n = Some e \<and> restored_as demo_outside r e))"
  by (rule restart_takes_back[OF reachable_demo_running demo_running_current demo_no_faults])



subsection \<open>Starts and wakes that fail\<close>

text \<open>A start that fails undoes its reservation: the registry is the one before the request, with the
  Ended VM the start would have replaced back in its place, and no record was written.\<close>

theorem failed_start_undone:
  assumes "reachable ag" and "run_vm req rootfs ag = (Inr t, ag')"
  shows "ag_vms (start_failed t ag') = ag_vms ag \<and> ag_store (start_failed t ag') = ag_store ag \<and>
    ag_tasks (start_failed t ag') = ag_tasks ag"
  using assms(2)
proof (rule run_vm_success)
  fix guest log a old ag1
  assume res: "reserve req log (ag\<lparr>ag_next_log := ag_next_log ag + 1\<rparr>) = Inr (a, old, ag1)"
    and t: "t = StartTask (rr_name req) \<lparr>vs_vm_address = a, vs_rootfs = rr_rootfs req, vs_mem_mib = rr_mem_mib req,
          vs_vcpus = rr_vcpus req, vs_guest = guest, vs_console_log = log\<rparr> (rr_route req) old Booting"
    and ag': "ag' = ag1\<lparr>ag_tasks := t # ag_tasks ag1\<rparr>"
  have wf: "bm_wf (ag_vms ag)" using reg_okD(1)[OF reachableD(2)[OF assms(1), unfolded agent_reg_def]] .
  have wf': "bm_wf (ag_vms (ag\<lparr>ag_next_log := ag_next_log ag + 1\<rparr>))" using wf by simp
  note sp = reserve_spec(1,8)[OF res wf']
  have "map_of (ag_vms (start_failed t ag')) = map_of (ag_vms ag)"
    using sp(2) by (auto simp: start_failed_def t ag' sp(1) map_of_forget fun_eq_iff)
  moreover have "bm_wf (ag_vms (start_failed t ag'))"
    by (simp add: start_failed_def t bm_wf_forget ag' sp(1) bm_wf_insert wf)
  ultimately have "ag_vms (start_failed t ag') = ag_vms ag" using wf by (intro bm_eqI) simp_all
  then show ?thesis by (simp add: start_failed_def t ag' sp(1))
qed

theorem failed_start_undone_witness:
  "ag_vms (start_failed (hd (ag_tasks demo_starting)) demo_starting) = ag_vms demo_fresh \<and>
   ag_store (start_failed (hd (ag_tasks demo_starting)) demo_starting) = ag_store demo_fresh \<and>
   ag_tasks (start_failed (hd (ag_tasks demo_starting)) demo_starting) = ag_tasks demo_fresh"
proof (rule failed_start_undone[OF reachable_demo_fresh])
  obtain t ag' where r: "run_vm (demo_request ''a'' demo_route) (Inr ()) demo_fresh = (Inr t, ag')"
    using demo_fresh_accepts by (auto simp: accepted_def split: sum.splits) (metis prod.collapse)
  moreover have "hd (ag_tasks ag') = t" using r by (rule run_vm_success) simp
  ultimately show "run_vm (demo_request ''a'' demo_route) (Inr ()) demo_fresh = (Inr (hd (ag_tasks demo_starting)), demo_starting)"
    by (simp add: demo_starting_def)
qed


definition demo_waking :: agent where
  "demo_waking = snd (wake_vm ''a'' demo_parked)"

lemma demo_wakes: "accepted (wake_vm ''a'' demo_parked)"
  by code_simp

lemma accepted_eq: "accepted r \<Longrightarrow> r = (Inr (projr (fst r)), snd r)"
  by (cases r) (auto simp: accepted_def split: sum.splits)


subsection \<open>Parks and requests\<close>



text \<open>A VM is claimed by one park at a time.\<close>

theorem one_park_per_vm:
  assumes "reachable ag"
  shows "distinct (claims (ag_tasks ag)) \<and> (\<forall>sid. parking (ag_traffic ag sid) \<longleftrightarrow> sid \<in> set (claims (ag_tasks ag)))"
  using reachableD(4)[OF assms] by (simp add: agent_claims_def claims_ok_def)

theorem one_park_per_vm_witness:
  "distinct (claims (ag_tasks demo_idle)) \<and>
   (\<forall>sid. parking (ag_traffic demo_idle sid) \<longleftrightarrow> sid \<in> set (claims (ag_tasks demo_idle)))"
  by (rule one_park_per_vm[OF reachable_demo_idle])

text \<open>C14: the edge sends a request only to the address and port of an App's VM that runs and isn't being
  parked, found under the request's hostname, and counts the request before anything else can happen.\<close>

theorem edge_reaches_running_vm:
  assumes "reachable ag" and "step_for host ag = (Answer (UpstreamVm a port sid), ag')"
  shows "\<exists>name info log r. map_of (ag_vms ag) name = Some (Running info log sid) \<and> vi_vm_address info = Some a \<and>
     vi_route info = Some r \<and> route_host r = host \<and> route_port r = port \<and> \<not> parking (ag_traffic ag sid) \<and>
     in_flight (ag_traffic ag' sid) = in_flight (ag_traffic ag sid) + 1 \<and> sid \<in> set (ag_leases ag')"
proof -
  have "ag' = lease_start sid ag" using step_for_agent[OF assms(2)] by simp
  then show ?thesis using step_for_upstream[OF reachableD(2)[OF assms(1)] assms(2)] by (auto simp: lease_start_def)
qed

theorem edge_reaches_running_vm_witness:
  "\<exists>name info log r. map_of (ag_vms demo_running) name = Some (Running info log 0) \<and>
     vi_vm_address info = Some 0x0A4D0002 \<and> vi_route info = Some r \<and> route_host r = ''h'' \<and> route_port r = 80 \<and>
     \<not> parking (ag_traffic demo_running 0) \<and>
     in_flight (ag_traffic (lease_start 0 demo_running) 0) = in_flight (ag_traffic demo_running 0) + 1 \<and>
     0 \<in> set (ag_leases (lease_start 0 demo_running))"
proof (rule edge_reaches_running_vm[OF reachable_demo_running])
  have "fst (step_for ''h'' demo_running) = Answer (UpstreamVm 0x0A4D0002 80 0)" by code_simp
  then show "step_for ''h'' demo_running = (Answer (UpstreamVm 0x0A4D0002 80 0), lease_start 0 demo_running)"
    using step_for_agent[of "''h''" demo_running] by (cases "step_for ''h'' demo_running") auto
qed

text \<open>C31: a request the edge holds is held by a start, wake or park that is still under way, and the
  end of a start or wake is announced in the same step in which the App stops starting, so a request
  that listens before it looks isn't left waiting.\<close>

theorem held_request_is_told:
  assumes "reachable ag" and "step_for host ag = (Hold name h, ag')" and "agent_step ag ag''"
  shows "(\<exists>t \<in> set (ag_tasks ag). settles_hold name h ag t) \<and>
    (h = HoldStart \<longrightarrow> map_of (ag_vms ag'') name = map_of (ag_vms ag) name \<or> ag_settled ag < ag_settled ag'')"
proof -
  have reg: "agent_reg ag" and cl: "agent_claims ag" using reachableD[OF assms(1)] by simp_all
  have told: "told name ag ag''" using told_step[OF assms(3) reg] .
  have "\<exists>e. map_of (ag_vms ag) name = Some e \<and> is_starting e" if hs: "h = HoldStart"
  proof -
    obtain e where "app_with_host (ag_vms ag) host = Some (name, e)" "is_starting e"
      using assms(2) hs by (auto simp: step_for_def split: option.split_asm entry.split_asm if_splits)
    then show ?thesis using app_with_host_SomeD bm.entry_iff[OF reg_okD(1)[OF reg[unfolded agent_reg_def]]] by metis
  qed
  then show ?thesis using hold_has_task[OF reg cl assms(2)] told by (auto simp: told_def)
qed

theorem held_request_is_told_witness:
  "(\<exists>t \<in> set (ag_tasks demo_starting). settles_hold ''a'' HoldStart demo_starting t) \<and>
   (map_of (ag_vms (begin_shutdown demo_starting)) ''a'' = map_of (ag_vms demo_starting) ''a'' \<or>
    ag_settled demo_starting < ag_settled (begin_shutdown demo_starting))"
proof -
  have "fst (step_for ''h'' demo_starting) = Hold ''a'' HoldStart" by code_simp
  then have "step_for ''h'' demo_starting = (Hold ''a'' HoldStart, snd (step_for ''h'' demo_starting))"
    by (simp add: prod_eq_iff)
  from held_request_is_told[OF reachable_demo_starting this agent_step.shutdown] show ?thesis by blast
qed

subsection \<open>Names and hostnames\<close>

lemma agent_names_steps:
  assumes "agent_step\<^sup>*\<^sup>* ag ag'" and "agent_reg ag" and "agent_names ag"
  shows "agent_reg ag' \<and> agent_names ag'"
  using assms by (induction rule: rtranclp_induct) (auto intro: agent_reg_step agent_names_step)

text \<open>A name is a VM's or a Machine-backed App's, never both, whatever requests run concurrently.\<close>

theorem names_have_one_owner:
  assumes "subnet_ok s" and "agent_step\<^sup>*\<^sup>* (fresh_agent s dir) ag" and "has_app (ag_machines ag) name"
  shows "map_of (ag_vms ag) name = None"
proof -
  have "agent_names (fresh_agent s dir)" by (simp add: agent_names_def fresh_agent_def agent_new_def app_names_def)
  then have n: "agent_names ag"
    using agent_names_steps[OF assms(2)] agent_inv_fresh[OF assms(1)] by (simp add: agent_inv_def)
  then have "name \<in> app_names (ag_machines ag)"
    using assms(3) has_app_iff by (simp add: agent_names_def app_names_def)
  then show ?thesis using n by (simp add: agent_names_def)
qed

definition demo_machine_outside :: add_outside where
  "demo_machine_outside = \<lparr>ao_scan_ed25519 = Inr ''m ssh-ed25519 AAAA'', ao_scan_all = Inr [], ao_fingerprint = (\<lambda>_. Inr ''F''),
     ao_public_key = Inr ''k'', ao_pin_fault = None, ao_login = None, ao_unpin_fault = None, ao_db_fault = None,
     ao_connect_fault = None, ao_ports = Inr []\<rparr>"

definition demo_add :: add_machine where
  "demo_add = \<lparr>am_name = ''m'', am_ssh = ''u@m'', am_host_key = ''F''\<rparr>"

definition demo_machine :: agent where
  "demo_machine =
     (case machine_add demo_machine_outside demo_add (ag_machines demo_fresh) (ag_store demo_fresh) of
        (_, ms, st) \<Rightarrow> demo_fresh\<lparr>ag_machines := ms, ag_store := st\<rparr>)"

definition demo_app :: machine_app_request where
  "demo_app = \<lparr>mar_name = ''c'', mar_machine = ''m'',
     mar_route = \<lparr>route_host = ''g'', route_port = 80, idle_park_secs = None\<rparr>\<rparr>"

definition demo_machine_app :: agent where
  "demo_machine_app = snd (run_on_machine (Inr [9000]) (Inr []) None demo_app demo_machine)"

lemma demo_machine_steps: "agent_step\<^sup>*\<^sup>* demo_fresh demo_machine_app"
proof -
  have "agent_step demo_fresh demo_machine"
    unfolding demo_machine_def
    by (auto split: prod.splits intro: agent_step.machine_add)
  moreover have "agent_step demo_machine demo_machine_app"
    unfolding demo_machine_app_def by (rule agent_step.run_on_machine[OF prod.collapse[symmetric]])
  ultimately show ?thesis by (auto intro: rtranclp.intros)
qed

theorem names_have_one_owner_witness: "map_of (ag_vms demo_machine_app) ''c'' = None"
  by (rule names_have_one_owner[OF demo_subnet_ok demo_machine_steps[unfolded demo_fresh_def]]) code_simp

text \<open>C11: a hostname can come to belong to two Apps, against what the wire types promise: an Ended App's
  name is reused without its route, another App takes the hostname and runs, and the first start
  fails, which puts the Ended App back with its route. The edge then answers for the Ended App although
  the other one runs.\<close>

theorem hostname_shared_after_failed_start:
  "\<exists>ag ea eb. reachable ag \<and> map_of (ag_vms ag) ''a'' = Some ea \<and> map_of (ag_vms ag) ''b'' = Some eb \<and>
     entry_host ea = Some ''h'' \<and> entry_host eb = Some ''h'' \<and> (\<exists>info log sid. eb = Running info log sid) \<and>
     fst (step_for ''h'' ag) = Answer (Unavailable (AppEnded ''a'' (Some Exited)))"
proof (intro exI conjI)
  show "reachable demo_shared" by (rule reachable_demo_shared)
  let ?a = "Ended (ended_info (demo_info ''a'' 0x0A4D0002 demo_route) \<lparr>ended_at = 200, ended_reason = Exited\<rparr>) ''/s/logs/a.0.log''"
  let ?b = "Running (demo_info ''b'' 0x0A4D0003 demo_route) ''/s/logs/b.2.log'' 1"
  have v: "demo_view demo_shared = ([(''a'', ?a), (''b'', ?b)], [], [''a'', ''b''], [0x0A4D0003])"
    by code_simp
  then show "map_of (ag_vms demo_shared) ''a'' = Some ?a" "map_of (ag_vms demo_shared) ''b'' = Some ?b"
    by (simp_all add: demo_view_def)
  show "fst (step_for ''h'' demo_shared) = Answer (Unavailable (AppEnded ''a'' (Some Exited)))"
    by code_simp
qed (simp_all add: entry_host_def demo_info_def demo_route_def ended_info_def)

text \<open>C12: nothing else makes two Apps share a hostname: a section of a handler keeps hostnames exclusive
  whenever no start under way would put back an Ended App whose hostname was taken meanwhile.\<close>

theorem hostnames_stay_exclusive:
  assumes "agent_step ag ag'" and "agent_reg ag" and "agent_names ag" and "agent_hostnames ag"
    and "\<forall>t \<in> set (ag_tasks ag). put_back_free ag t"
  shows "exclusive entry_host (map_of (ag_vms ag')) \<and>
    (\<forall>n e h. map_of (ag_vms ag') n = Some e \<longrightarrow> entry_host e = Some h \<longrightarrow> machine_app_with_host (ag_machines ag') h = None)"
proof -
  have h: "agent_hostnames ag'" by (rule agent_hostnames_step[OF assms])
  have wf: "machines_wf (ag_machines ag')"
    using agent_names_step[OF assms(1-3)] by (simp add: agent_names_def)
  have "machine_app_with_host (ag_machines ag') host = None"
    if "map_of (ag_vms ag') n = Some e" "entry_host e = Some host" for n e host
    using h that machine_app_with_host_None[of "ag_machines ag'" host] wf
    by (auto simp: agent_hostnames_def free_of_def)
  then show ?thesis using h by (auto simp: agent_hostnames_def)
qed

lemma demo_running_names: "agent_reg demo_running" "agent_names demo_running"
proof -
  have "agent_step\<^sup>*\<^sup>* demo_fresh demo_running"
    unfolding demo_running_def by (rule start_app_steps[OF demo_fresh_accepts])
  moreover have "agent_reg demo_fresh" using reachableD(2)[OF reachable_demo_fresh] .
  moreover have "agent_names demo_fresh" by (simp add: demo_fresh_def agent_names_def fresh_agent_def agent_new_def app_names_def)
  ultimately show "agent_reg demo_running" "agent_names demo_running" using agent_names_steps by blast+
qed

theorem hostnames_stay_exclusive_witness:
  "exclusive entry_host (map_of (ag_vms (begin_shutdown demo_running))) \<and>
   machine_app_with_host (ag_machines (begin_shutdown demo_running)) ''h'' = None"
proof -
  have v: "ag_vms demo_running = [(''a'', Running (demo_info ''a'' 0x0A4D0002 demo_route) ''/s/logs/a.0.log'' 0)]"
    "ag_tasks demo_running = []"
    using demo_running_view by (simp_all add: demo_view_def)
  have "app_hosts (ag_machines demo_running) = []" by code_simp
  then have h: "agent_hostnames demo_running" by (simp add: v agent_hostnames_def exclusive_def)
  have free: "\<forall>t \<in> set (ag_tasks demo_running). put_back_free demo_running t" by (simp add: v)
  have "map_of (ag_vms (begin_shutdown demo_running)) ''a'' =
      Some (Running (demo_info ''a'' 0x0A4D0002 demo_route) ''/s/logs/a.0.log'' 0)"
    by (simp add: begin_shutdown_def v)
  moreover have "entry_host (Running (demo_info ''a'' 0x0A4D0002 demo_route) ''/s/logs/a.0.log'' 0) = Some ''h''"
    by (simp add: entry_host_def demo_info_def demo_route_def)
  ultimately show ?thesis
    using hostnames_stay_exclusive[OF agent_step.shutdown demo_running_names h free] by blast
qed

subsection \<open>Shutdown\<close>

lemma begin_shutdown_flag [simp]: "ag_shutting_down (begin_shutdown ag)"
  by (simp add: begin_shutdown_def)

text \<open>C33: once shutdown has begun no VM starts or wakes any more, and the agent waits exactly while a
  start or wake accepted before is still under way.\<close>

theorem shutdown_drains:
  assumes "reachable ag" and "ag_shutting_down ag"
  shows "(\<exists>e. fst (run_vm req rootfs ag) = Inl e) \<and> fst (wake_vm name ag) = Inl shutting_down_error \<and>
    (shutdown_waits ag \<longleftrightarrow> (\<exists>t \<in> set (ag_tasks ag). task_slot t \<noteq> None))"
proof -
  note ok = reachableD(2)[OF assms(1), unfolded agent_reg_def]
  have "\<exists>e. fst (run_vm req rootfs ag) = Inl e"
    using assms(2)
    by (auto simp: run_vm_def new_log_path_def reserve_def Let_def check_def split: sum.splits prod.splits)
  moreover have "fst (wake_vm name ag) = Inl shutting_down_error" using assms(2) by (simp add: wake_vm_def)
  moreover have "shutdown_waits ag \<longleftrightarrow> starting_of (ag_vms ag) \<noteq> {}"
  proof -
    have "(case e of Starting _ _ _ \<Rightarrow> True | _ \<Rightarrow> False) = is_starting e" for e by (cases e) simp_all
    then have "shutdown_waits ag \<longleftrightarrow> (\<exists>n e. (n, e) \<in> set (ag_vms ag) \<and> is_starting e)"
      by (auto simp: shutdown_waits_def list_ex_iff)
    then show ?thesis unfolding bm.entry_iff[OF reg_okD(1)[OF ok]] starting_of_def by blast
  qed
  moreover have "starting_of (ag_vms ag) \<noteq> {} \<longleftrightarrow> (\<exists>t \<in> set (ag_tasks ag). task_slot t \<noteq> None)"
    unfolding reg_okD(6)[OF ok, symmetric] slots_def set_map_filter by blast
  ultimately show ?thesis by blast
qed

theorem shutdown_drains_witness:
  "(\<exists>e. fst (run_vm (demo_request ''b'' None) (Inr ()) (begin_shutdown demo_starting)) = Inl e) \<and>
   fst (wake_vm ''a'' (begin_shutdown demo_starting)) = Inl shutting_down_error \<and>
   (shutdown_waits (begin_shutdown demo_starting) \<longleftrightarrow>
     (\<exists>t \<in> set (ag_tasks (begin_shutdown demo_starting)). task_slot t \<noteq> None))"
  by (rule shutdown_drains[OF reachable.step[OF reachable_demo_starting agent_step.shutdown]]) simp

end
