(* ===== verification/Edge.thy ===== *)
theory Edge
  imports
    Service
begin

section \<open>The HTTP edge\<close>

text \<open>
  \<open>cirro-edge\<close>'s \<open>handle\<close> and \<open>proxy\<close>: from a client's request to the request the App's VM gets and the answer the
  client gets. The \<open>http\<close> crate's parsing of header values, names and authorities is a parameter (\<open>http_lib\<close>), and so is
  what the upstream does; \<open>handle\<close> also returns the request it sent, if it sent one. A header map is a list of
  names (in lowercase, as the crate keeps them) with values.
\<close>

subsection \<open>Requests\<close>

type_synonym headers = "(string \<times> string) list"

definition header_get :: "string \<Rightarrow> headers \<Rightarrow> string option" where
  "header_get name hs = map_of hs name"

definition header_get_all :: "string \<Rightarrow> headers \<Rightarrow> string list" where
  "header_get_all name hs = map snd (filter (\<lambda>h. fst h = name) hs)"

definition header_remove :: "string \<Rightarrow> headers \<Rightarrow> headers" where
  "header_remove name hs = filter (\<lambda>h. fst h \<noteq> name) hs"

definition header_insert :: "string \<Rightarrow> string \<Rightarrow> headers \<Rightarrow> headers" where
  "header_insert name val hs = header_remove name hs @ [(name, val)]"

record request =
  rq_method :: string
  rq_version :: string
  rq_authority :: "string option"
  rq_path :: string
  rq_path_and_query :: "string option"
  rq_headers :: headers
  rq_body :: string

record edge_response =
  rs_status :: nat
  rs_headers :: headers
  rs_body :: string

record http_lib =
  ht_to_str :: "string \<Rightarrow> string option"
  ht_authority_host :: "string \<Rightarrow> string option"
  ht_name :: "string \<Rightarrow> string option"
  ht_value :: "string \<Rightarrow> string option"

datatype scheme = Http | Https string

definition proto :: "scheme \<Rightarrow> string" where
  "proto s = (case s of Http \<Rightarrow> ''http'' | Https _ \<Rightarrow> ''https'')"

text \<open>The scheme of a connection whose TLS handshake named \<open>server_name\<close>.\<close>

definition tls_scheme :: "string option \<Rightarrow> scheme" where
  "tls_scheme server_name =
     Https (to_ascii_lowercase (trim_end_matches CHR ''.'' (case server_name of Some n \<Rightarrow> n | None \<Rightarrow> [])))"

definition host_of :: "http_lib \<Rightarrow> request \<Rightarrow> string option" where
  "host_of lib req =
     Option.bind
       (case rq_authority req of
          Some host \<Rightarrow> Some host
        | None \<Rightarrow>
            Option.bind (header_get ''host'' (rq_headers req)) (\<lambda>v.
            Option.bind (ht_to_str lib v) (ht_authority_host lib)))
       (\<lambda>raw. let host = to_ascii_lowercase (trim_end_matches CHR ''.'' raw)
              in if host = [] then None else Some host)"

subsection \<open>Proxying\<close>

definition HOP_BY_HOP :: "string list" where
  "HOP_BY_HOP =
     [''connection'', ''proxy-authenticate'', ''proxy-authorization'', ''te'', ''trailer'', ''transfer-encoding'',
      ''upgrade'', ''keep-alive'', ''proxy-connection'']"

definition connection_names :: "http_lib \<Rightarrow> headers \<Rightarrow> string list" where
  "connection_names lib hs =
     List.map_filter (\<lambda>n. ht_name lib (trim n))
       (concat (map (split_on CHR '','') (List.map_filter (ht_to_str lib) (header_get_all ''connection'' hs))))"

definition remove_hop_by_hop :: "http_lib \<Rightarrow> headers \<Rightarrow> headers" where
  "remove_hop_by_hop lib hs = fold header_remove HOP_BY_HOP (fold header_remove (connection_names lib hs) hs)"

definition insert_if :: "string list \<Rightarrow> string option \<Rightarrow> headers \<Rightarrow> headers" where
  "insert_if names val hs = (case val of None \<Rightarrow> hs | Some v \<Rightarrow> fold (\<lambda>n. header_insert n v) names hs)"

definition forwarded :: "http_lib \<Rightarrow> string \<Rightarrow> string \<Rightarrow> string \<Rightarrow> request \<Rightarrow> request" where
  "forwarded lib host peer prot req =
     (let hs = remove_hop_by_hop lib (rq_headers req);
          hs = insert_if [''host'', ''x-forwarded-host''] (ht_value lib host) hs;
          hs = insert_if [''x-forwarded-for''] (ht_value lib peer) hs;
          hs = header_insert ''x-forwarded-proto'' prot hs
      in req\<lparr>rq_version := ''HTTP/1.1'', rq_authority := None,
             rq_path := (if rq_path_and_query req = None then ''/'' else rq_path req),
             rq_path_and_query := Some (case rq_path_and_query req of Some pq \<Rightarrow> pq | None \<Rightarrow> ''/''),
             rq_headers := hs\<rparr>)"

text \<open>\<open>connect\<close> tries again while it is refused; the list is what its tries meet before the timeout.\<close>

datatype dial = Refused | Dial_error string | Connected

fun connect_upstream :: "dial list \<Rightarrow> (string + unit) option" where
  "connect_upstream [] = None"
| "connect_upstream (Refused # ds) = connect_upstream ds"
| "connect_upstream (Dial_error e # ds) = Some (Inl e)"
| "connect_upstream (Connected # ds) = Some (Inr ())"

record upstream =
  up_dials :: "dial list"
  up_handshake :: "string option"
  up_send :: "request \<Rightarrow> string + edge_response"

definition proxy ::
  "http_lib \<Rightarrow> upstream \<Rightarrow> request \<Rightarrow> string \<Rightarrow> string \<Rightarrow> string \<Rightarrow> (string + edge_response) \<times> request option" where
  "proxy lib up req host peer prot =
     (case connect_upstream (up_dials up) of
        None \<Rightarrow> (Inl ''connecting to it timed out after 5s'', None)
      | Some (Inl e) \<Rightarrow> (Inl (''connect: '' @ e), None)
      | Some (Inr _) \<Rightarrow>
          (case up_handshake up of
             Some e \<Rightarrow> (Inl (''handshake: '' @ e), None)
           | None \<Rightarrow>
               let q = forwarded lib host peer prot req
               in (case up_send up q of
                     Inl e \<Rightarrow> (Inl (''send the request: '' @ e), Some q)
                   | Inr resp \<Rightarrow> (Inr (resp\<lparr>rs_headers := remove_hop_by_hop lib (rs_headers resp)\<rparr>), Some q))))"

definition text_response :: "nat \<Rightarrow> string \<Rightarrow> edge_response" where
  "text_response status body =
     \<lparr>rs_status = status, rs_headers = [(''content-type'', ''text/plain; charset=utf-8'')], rs_body = body\<rparr>"

subsection \<open>Answering a request\<close>

text \<open>
  The router's answers: \<open>rt_resolve\<close> is what the agent's \<open>resolve\<close> returns, \<open>None\<close> while it has not returned, and
  \<open>rt_why\<close> the text it gives of why an App can't take requests.
\<close>

record router =
  rt_resolve :: "string \<Rightarrow> resolution option"
  rt_acme_challenge :: "string \<Rightarrow> string option"
  rt_why :: "unavailable \<Rightarrow> string"

definition acme_answer :: "router \<Rightarrow> scheme \<Rightarrow> request \<Rightarrow> string option" where
  "acme_answer rt scheme req =
     (case scheme of
        Https _ \<Rightarrow> None
      | Http \<Rightarrow> Option.bind (strip_prefix ''/.well-known/acme-challenge/'' (rq_path req)) (rt_acme_challenge rt))"

definition handle_upstream ::
  "http_lib \<Rightarrow> upstream \<Rightarrow> request \<Rightarrow> string \<Rightarrow> string \<Rightarrow> scheme \<Rightarrow> edge_response \<times> request option" where
  "handle_upstream lib up req host peer scheme =
     (case proxy lib up req host peer (proto scheme) of
        (Inr resp, sent) \<Rightarrow> (resp, sent)
      | (Inl e, sent) \<Rightarrow> (text_response 502 (''the App at '' @ host @ '' didn't answer: '' @ e @ [CHR 0x0A]), sent))"

definition handle ::
  "http_lib \<Rightarrow> router \<Rightarrow> (resolution \<Rightarrow> upstream) \<Rightarrow> string \<Rightarrow> scheme \<Rightarrow> request \<Rightarrow>
     (edge_response \<times> (resolution \<times> request) option) option" where
  "handle lib rt ups peer scheme req =
     (case host_of lib req of
        None \<Rightarrow> Some (text_response 400 (''the request names no host'' @ [CHR 0x0A]), None)
      | Some host \<Rightarrow>
          (case acme_answer rt scheme req of
             Some answer \<Rightarrow> Some (text_response 200 answer, None)
           | None \<Rightarrow>
               if (case scheme of Https sni \<Rightarrow> sni \<noteq> host | Http \<Rightarrow> False)
               then Some (text_response 421
                      ((case scheme of Https sni \<Rightarrow> ''this connection is for '' @ sni | Http \<Rightarrow> []) @ '', not '' @ host @
                       ''; connect again for '' @ host @ [CHR 0x0A]), None)
               else (case rt_resolve rt host of
                       None \<Rightarrow> None
                     | Some NotFound \<Rightarrow>
                         Some (text_response 404 (''no App on this Node has the hostname '' @ host @ [CHR 0x0A]), None)
                     | Some (Unavailable why) \<Rightarrow> Some (text_response 503 (rt_why rt why @ [CHR 0x0A]), None)
                     | Some r \<Rightarrow>
                         (case handle_upstream lib (ups r) req host peer scheme of
                            (resp, sent) \<Rightarrow> Some (resp, map_option (Pair r) sent)))))"

subsection \<open>What the App gets\<close>

lemma fold_header_remove: "fold header_remove ns hs = filter (\<lambda>h. fst h \<notin> set ns) hs"
  by (induction ns arbitrary: hs) (auto simp: header_remove_def intro: filter_cong)

lemma header_get_all_insert [simp]:
  "header_get_all n (header_insert m v hs) = (if n = m then [v] else header_get_all n hs)"
proof -
  have "n \<noteq> m \<Longrightarrow> filter (\<lambda>h. fst h \<noteq> m \<and> fst h = n) hs = filter (\<lambda>h. fst h = n) hs" by (rule filter_cong) auto
  then show ?thesis by (auto simp: header_get_all_def header_insert_def header_remove_def)
qed

lemma filter_header_insert [simp]:
  assumes "m \<in> S"
  shows "filter (\<lambda>h. fst h \<notin> S) (header_insert m v hs) = filter (\<lambda>h. fst h \<notin> S) hs"
proof -
  have "filter (\<lambda>h. fst h \<noteq> m \<and> fst h \<notin> S) hs = filter (\<lambda>h. fst h \<notin> S) hs"
    by (rule filter_cong) (use assms in auto)
  with assms show ?thesis by (simp add: header_insert_def header_remove_def)
qed

definition SET_BY_EDGE :: "string list" where
  "SET_BY_EDGE = [''host'', ''x-forwarded-host'', ''x-forwarded-for'', ''x-forwarded-proto'']"

definition dropped :: "http_lib \<Rightarrow> headers \<Rightarrow> string set" where
  "dropped lib hs = set HOP_BY_HOP \<union> set (connection_names lib hs)"


definition demo_lib :: http_lib where
  "demo_lib =
     \<lparr>ht_to_str = Some, ht_authority_host = (\<lambda>s. Some (hd (split_on CHR '':'' s))),
      ht_name = (\<lambda>n. if n = [] then None else Some (to_ascii_lowercase n)), ht_value = Some\<rparr>"

definition demo_get :: request where
  "demo_get =
     \<lparr>rq_method = ''GET'', rq_version = ''HTTP/1.0'', rq_authority = None, rq_path = ''/a'', rq_path_and_query = Some ''/a?b'',
      rq_headers = [(''host'', ''H.:80''), (''connection'', ''X-Forwarded-For, X-Key''), (''x-forwarded-for'', ''1.1.1.1''),
        (''x-key'', ''k''), (''accept'', ''a''), (''accept'', ''b'')],
      rq_body = []\<rparr>"


subsection \<open>Which App a request reaches\<close>

lemma resolve_loop_upstream:
  "resolve_loop host tried looks = Some (UpstreamVm a p sid) \<Longrightarrow>
     \<exists>l \<in> set looks. fst (step_for host (lk_agent l)) = Answer (UpstreamVm a p sid)"
  by (induction host tried looks rule: resolve_loop.induct)
    (auto split: step.split_asm option.split_asm sum.split_asm if_splits api_error.split_asm simp: Let_def)

lemma resolve_loop_deadline:
  "l \<in> set looks \<Longrightarrow> lk_deadline l \<Longrightarrow> resolve_loop host tried looks \<noteq> None"
  by (induction host tried looks rule: resolve_loop.induct)
    (auto split: step.split option.split sum.split api_error.split simp: Let_def)

lemma handle_sent:
  assumes "handle lib rt ups peer scheme req = Some (resp, Some (r, q))"
  obtains host where "host_of lib req = Some host" and "rt_resolve rt host = Some r"
    and "q = forwarded lib host peer (proto scheme) req" and "\<And>sni. scheme = Https sni \<Longrightarrow> sni = host"
  using assms
  by (auto simp: handle_def handle_upstream_def proxy_def Let_def
      split: option.split_asm if_splits resolution.split_asm sum.split_asm prod.split_asm scheme.split_asm)


definition demo_look :: look where
  "demo_look = \<lparr>lk_agent = demo_running, lk_deadline = True, lk_wake = Inl (ApiError CONFLICT (Starting_VM ''a'' VmExists)), lk_failures = []\<rparr>"

definition demo_router :: router where
  "demo_router = \<lparr>rt_resolve = (\<lambda>host. resolve host [demo_look]), rt_acme_challenge = Map.empty, rt_why = (\<lambda>_. [])\<rparr>"

definition demo_upstream :: "resolution \<Rightarrow> upstream" where
  "demo_upstream r = \<lparr>up_dials = [Refused, Connected], up_handshake = None, up_send = (\<lambda>q. Inr (text_response 200 ''hi''))\<rparr>"


lemma validated_host_shape:
  assumes "validate_route r = Inr u"
  shows "route_host r \<noteq> []" and "last (route_host r) \<noteq> CHR ''.''"
proof -
  have ok: "label_ok l" if "l \<in> set (split_on CHR ''.'' (route_host r))" for l
    using assms that by (simp add: validate_route_iff)
  show ne: "route_host r \<noteq> []" using ok by (force simp: label_ok_def)
  show "last (route_host r) \<noteq> CHR ''.''"
  proof
    assume "last (route_host r) = CHR ''.''"
    then have "route_host r = butlast (route_host r) @ [CHR ''.'']" using ne by (metis append_butlast_last_id)
    then have "[] \<in> set (split_on CHR ''.'' (route_host r))"
      by (metis split_on_snoc in_set_conv_decomp)
    from ok[OF this] show False by (simp add: label_ok_def)
  qed
qed

text \<open>A request that names an App's hostname, in whatever case and with dots at its end, is looked up under exactly the
  hostname the agent accepted for the App; and whatever starts, wakes and parks it meets, it is answered by the time
  its deadline passes.\<close>

theorem hostname_in_any_case_is_answered:
  assumes "validate_route r = Inr u" and "to_ascii_lowercase h = route_host r"
    and "rq_authority req = Some (h @ replicate n CHR ''.'')" and "l \<in> set looks" and "lk_deadline l"
    and "rt_resolve rt = (\<lambda>host. resolve host looks)"
  shows "host_of lib req = Some (route_host r) \<and> handle lib rt ups peer scheme req \<noteq> None"
proof -
  have lower: "map ascii_lower h = route_host r" using assms(2) by (simp add: to_ascii_lowercase_def)
  have ne: "h \<noteq> []" using validated_host_shape(1)[OF assms(1)] lower by auto
  have "ascii_lower CHR ''.'' = CHR ''.''" by code_simp
  then have "last h \<noteq> CHR ''.''"
    using validated_host_shape(2)[OF assms(1)] lower ne by (metis last_map)
  then have "trim_end_matches CHR ''.'' (h @ replicate n CHR ''.'') = h"
    using ne by (cases h rule: rev_cases) (simp_all add: trim_end_matches_def dropWhile_append)
  then have host: "host_of lib req = Some (route_host r)"
    using validated_host_shape(1)[OF assms(1)] by (simp add: host_of_def assms(2,3))
  have "resolve (route_host r) looks \<noteq> None"
    using resolve_loop_deadline[OF assms(4,5)] by (simp add: resolve_def)
  then have "handle lib rt ups peer scheme req \<noteq> None"
    by (auto simp: handle_def host assms(6) split: option.split resolution.split prod.split)
  with host show ?thesis by simp
qed

theorem hostname_in_any_case_is_answered_witness:
  "host_of demo_lib (demo_get\<lparr>rq_authority := Some ''H..''\<rparr>) = Some ''h'' \<and>
   handle demo_lib demo_router demo_upstream ''9.9.9.9'' Http (demo_get\<lparr>rq_authority := Some ''H..''\<rparr>) \<noteq> None"
proof -
  have "validate_route \<lparr>route_host = ''h'', route_port = 80, idle_park_secs = None\<rparr> = Inr ()"
    "to_ascii_lowercase ''H'' = ''h''" by code_simp+
  then show ?thesis
    using hostname_in_any_case_is_answered[of "\<lparr>route_host = ''h'', route_port = 80, idle_park_secs = None\<rparr>" "()" "''H''"
        "demo_get\<lparr>rq_authority := Some ''H..''\<rparr>" 2 demo_look "[demo_look]" demo_router demo_lib demo_upstream "''9.9.9.9''" Http]
    by (simp add: demo_look_def demo_router_def numeral_2_eq_2)
qed

end
