(* ===== verification/Certs.thy ===== *)
theory Certs
  imports
    Edge
begin

section \<open>The edge's keys and certificates\<close>

text \<open>
  \<open>cirro-edge\<close>'s \<open>fs.rs\<close>, \<open>tls.rs\<close> and \<open>acme.rs\<close>: the Node's CA in the state directory, the certificates it signs
  when a client asks for a hostname, and those of an ACME CA. Keys and certificates are texts the \<open>rcgen\<close>,
  \<open>rustls\<close> and \<open>instant_acme\<close> crates make and read, which are parameters. Times are in seconds. A write that
  stops, by an error or by a crash, leaves the files as far as it got.
\<close>

subsection \<open>Files that appear whole\<close>

type_synonym files = "path \<rightharpoonup> string \<times> nat"

datatype write_stop = AtCreate bool | AtWrite nat | AtSync | AtRename

text \<open>A temporary file left by an earlier write is removed first; when it can't be, creating it fails.\<close>

definition write_whole :: "(write_stop \<times> string) option \<Rightarrow> path \<Rightarrow> string \<Rightarrow> nat \<Rightarrow> files \<Rightarrow> (string + unit) \<times> files" where
  "write_whole stop path bytes mode fs =
     (let temporary = path @ ''.tmp''; old = fs;
          fs = fs(temporary := None)
      in case stop of
           Some (AtCreate stale, e) \<Rightarrow> (Inl e, if stale then old else fs)
         | Some (AtWrite n, e) \<Rightarrow> (Inl e, fs(temporary \<mapsto> (take n bytes, mode)))
         | Some (AtSync, e) \<Rightarrow> (Inl e, fs(temporary \<mapsto> (bytes, mode)))
         | Some (AtRename, e) \<Rightarrow> (Inl e, fs(temporary \<mapsto> (bytes, mode)))
         | None \<Rightarrow> (Inr (), fs(path \<mapsto> (bytes, mode))))"

lemma write_whole_cases:
  assumes "write_whole stop path bytes mode fs = (r, fs')"
  shows "p \<noteq> path @ ''.tmp'' \<Longrightarrow> fs' p = (if p = path \<and> r = Inr () then Some (bytes, mode) else fs p)"
    and "r = Inr () \<longleftrightarrow> stop = None"
  using assms by (auto simp: write_whole_def Let_def split: option.split_asm write_stop.split_asm)

subsection \<open>The Node's CA\<close>

record ca_lib =
  cl_from_pem :: "string \<Rightarrow> string + string"
  cl_serialize :: "string \<Rightarrow> string"
  cl_self_signed :: "string \<Rightarrow> string + string"
  cl_issuer :: "string \<Rightarrow> string \<Rightarrow> string + unit"

text \<open>What one start meets: errors other than a missing file when reading, the key \<open>generate\<close> makes, and where the two
  writes stop.\<close>

record ca_start =
  ca_read_key :: "string option"
  ca_read_cert :: "string option"
  ca_generate :: "string + string"
  ca_key_stop :: "(write_stop \<times> string) option"
  ca_cert_stop :: "(write_stop \<times> string) option"

datatype ca_error = UnusableKey string | CertWithoutKey | NoKeyMade string | ReadFails string | WriteFails string
  | NoCertMade string | NotACa string

record node_ca =
  ca_cert_pem :: string
  ca_key :: string

definition ca_key_path :: "path \<Rightarrow> path" where
  "ca_key_path dir = path_join dir ''edge-ca.key''"

definition ca_cert_path :: "path \<Rightarrow> path" where
  "ca_cert_path dir = path_join dir ''edge-ca.pem''"

definition ca_load_key :: "ca_lib \<Rightarrow> ca_start \<Rightarrow> path \<Rightarrow> files \<Rightarrow> (ca_error + string) \<times> files" where
  "ca_load_key lib s dir fs =
     (case ca_read_key s of
        Some e \<Rightarrow> (Inl (ReadFails e), fs)
      | None \<Rightarrow>
          (case fs (ca_key_path dir) of
             Some (pem, _) \<Rightarrow> (map_err UnusableKey (cl_from_pem lib pem), fs)
           | None \<Rightarrow>
               if fs (ca_cert_path dir) \<noteq> None then (Inl CertWithoutKey, fs)
               else (case ca_generate s of
                       Inl e \<Rightarrow> (Inl (NoKeyMade e), fs)
                     | Inr key \<Rightarrow>
                         (case write_whole (ca_key_stop s) (ca_key_path dir) (cl_serialize lib key) 384 fs of
                            (Inl e, fs) \<Rightarrow> (Inl (WriteFails e), fs)
                          | (Inr _, fs) \<Rightarrow> (Inr key, fs)))))"

definition ca_load_cert :: "ca_lib \<Rightarrow> ca_start \<Rightarrow> path \<Rightarrow> string \<Rightarrow> files \<Rightarrow> (ca_error + string) \<times> files" where
  "ca_load_cert lib s dir key fs =
     (case ca_read_cert s of
        Some e \<Rightarrow> (Inl (ReadFails e), fs)
      | None \<Rightarrow>
          (case fs (ca_cert_path dir) of
             Some (pem, _) \<Rightarrow> (Inr pem, fs)
           | None \<Rightarrow>
               (case cl_self_signed lib key of
                  Inl e \<Rightarrow> (Inl (NoCertMade e), fs)
                | Inr cert \<Rightarrow>
                    (case write_whole (ca_cert_stop s) (ca_cert_path dir) cert 420 fs of
                       (Inl e, fs) \<Rightarrow> (Inl (WriteFails e), fs)
                     | (Inr _, fs) \<Rightarrow> (Inr cert, fs)))))"

definition load_or_create :: "ca_lib \<Rightarrow> ca_start \<Rightarrow> path \<Rightarrow> files \<Rightarrow> (ca_error + node_ca) \<times> files" where
  "load_or_create lib s dir fs =
     (case ca_load_key lib s dir fs of
        (Inl e, fs) \<Rightarrow> (Inl e, fs)
      | (Inr key, fs) \<Rightarrow>
          (case ca_load_cert lib s dir key fs of
             (Inl e, fs) \<Rightarrow> (Inl e, fs)
           | (Inr cert_pem, fs) \<Rightarrow>
               (case cl_issuer lib cert_pem key of
                  Inl e \<Rightarrow> (Inl (NotACa e), fs)
                | Inr _ \<Rightarrow> (Inr \<lparr>ca_cert_pem = cert_pem, ca_key = key\<rparr>, fs))))"

text \<open>
  What the state directory can hold once only the agent has written there: no certificate without its
  key, the certificate made from that key.
\<close>

definition ca_files :: "ca_lib \<Rightarrow> path \<Rightarrow> files \<Rightarrow> bool" where
  "ca_files lib dir fs \<longleftrightarrow>
     (case fs (ca_key_path dir) of
        None \<Rightarrow> fs (ca_cert_path dir) = None
      | Some (pem, mode) \<Rightarrow>
          mode = 384 \<and> (\<exists>key. cl_from_pem lib pem = Inr key \<and>
            (\<forall>cert m. fs (ca_cert_path dir) = Some (cert, m) \<longrightarrow> cl_self_signed lib key = Inr cert)))"

lemma ca_paths [simp]:
  "ca_key_path dir \<noteq> ca_cert_path dir" "ca_cert_path dir \<noteq> ca_key_path dir"
  "ca_key_path dir \<noteq> ca_key_path dir @ ''.tmp''" "ca_cert_path dir \<noteq> ca_key_path dir @ ''.tmp''"
  "ca_key_path dir \<noteq> ca_cert_path dir @ ''.tmp''" "ca_cert_path dir \<noteq> ca_cert_path dir @ ''.tmp''"
  by (auto simp: ca_key_path_def ca_cert_path_def path_join_def starts_with_def)

lemma ca_load_key_files:
  assumes ok: "ca_files lib dir fs" and lib: "\<And>k. cl_from_pem lib (cl_serialize lib k) = Inr k"
    and load: "ca_load_key lib s dir fs = (r, fs')"
  shows "ca_files lib dir fs'" and "fs' (ca_cert_path dir) = fs (ca_cert_path dir)"
    and "r = Inr key \<Longrightarrow> \<exists>pem. fs' (ca_key_path dir) = Some (pem, 384) \<and> cl_from_pem lib pem = Inr key"
    and "fs (ca_key_path dir) \<noteq> None \<Longrightarrow> fs' = fs"
proof -
  consider (same) "fs' = fs" "r = Inr key \<Longrightarrow> \<exists>pem mode. fs (ca_key_path dir) = Some (pem, mode) \<and> cl_from_pem lib pem = Inr key"
    | (made) k w where "fs (ca_key_path dir) = None"
      "write_whole (ca_key_stop s) (ca_key_path dir) (cl_serialize lib k) 384 fs = (w, fs')" "r = Inr key \<Longrightarrow> w = Inr () \<and> key = k"
    using load
    by (auto simp: ca_load_key_def map_err_def split: option.split_asm sum.split_asm prod.split_asm if_splits)
  then have "ca_files lib dir fs' \<and> fs' (ca_cert_path dir) = fs (ca_cert_path dir) \<and>
      (r = Inr key \<longrightarrow> (\<exists>pem. fs' (ca_key_path dir) = Some (pem, 384) \<and> cl_from_pem lib pem = Inr key)) \<and>
      (fs (ca_key_path dir) \<noteq> None \<longrightarrow> fs' = fs)"
  proof cases
    case same
    with ok show ?thesis by (auto simp: ca_files_def split: option.split_asm prod.split_asm)
  next
    case made
    note w = write_whole_cases(1)[OF made(2)]
    have none: "fs (ca_cert_path dir) = None" using ok made(1) by (simp add: ca_files_def)
    have "fs' (ca_cert_path dir) = None" "fs' (ca_key_path dir) = (if w = Inr () then Some (cl_serialize lib k, 384) else None)"
      using made(1) none w[of "ca_cert_path dir"] w[of "ca_key_path dir"] by simp_all
    with made none lib show ?thesis by (auto simp: ca_files_def)
  qed
  then show "ca_files lib dir fs'" and "fs' (ca_cert_path dir) = fs (ca_cert_path dir)"
    and "r = Inr key \<Longrightarrow> \<exists>pem. fs' (ca_key_path dir) = Some (pem, 384) \<and> cl_from_pem lib pem = Inr key"
    and "fs (ca_key_path dir) \<noteq> None \<Longrightarrow> fs' = fs" by blast+
qed

lemma ca_load_cert_files:
  assumes ok: "ca_files lib dir fs" and key: "fs (ca_key_path dir) = Some (pem, 384)" "cl_from_pem lib pem = Inr key"
    and load: "ca_load_cert lib s dir key fs = (r, fs')"
  shows "ca_files lib dir fs'" and "fs' (ca_key_path dir) = fs (ca_key_path dir)"
    and "r = Inr cert \<Longrightarrow> (\<exists>m. fs' (ca_cert_path dir) = Some (cert, m)) \<and> cl_self_signed lib key = Inr cert"
    and "fs (ca_cert_path dir) \<noteq> None \<Longrightarrow> fs' = fs"
proof -
  consider (same) "fs' = fs" "r = Inr cert \<Longrightarrow> \<exists>m. fs (ca_cert_path dir) = Some (cert, m)"
    | (made) c w where "fs (ca_cert_path dir) = None" "cl_self_signed lib key = Inr c"
      "write_whole (ca_cert_stop s) (ca_cert_path dir) c 420 fs = (w, fs')" "r = Inr cert \<Longrightarrow> w = Inr () \<and> cert = c"
    using load by (auto simp: ca_load_cert_def split: option.split_asm sum.split_asm prod.split_asm)
  then have "ca_files lib dir fs' \<and> fs' (ca_key_path dir) = fs (ca_key_path dir) \<and>
      (r = Inr cert \<longrightarrow> (\<exists>m. fs' (ca_cert_path dir) = Some (cert, m)) \<and> cl_self_signed lib key = Inr cert) \<and>
      (fs (ca_cert_path dir) \<noteq> None \<longrightarrow> fs' = fs)"
  proof cases
    case same
    with ok key show ?thesis by (auto simp: ca_files_def)
  next
    case made
    note w = write_whole_cases(1)[OF made(3)]
    have "fs' (ca_key_path dir) = fs (ca_key_path dir)" "fs' (ca_cert_path dir) = (if w = Inr () then Some (c, 420) else None)"
      using made(1) w[of "ca_cert_path dir"] w[of "ca_key_path dir"] by simp_all
    with made key show ?thesis by (auto simp: ca_files_def)
  qed
  then show "ca_files lib dir fs'" and "fs' (ca_key_path dir) = fs (ca_key_path dir)"
    and "r = Inr cert \<Longrightarrow> (\<exists>m. fs' (ca_cert_path dir) = Some (cert, m)) \<and> cl_self_signed lib key = Inr cert"
    and "fs (ca_cert_path dir) \<noteq> None \<Longrightarrow> fs' = fs" by blast+
qed

definition ca_clean :: "ca_start \<Rightarrow> bool" where
  "ca_clean s \<longleftrightarrow> ca_read_key s = None \<and> ca_read_cert s = None \<and> \<not> isl (ca_generate s) \<and> ca_key_stop s = None \<and> ca_cert_stop s = None"

lemma load_or_create_files:
  assumes "ca_files lib dir fs" and "\<And>k. cl_from_pem lib (cl_serialize lib k) = Inr k"
  shows "ca_files lib dir (snd (load_or_create lib s dir fs))"
proof -
  obtain r fs1 where l: "ca_load_key lib s dir fs = (r, fs1)" by fastforce
  note k = ca_load_key_files[OF assms l]
  show ?thesis
  proof (cases r)
    case (Inl e)
    with l k(1) show ?thesis by (simp add: load_or_create_def)
  next
    case (Inr key)
    obtain r2 fs2 where c: "ca_load_cert lib s dir key fs1 = (r2, fs2)" by fastforce
    obtain pem where "fs1 (ca_key_path dir) = Some (pem, 384)" "cl_from_pem lib pem = Inr key" using k(3)[OF Inr] by blast
    from ca_load_cert_files(1)[OF k(1) this c] show ?thesis
      using l c Inr by (auto simp: load_or_create_def split: sum.split)
  qed
qed

text \<open>With no error to stop it a start has a CA; the certificate is made from the key in the directory, and a later start
  has the same CA and writes nothing.\<close>

lemma clean_start_has_ca:
  assumes ok: "ca_files lib dir fs" and lib: "\<And>k. cl_from_pem lib (cl_serialize lib k) = Inr k"
    and sign: "\<And>k. \<exists>cert. cl_self_signed lib k = Inr cert \<and> cl_issuer lib cert k = Inr ()" and s: "ca_clean s"
  shows "\<exists>cert key fs'. load_or_create lib s dir fs = (Inr \<lparr>ca_cert_pem = cert, ca_key = key\<rparr>, fs') \<and>
    cl_self_signed lib key = Inr cert \<and> ca_files lib dir fs' \<and>
    (\<exists>pem m. fs' (ca_key_path dir) = Some (pem, 384) \<and> cl_from_pem lib pem = Inr key \<and> fs' (ca_cert_path dir) = Some (cert, m)) \<and>
    (fs (ca_key_path dir) \<noteq> None \<longrightarrow> fs (ca_cert_path dir) \<noteq> None \<longrightarrow> fs' = fs)"
proof -
  obtain r fs1 where l: "ca_load_key lib s dir fs = (r, fs1)" by fastforce
  note k = ca_load_key_files[OF ok lib l]
  have "\<not> isl r"
  proof (cases "fs (ca_key_path dir)")
    case None
    with ok have "fs (ca_cert_path dir) = None" by (simp add: ca_files_def)
    with None l s show ?thesis
      by (auto simp: ca_load_key_def ca_clean_def write_whole_def Let_def isl_def split: sum.split_asm)
  next
    case (Some p)
    with ok l s show ?thesis by (cases p) (auto simp: ca_files_def ca_load_key_def ca_clean_def)
  qed
  then obtain key where r: "r = Inr key" by (cases r) auto
  from k(3)[OF r] obtain pem where p: "fs1 (ca_key_path dir) = Some (pem, 384)" "cl_from_pem lib pem = Inr key" by blast
  obtain r2 fs2 where c: "ca_load_cert lib s dir key fs1 = (r2, fs2)" by fastforce
  note cf = ca_load_cert_files[OF k(1) p c]
  obtain cert' where sg: "cl_self_signed lib key = Inr cert'" "cl_issuer lib cert' key = Inr ()" using sign by blast
  have "\<not> isl r2"
    using c s sg by (auto simp: ca_load_cert_def ca_clean_def write_whole_def Let_def split: option.split_asm prod.split_asm)
  then obtain cert where r2: "r2 = Inr cert" by (cases r2) auto
  from cf(3)[OF r2] sg have "cert = cert'" by simp
  then have run: "load_or_create lib s dir fs = (Inr \<lparr>ca_cert_pem = cert, ca_key = key\<rparr>, fs2)"
    using sg by (simp add: load_or_create_def l r c r2)
  moreover have "fs2 = fs" if "fs (ca_key_path dir) \<noteq> None" "fs (ca_cert_path dir) \<noteq> None"
    using k(4)[OF that(1)] cf(4) that(2) by simp
  ultimately show ?thesis using cf p sg \<open>cert = cert'\<close> r2 by fastforce
qed


definition demo_ca_lib :: ca_lib where
  "demo_ca_lib =
     \<lparr>cl_from_pem = (\<lambda>p. Inr p), cl_serialize = (\<lambda>k. k), cl_self_signed = (\<lambda>k. Inr (CHR ''c'' # k)), cl_issuer = (\<lambda>_ _. Inr ())\<rparr>"

definition demo_ca_start :: "string \<Rightarrow> (write_stop \<times> string) option \<Rightarrow> ca_start" where
  "demo_ca_start key stop =
     \<lparr>ca_read_key = None, ca_read_cert = None, ca_generate = Inr key, ca_key_stop = None, ca_cert_stop = stop\<rparr>"


subsection \<open>Certificates for hostnames\<close>

definition DAY :: nat where
  "DAY = 24 * 60 * 60"

definition LEAF_VALIDITY :: nat where
  "LEAF_VALIDITY = 397 * DAY"

definition RESIGN_WITHIN :: nat where
  "RESIGN_WITHIN = 30 * DAY"

definition RENEW_WITHIN :: nat where
  "RENEW_WITHIN = 30 * DAY"

record host_certificate =
  hc_certified :: string
  hc_expires :: nat

definition lasts :: "nat \<Rightarrow> nat \<Rightarrow> host_certificate \<Rightarrow> bool" where
  "lasts now margin c \<longleftrightarrow> hc_expires c > now + margin"

definition certify :: "(string \<Rightarrow> nat \<Rightarrow> string + string) \<Rightarrow> nat \<Rightarrow> string \<Rightarrow> string + host_certificate" where
  "certify sign now host =
     bindr (sign host (now + LEAF_VALIDITY)) (\<lambda>c. Inr \<lparr>hc_certified = c, hc_expires = now + LEAF_VALIDITY\<rparr>)"

definition NOT_PUBLIC :: "string list" where
  "NOT_PUBLIC =
     [''test'', ''example'', ''invalid'', ''localhost'', ''local'', ''internal'', ''lan'', ''arpa'', ''onion'', ''alt'',
      ''home'', ''corp'']"

definition is_public :: "string \<Rightarrow> bool" where
  "is_public host \<longleftrightarrow>
     CHR ''.'' \<in> set host \<and>
     (let tld = last (split_on CHR ''.'' host) in tld \<notin> set NOT_PUBLIC \<and> \<not> list_all is_ascii_digit tld)"

subsection \<open>The ACME client\<close>

definition FIRST_RETRY_AFTER :: nat where
  "FIRST_RETRY_AFTER = 5 * 60"

definition MAX_RETRY_AFTER :: nat where
  "MAX_RETRY_AFTER = 6 * 60 * 60"

record acme =
  ac_challenges :: "string \<rightharpoonup> string"
  ac_certificates :: "string \<rightharpoonup> host_certificate"
  ac_ordering :: "string set"
  ac_failed :: "string \<rightharpoonup> nat \<times> nat"

definition acme_path :: "string \<Rightarrow> string" where
  "acme_path host = ''acme-'' @ host @ ''.pem''"

definition acme_file_host :: "string \<Rightarrow> string option" where
  "acme_file_host name = Option.bind (strip_prefix ''acme-'' name) (strip_suffix ''.pem'')"

lemma acme_file_host_path: "acme_file_host (acme_path host) = Some host"
  using strip_prefix_append[of "''acme-''" "host @ ''.pem''"]
  by (simp add: acme_file_host_def acme_path_def strip_suffix_def ends_with_def starts_with_def)

definition acme_load :: "string list \<Rightarrow> (string \<Rightarrow> string + host_certificate) \<Rightarrow> acme" where
  "acme_load names read_certificate =
     \<lparr>ac_challenges = Map.empty,
      ac_certificates =
        fold (\<lambda>name certs.
                case acme_file_host name of
                  None \<Rightarrow> certs
                | Some host \<Rightarrow> (case read_certificate host of Inr c \<Rightarrow> certs(host \<mapsto> c) | Inl _ \<Rightarrow> certs))
          names Map.empty,
      ac_ordering = {}, ac_failed = Map.empty\<rparr>"

definition challenge :: "acme \<Rightarrow> string \<Rightarrow> string option" where
  "challenge ac token = ac_challenges ac token"

definition acme_certificate :: "nat \<Rightarrow> acme \<Rightarrow> string \<Rightarrow> string option" where
  "acme_certificate now ac host =
     Option.bind (ac_certificates ac host) (\<lambda>c. if lasts now 0 c then Some (hc_certified c) else None)"

text \<open>An order under way, what it does to the shared state, and what dropping it takes back.\<close>

record pending_order =
  po_host :: string
  po_tokens :: "string list"

definition order_start :: "string \<Rightarrow> acme \<Rightarrow> (pending_order \<times> acme) option" where
  "order_start host ac =
     (if host \<in> ac_ordering ac then None
      else Some (\<lparr>po_host = host, po_tokens = []\<rparr>, ac\<lparr>ac_ordering := insert host (ac_ordering ac)\<rparr>))"

definition order_answer :: "string \<Rightarrow> string \<Rightarrow> pending_order \<Rightarrow> acme \<Rightarrow> pending_order \<times> acme" where
  "order_answer token authorization po ac =
     (po\<lparr>po_tokens := po_tokens po @ [token]\<rparr>, ac\<lparr>ac_challenges := (ac_challenges ac)(token \<mapsto> authorization)\<rparr>)"

definition order_drop :: "pending_order \<Rightarrow> acme \<Rightarrow> acme" where
  "order_drop po ac =
     ac\<lparr>ac_challenges := fold (\<lambda>t m. m(t := None)) (po_tokens po) (ac_challenges ac),
        ac_ordering := ac_ordering ac - {po_host po}\<rparr>"

datatype auth_status = Pending | Valid | OtherStatus string

record authorization =
  au_status :: auth_status
  au_challenge :: "(string \<times> string) option"
  au_ready :: "string option"

text \<open>What the CA answers to one order, and the outcome of storing the certificate and reading it back.\<close>

record acme_ca =
  aa_account :: "string + unit"
  aa_new_order :: "string + unit"
  aa_authorizations :: "(string + authorization) list"
  aa_poll_ready :: "string + string"
  aa_finalize :: "string + string"
  aa_poll_certificate :: "string + string"
  aa_store :: "string + unit"
  aa_read :: "string + host_certificate"

fun authorize :: "(string + authorization) list \<Rightarrow> pending_order \<Rightarrow> acme \<Rightarrow> (string + unit) \<times> pending_order \<times> acme" where
  "authorize [] po ac = (Inr (), po, ac)"
| "authorize (Inl e # as) po ac = (Inl (''read an authorization: '' @ e), po, ac)"
| "authorize (Inr a # as) po ac =
     (case au_status a of
        Valid \<Rightarrow> authorize as po ac
      | OtherStatus st \<Rightarrow> (Inl (''the authorization is '' @ st), po, ac)
      | Pending \<Rightarrow>
          (case au_challenge a of
             None \<Rightarrow> (Inl ''the CA offered no HTTP-01 challenge'', po, ac)
           | Some (token, key_authorization) \<Rightarrow>
               (case order_answer token key_authorization po ac of
                  (po, ac) \<Rightarrow>
                    (case au_ready a of
                       Some e \<Rightarrow> (Inl (''start the challenge: '' @ e), po, ac)
                     | None \<Rightarrow> authorize as po ac))))"

definition acme_order :: "acme_ca \<Rightarrow> pending_order \<Rightarrow> acme \<Rightarrow> (string + host_certificate) \<times> pending_order \<times> acme" where
  "acme_order ca po ac =
     (case bindr (aa_account ca) (\<lambda>_. map_err (\<lambda>e. ''place the order: '' @ e) (aa_new_order ca)) of
        Inl e \<Rightarrow> (Inl e, po, ac)
      | Inr _ \<Rightarrow>
          (case authorize (aa_authorizations ca) po ac of
             (Inl e, po, ac) \<Rightarrow> (Inl e, po, ac)
           | (Inr _, po, ac) \<Rightarrow>
               (bindr (map_err (\<lambda>e. ''wait for validation: '' @ e) (aa_poll_ready ca)) (\<lambda>status.
                bindr (check (status = ''Ready'') (''the CA didn't validate '' @ po_host po @ '' (order '' @ status @
                    ''): is the HTTP edge reachable at http://'' @ po_host po @ ''/ on port 80?'')) (\<lambda>_.
                bindr (map_err (\<lambda>e. ''finalize the order: '' @ e) (aa_finalize ca)) (\<lambda>key.
                bindr (map_err (\<lambda>e. ''fetch the certificate: '' @ e) (aa_poll_certificate ca)) (\<lambda>chain.
                bindr (map_err (\<lambda>e. ''store the certificate: '' @ e) (aa_store ca)) (\<lambda>_.
                aa_read ca))))), po, ac)))"

definition needs_order :: "nat \<Rightarrow> nat \<Rightarrow> string \<Rightarrow> acme \<Rightarrow> bool" where
  "needs_order now clock host ac \<longleftrightarrow>
     \<not> (case ac_certificates ac host of Some c \<Rightarrow> lasts now RENEW_WITHIN c | None \<Rightarrow> False) \<and>
     \<not> (case ac_failed ac host of Some (retry_at, _) \<Rightarrow> clock < retry_at | None \<Rightarrow> False)"

definition next_wait :: "string \<Rightarrow> acme \<Rightarrow> nat" where
  "next_wait host ac =
     (case ac_failed ac host of None \<Rightarrow> FIRST_RETRY_AFTER | Some (_, wait) \<Rightarrow> min (wait * 2) MAX_RETRY_AFTER)"

definition order_settle :: "nat \<Rightarrow> string \<Rightarrow> string + host_certificate \<Rightarrow> acme \<Rightarrow> (string + unit) \<times> acme" where
  "order_settle clock host result ac =
     (case result of
        Inr c \<Rightarrow> (Inr (), ac\<lparr>ac_failed := (ac_failed ac)(host := None), ac_certificates := (ac_certificates ac)(host \<mapsto> c)\<rparr>)
      | Inl e \<Rightarrow>
          (let wait = next_wait host ac
           in (Inl (e @ ''; trying again in '' @ decimal (wait div 60) @ '' min''),
               ac\<lparr>ac_failed := (ac_failed ac)(host \<mapsto> (clock + wait, wait))\<rparr>)))"

text \<open>\<open>ensure\<close> with nothing in between, its clocks read when it looks (\<open>now\<close> of the calendar, \<open>clock\<close> of the
  monotonic one) and when the order ends (\<open>later\<close>).\<close>

definition ensure :: "acme_ca \<Rightarrow> nat \<Rightarrow> nat \<Rightarrow> nat \<Rightarrow> string \<Rightarrow> acme \<Rightarrow> (string + unit) \<times> acme" where
  "ensure ca now clock later host ac =
     (if \<not> needs_order now clock host ac then (Inr (), ac)
      else (case order_start host ac of
              None \<Rightarrow> (Inr (), ac)
            | Some (po, ac) \<Rightarrow>
                (case acme_order ca po ac of
                   (result, po, ac) \<Rightarrow>
                     (case order_settle later host result ac of (r, ac) \<Rightarrow> (r, order_drop po ac)))))"

subsection \<open>Picking a certificate\<close>

type_synonym host_certificates = "string \<rightharpoonup> host_certificate"

definition routed :: "agent \<Rightarrow> string \<Rightarrow> bool" where
  "routed ag host \<longleftrightarrow> app_with_host (ag_vms ag) host \<noteq> None \<or> machine_app_with_host (ag_machines ag) host \<noteq> None"

definition signed_certificate ::
  "(string \<Rightarrow> nat \<Rightarrow> string + string) \<Rightarrow> nat \<Rightarrow> string \<Rightarrow> host_certificates \<Rightarrow> string option \<times> host_certificates" where
  "signed_certificate sign now host certs =
     (case (case certs host of Some c \<Rightarrow> if lasts now RESIGN_WITHIN c then Some c else None | None \<Rightarrow> None) of
        Some c \<Rightarrow> (Some (hc_certified c), certs)
      | None \<Rightarrow>
          (case certify sign now host of
             Inr c \<Rightarrow> (Some (hc_certified c), certs(host \<mapsto> c))
           | Inl _ \<Rightarrow> (None, certs)))"

definition resolve_cert ::
  "(string \<Rightarrow> nat \<Rightarrow> string + string) \<Rightarrow> acme option \<Rightarrow> agent \<Rightarrow> nat \<Rightarrow> string option \<Rightarrow> host_certificates \<Rightarrow>
     string option \<times> host_certificates" where
  "resolve_cert sign acme ag now server_name certs =
     (case server_name of
        None \<Rightarrow> (None, certs)
      | Some name \<Rightarrow>
          let host = to_ascii_lowercase (trim_end_matches CHR ''.'' name)
          in if \<not> routed ag host then (None, certs)
             else (case acme of
                     Some ac \<Rightarrow>
                       if is_public host then (acme_certificate now ac host, certs)
                       else signed_certificate sign now host certs
                   | None \<Rightarrow> signed_certificate sign now host certs))"

text \<open>The agent's renewals: every App's hostname, asked for when it is public.\<close>

definition certificate_hosts :: "agent \<Rightarrow> string list" where
  "certificate_hosts ag =
     filter is_public
       (List.map_filter (\<lambda>(_, e). map_option route_host (entry_route e)) (ag_vms ag) @
        map (\<lambda>a. route_host (mai_route a)) (machine_apps (ag_machines ag)))"

subsection \<open>The certificate a client is given\<close>

type_synonym handshake = "acme option \<times> agent \<times> nat \<times> string option"

definition handshakes :: "(string \<Rightarrow> nat \<Rightarrow> string + string) \<Rightarrow> handshake list \<Rightarrow> host_certificates" where
  "handshakes sign hs = fold (\<lambda>(acme, ag, now, name) certs. snd (resolve_cert sign acme ag now name certs)) hs Map.empty"

lemma signed_certificate_fits:
  assumes sign: "\<And>h t c. sign h t = Inr c \<Longrightarrow> names c = h \<and> until c = t"
    and ok: "\<And>h c. certs h = Some c \<Longrightarrow> names (hc_certified c) = h \<and> until (hc_certified c) = hc_expires c"
    and run: "signed_certificate sign now host certs = (r, certs')"
  shows "certs' h = Some c \<Longrightarrow> names (hc_certified c) = h \<and> until (hc_certified c) = hc_expires c"
    and "r = Some d \<Longrightarrow> names d = host \<and> until d > now + RESIGN_WITHIN"
proof -
  consider (known) c where "certs host = Some c" "lasts now RESIGN_WITHIN c" "r = Some (hc_certified c)" "certs' = certs"
    | (new) c where "sign host (now + LEAF_VALIDITY) = Inr c" "r = Some c"
      "certs' = certs(host \<mapsto> \<lparr>hc_certified = c, hc_expires = now + LEAF_VALIDITY\<rparr>)"
    | (none) "r = None" "certs' = certs"
  proof (cases "\<exists>c. certs host = Some c \<and> lasts now RESIGN_WITHIN c")
    case True
    then obtain c where c: "certs host = Some c" "lasts now RESIGN_WITHIN c" by blast
    with run show thesis by (intro known[of c]) (simp_all add: signed_certificate_def)
  next
    case False
    then have e: "(case certs host of Some c \<Rightarrow> if lasts now RESIGN_WITHIN c then Some c else None | None \<Rightarrow> None) = None"
      by (auto split: option.split)
    show thesis
    proof (cases "sign host (now + LEAF_VALIDITY)")
      case (Inl x)
      with run e show thesis by (intro none) (simp_all add: signed_certificate_def certify_def)
    next
      case (Inr c)
      with run e show thesis by (intro new[of c]) (simp_all add: signed_certificate_def certify_def)
    qed
  qed
  then have "(certs' h = Some c \<longrightarrow> names (hc_certified c) = h \<and> until (hc_certified c) = hc_expires c) \<and>
    (r = Some d \<longrightarrow> names d = host \<and> until d > now + RESIGN_WITHIN)"
  proof cases
    case known
    with ok show ?thesis by (auto simp: lasts_def)
  next
    case new
    with sign[OF new(1)] ok show ?thesis by (auto simp: LEAF_VALIDITY_def RESIGN_WITHIN_def DAY_def)
  qed (use ok in auto)
  then show "certs' h = Some c \<Longrightarrow> names (hc_certified c) = h \<and> until (hc_certified c) = hc_expires c"
    and "r = Some d \<Longrightarrow> names d = host \<and> until d > now + RESIGN_WITHIN" by blast+
qed

lemma resolve_cert_certs:
  "resolve_cert sign acme ag now name certs = (r, certs') \<Longrightarrow>
     r = None \<and> certs' = certs \<or>
     (\<exists>host. name \<noteq> None \<and> host = to_ascii_lowercase (trim_end_matches CHR ''.'' (the name)) \<and> routed ag host \<and>
       (signed_certificate sign now host certs = (r, certs') \<and> (acme = None \<or> \<not> is_public host) \<or>
        (\<exists>ac. acme = Some ac \<and> is_public host \<and> acme_certificate now ac host = r \<and> certs' = certs)))"
  by (auto simp: resolve_cert_def Let_def split: option.split_asm if_splits)

lemma acme_certificate_SomeD:
  "acme_certificate now ac host = Some c \<Longrightarrow>
     \<exists>hc. ac_certificates ac host = Some hc \<and> c = hc_certified hc \<and> hc_expires hc > now"
  by (auto simp: acme_certificate_def lasts_def bind_eq_Some_conv split: if_splits)

lemma handshakes_fit:
  assumes sign: "\<And>h t c. sign h t = Inr c \<Longrightarrow> names c = h \<and> until c = t"
  shows "handshakes sign hs h = Some c \<Longrightarrow> names (hc_certified c) = h \<and> until (hc_certified c) = hc_expires c"
proof (induction hs arbitrary: h c rule: rev_induct)
  case (snoc x hs)
  obtain acme ag now name where x: "x = (acme, ag, now, name)" by (cases x)
  obtain r certs' where run: "resolve_cert sign acme ag now name (handshakes sign hs) = (r, certs')" by fastforce
  then have "certs' h = Some c" using snoc.prems by (simp add: handshakes_def x)
  moreover have "certs' = handshakes sign hs \<or> (\<exists>host. signed_certificate sign now host (handshakes sign hs) = (r, certs'))"
    using resolve_cert_certs[OF run] by blast
  ultimately show ?case using snoc.IH signed_certificate_fits(1)[OF sign snoc.IH] by blast
qed (simp add: handshakes_def)

text \<open>C21: whatever clients asked for before and whatever the clock did, a client is given a certificate only for a hostname an
  App has at that moment, and the certificate is for that hostname and not near its end: one of the Node's CA has more
  than 30 days left, and one of the ACME CA, which public hostnames get where ACME is on, has not expired.\<close>

theorem client_gets_fitting_certificate:
  assumes sign: "\<forall>h t c. sign h t = Inr c \<longrightarrow> names c = h \<and> until c = t"
    and "host = to_ascii_lowercase (trim_end_matches CHR ''.'' name)"
    and "fst (resolve_cert sign acme ag now (Some name) (handshakes sign hs)) = Some c"
  shows "routed ag host \<and>
    (if acme \<noteq> None \<and> is_public host
     then \<exists>hc. ac_certificates (the acme) host = Some hc \<and> c = hc_certified hc \<and> hc_expires hc > now
     else names c = host \<and> until c > now + RESIGN_WITHIN)"
proof -
  obtain certs' where run: "resolve_cert sign acme ag now (Some name) (handshakes sign hs) = (Some c, certs')"
    using assms(3) by (cases "resolve_cert sign acme ag now (Some name) (handshakes sign hs)") auto
  have fit: "names c = host \<and> until c > now + RESIGN_WITHIN"
    if "signed_certificate sign now host (handshakes sign hs) = (Some c, certs')"
  proof -
    have law: "\<And>h t c. sign h t = Inr c \<Longrightarrow> names c = h \<and> until c = t" using sign by blast
    have old: "\<And>h c. handshakes sign hs h = Some c \<Longrightarrow> names (hc_certified c) = h \<and> until (hc_certified c) = hc_expires c"
      by (rule handshakes_fit[where sign = sign and hs = hs]) (use law in blast)+
    show ?thesis
      by (rule signed_certificate_fits(2)[where names = names and until = until and sign = sign, OF _ _ that refl])
        (use law old in blast)+
  qed
  from resolve_cert_certs[OF run] show ?thesis
    by (auto simp: assms(2)[symmetric] dest: fit acme_certificate_SomeD)
qed

definition demo_sign :: "string \<Rightarrow> nat \<Rightarrow> string + string" where
  "demo_sign host t = Inr (decimal t @ CHR '' '' # host)"

theorem client_gets_fitting_certificate_witness:
  "\<exists>c. fst (resolve_cert demo_sign None demo_running 5 (Some ''H.'') (handshakes demo_sign [])) = Some c \<and>
     routed demo_running ''h'' \<and> split_once CHR '' '' c = Some (decimal (5 + LEAF_VALIDITY), ''h'')"
proof -
  let ?names = "\<lambda>c. snd (the (split_once CHR '' '' c))" and ?until = "\<lambda>c. undecimal (fst (the (split_once CHR '' '' c)))"
  have sep: "split_once CHR '' '' (decimal t @ CHR '' '' # h) = Some (decimal t, h)" for t h
    by (simp add: is_ascii_digit_def char_le_iff)
  then have sign: "\<forall>h t c. demo_sign h t = Inr c \<longrightarrow> ?names c = h \<and> ?until c = t" by (auto simp: demo_sign_def)
  have host: "''h'' = to_ascii_lowercase (trim_end_matches CHR ''.'' ''H.'')" and routed: "routed demo_running ''h''" by code_simp+
  have "fst (resolve_cert demo_sign None demo_running 5 (Some ''H.'') (handshakes demo_sign [])) =
      Some (decimal (5 + LEAF_VALIDITY) @ CHR '' '' # ''h'')"
    using routed
    by (simp add: resolve_cert_def host[symmetric] handshakes_def signed_certificate_def certify_def demo_sign_def Let_def)
  with client_gets_fitting_certificate[OF sign host this] sep show ?thesis by auto
qed

subsection \<open>Orders under way\<close>

text \<open>
  Every interleaving of \<open>ensure\<close>'s sections, each under its own lock: a task looks whether its hostname needs an
  order, then starts one unless another has; an order answers challenges, records how it ended, and is dropped, which
  can happen at any point (an error, a panic, a cancelled task). A CA never gives out a token twice (RFC 8555, 8.3).
\<close>

record acme_run =
  ar_acme :: acme
  ar_checked :: "string list"
  ar_orders :: "pending_order list"

inductive acme_step :: "acme_run \<Rightarrow> acme_run \<Rightarrow> bool" where
  look: "needs_order now clock host (ar_acme s) \<Longrightarrow> acme_step s (s\<lparr>ar_checked := host # ar_checked s\<rparr>)"
| start: "host \<in> set (ar_checked s) \<Longrightarrow> order_start host (ar_acme s) = Some (po, ac) \<Longrightarrow>
    acme_step s (s\<lparr>ar_acme := ac, ar_checked := remove1 host (ar_checked s), ar_orders := po # ar_orders s\<rparr>)"
| refused: "host \<in> set (ar_checked s) \<Longrightarrow> order_start host (ar_acme s) = None \<Longrightarrow>
    acme_step s (s\<lparr>ar_checked := remove1 host (ar_checked s)\<rparr>)"
| answer: "po \<in> set (ar_orders s) \<Longrightarrow> challenge (ar_acme s) token = None \<Longrightarrow>
    order_answer token authorization po (ar_acme s) = (po', ac) \<Longrightarrow>
    acme_step s (s\<lparr>ar_acme := ac, ar_orders := po' # remove1 po (ar_orders s)\<rparr>)"
| settle: "po \<in> set (ar_orders s) \<Longrightarrow> order_settle clock (po_host po) result (ar_acme s) = (r, ac) \<Longrightarrow>
    acme_step s (s\<lparr>ar_acme := ac\<rparr>)"
| ended: "po \<in> set (ar_orders s) \<Longrightarrow>
    acme_step s (s\<lparr>ar_acme := order_drop po (ar_acme s), ar_orders := remove1 po (ar_orders s)\<rparr>)"

definition served_tokens :: "acme_run \<Rightarrow> string list" where
  "served_tokens s = concat (map po_tokens (ar_orders s))"

definition acme_inv :: "acme_run \<Rightarrow> bool" where
  "acme_inv s \<longleftrightarrow>
     distinct (map po_host (ar_orders s)) \<and> ac_ordering (ar_acme s) = po_host ` set (ar_orders s) \<and>
     distinct (served_tokens s) \<and> dom (ac_challenges (ar_acme s)) = set (served_tokens s)"

lemma drop_challenges: "fold (\<lambda>t m. m(t := None)) ts m = m |` (- set ts)"
  by (induction ts arbitrary: m) (auto simp: restrict_map_def fun_eq_iff)

lemma distinct_map_remove1: "distinct (map f xs) \<Longrightarrow> distinct (map f (remove1 x xs))"
  by (meson distinct_map distinct_remove1 inj_on_subset set_remove1_subset)

lemma remove1_parts:
  assumes "po \<in> set os" and "distinct (map po_host os)" and "distinct (concat (map po_tokens os))"
  shows "po_host ` set (remove1 po os) = po_host ` set os - {po_host po}"
    and "set (concat (map po_tokens (remove1 po os))) = set (concat (map po_tokens os)) - set (po_tokens po)"
    and "distinct (concat (map po_tokens (remove1 po os)))"
proof -
  obtain xs ys where os: "os = xs @ po # ys" "po \<notin> set xs" using assms(1) by (meson split_list_first)
  have rem: "remove1 po os = xs @ ys" using os by (simp add: remove1_append)
  show "po_host ` set (remove1 po os) = po_host ` set os - {po_host po}"
    unfolding rem using assms(2) by (simp add: os(1) image_Un)
  show "set (concat (map po_tokens (remove1 po os))) = set (concat (map po_tokens os)) - set (po_tokens po)"
    unfolding rem using assms(3) by (auto simp: os(1))
  show "distinct (concat (map po_tokens (remove1 po os)))"
    unfolding rem using assms(3) by (auto simp: os(1))
qed

lemma acme_inv_step: "acme_step s s' \<Longrightarrow> acme_inv s \<Longrightarrow> acme_inv s'"
proof (induction rule: acme_step.induct)
  case (start host s po ac)
  then show ?case
    by (clarsimp simp: acme_inv_def served_tokens_def order_start_def split: if_splits)
next
  case (answer po s token authorization po' ac)
  then have inv: "distinct (map po_host (ar_orders s))" "distinct (concat (map po_tokens (ar_orders s)))"
    by (simp_all add: acme_inv_def served_tokens_def)
  have po': "po' = po\<lparr>po_tokens := po_tokens po @ [token]\<rparr>" and ac: "ac = (ar_acme s)\<lparr>ac_challenges := (ac_challenges (ar_acme s))(token \<mapsto> authorization)\<rparr>"
    using answer(3) by (simp_all add: order_answer_def)
  have "set (po_tokens po) \<subseteq> set (served_tokens s)" using answer(1) by (auto simp: served_tokens_def)
  moreover have "token \<notin> set (served_tokens s)"
    using answer(2,4) by (metis acme_inv_def challenge_def domIff)
  moreover have "distinct (po_tokens po)" using answer(1) inv(2) by (auto simp: distinct_concat_iff)
  ultimately have fresh: "token \<notin> set (po_tokens po)" "set (po_tokens po) \<subseteq> set (served_tokens s)"
    "token \<notin> set (served_tokens s)" "distinct (po_tokens po)" by auto
  with answer(1,4) remove1_parts[OF answer(1) inv] show ?case
    using image_eqI[OF refl answer(1), of po_host]
    by (simp add: acme_inv_def served_tokens_def po' ac distinct_map_remove1) blast
next
  case (ended po s)
  then have inv: "distinct (map po_host (ar_orders s))" "distinct (concat (map po_tokens (ar_orders s)))"
    by (simp_all add: acme_inv_def served_tokens_def)
  from ended remove1_parts[OF ended(1) inv] show ?case
    by (simp add: acme_inv_def served_tokens_def order_drop_def drop_challenges distinct_map_remove1) blast
qed (auto simp: acme_inv_def served_tokens_def order_settle_def Let_def split: sum.split_asm)

definition acme_started :: "string list \<Rightarrow> (string \<Rightarrow> string + host_certificate) \<Rightarrow> acme_run" where
  "acme_started names read_certificate = \<lparr>ar_acme = acme_load names read_certificate, ar_checked = [], ar_orders = []\<rparr>"

lemma acme_inv_started: "acme_inv (acme_started names rd)"
  by (simp add: acme_inv_def acme_started_def acme_load_def served_tokens_def)

lemma acme_inv_steps: "acme_step\<^sup>*\<^sup>* s s' \<Longrightarrow> acme_inv s \<Longrightarrow> acme_inv s'"
  by (induction rule: rtranclp_induct) (auto intro: acme_inv_step)

text \<open>C22: however the tasks that want certificates interleave, fail and are cancelled, no hostname ever has two orders under
  way, and a challenge is answered exactly while the order it belongs to is.\<close>

theorem one_order_per_hostname:
  assumes "acme_step\<^sup>*\<^sup>* (acme_started names rd) s"
  shows "distinct (map po_host (ar_orders s)) \<and>
    (\<forall>token. challenge (ar_acme s) token \<noteq> None \<longleftrightarrow> (\<exists>po \<in> set (ar_orders s). token \<in> set (po_tokens po)))"
proof -
  have inv: "acme_inv s" using acme_inv_steps[OF assms acme_inv_started] .
  have "challenge (ar_acme s) token \<noteq> None \<longleftrightarrow> token \<in> set (served_tokens s)" for token
    using inv by (metis acme_inv_def challenge_def domIff)
  with inv show ?thesis by (simp add: acme_inv_def served_tokens_def)
qed

theorem one_order_per_hostname_witness:
  "\<exists>s. acme_step\<^sup>*\<^sup>* (acme_started [] (\<lambda>_. Inl [])) s \<and> challenge (ar_acme s) ''t'' = Some ''k'' \<and>
    (\<exists>po \<in> set (ar_orders s). ''t'' \<in> set (po_tokens po))"
proof -
  let ?s0 = "acme_started [] (\<lambda>_. Inl [])"
  let ?s1 = "?s0\<lparr>ar_checked := [''a.dev'']\<rparr>"
  have "acme_step ?s0 ?s1"
    using acme_step.look[of 0 0 "''a.dev''" ?s0] by (simp add: acme_started_def acme_load_def needs_order_def)
  moreover obtain s2 where s2: "acme_step ?s1 s2" "ar_orders s2 = [\<lparr>po_host = ''a.dev'', po_tokens = []\<rparr>]"
      "challenge (ar_acme s2) ''t'' = None"
    using acme_step.start[of "''a.dev''" ?s1] by (auto simp: acme_started_def acme_load_def order_start_def challenge_def)
  moreover obtain s3 where s3: "acme_step s2 s3" "challenge (ar_acme s3) ''t'' = Some ''k''"
    using acme_step.answer[of "\<lparr>po_host = ''a.dev'', po_tokens = []\<rparr>" s2 "''t''" "''k''"] s2
    by (auto simp: order_answer_def challenge_def)
  ultimately have "acme_step\<^sup>*\<^sup>* ?s0 s3" by (meson converse_rtranclp_into_rtranclp rtranclp.rtrancl_refl)
  with one_order_per_hostname[OF this] s3(2) show ?thesis by (metis option.distinct(1))
qed

subsection \<open>Backing off\<close>

definition failures :: "string \<Rightarrow> string \<Rightarrow> nat list \<Rightarrow> acme \<Rightarrow> acme" where
  "failures host e clocks ac = fold (\<lambda>clock ac. snd (order_settle clock host (Inl e) ac)) clocks ac"

lemma failures_wait:
  assumes "ac_failed ac host = None" and "clocks \<noteq> []"
  shows "ac_failed (failures host e clocks ac) host =
    (let w = min (FIRST_RETRY_AFTER * 2 ^ (length clocks - 1)) MAX_RETRY_AFTER in Some (last clocks + w, w))"
  using assms(2)
proof (induction clocks rule: rev_induct)
  case (snoc c cs)
  show ?case
  proof (cases "cs = []")
    case True
    with assms(1) show ?thesis
      by (simp add: failures_def order_settle_def next_wait_def FIRST_RETRY_AFTER_def MAX_RETRY_AFTER_def Let_def)
  next
    case False
    have w: "next_wait host (failures host e cs ac) = min (FIRST_RETRY_AFTER * 2 ^ length cs) MAX_RETRY_AFTER"
      using snoc.IH[OF False] False by (cases cs) (auto simp: next_wait_def Let_def min_def)
    have "failures host e (cs @ [c]) ac = snd (order_settle c host (Inl e) (failures host e cs ac))"
      by (simp add: failures_def)
    with w show ?thesis by (simp add: order_settle_def Let_def)
  qed
qed simp

text \<open>After n orders for a hostname have failed in a row, the next is not placed before 5 minutes doubled n - 1 times
  have passed, and never waits longer than 6 hours: until then \<open>ensure\<close> asks the CA for nothing and changes nothing.
  A certificate with more than 30 days left is not ordered again at all.\<close>

theorem acme_backs_off:
  assumes "ac_failed ac host = None" and "clocks \<noteq> []" and "failed = failures host e clocks ac"
    and "clock < last clocks + min (300 * 2 ^ (length clocks - 1)) 21600 \<or> ac_certificates ac host = Some c \<and> lasts now (30 * DAY) c"
  shows "ensure ca now clock later host failed = (Inr (), failed)"
proof -
  have "ac_certificates failed = ac_certificates ac"
    unfolding assms(3) failures_def
    by (induction clocks arbitrary: ac) (simp_all add: order_settle_def Let_def)
  moreover have "ac_failed failed host =
      (let w = min (FIRST_RETRY_AFTER * 2 ^ (length clocks - 1)) MAX_RETRY_AFTER in Some (last clocks + w, w))"
    unfolding assms(3) by (rule failures_wait[OF assms(1,2)])
  ultimately have "\<not> needs_order now clock host failed"
    using assms(4) by (auto simp: needs_order_def Let_def FIRST_RETRY_AFTER_def MAX_RETRY_AFTER_def RENEW_WITHIN_def)
  then show ?thesis by (simp add: ensure_def)
qed

definition demo_acme_ca :: acme_ca where
  "demo_acme_ca =
     \<lparr>aa_account = Inr (), aa_new_order = Inr (), aa_authorizations = [], aa_poll_ready = Inr ''Ready'', aa_finalize = Inr ''k'',
      aa_poll_certificate = Inr ''c'', aa_store = Inr (), aa_read = Inr \<lparr>hc_certified = ''c'', hc_expires = 9\<rparr>\<rparr>"

theorem acme_backs_off_witness:
  "ensure demo_acme_ca 0 1000 2000 ''a.dev'' (failures ''a.dev'' ''e'' [0, 500] (acme_load [] (\<lambda>_. Inl []))) =
     (Inr (), failures ''a.dev'' ''e'' [0, 500] (acme_load [] (\<lambda>_. Inl [])))"
  by (rule acme_backs_off[of "acme_load [] (\<lambda>_. Inl [])" _ "[0, 500]" _ "''e''" 1000, OF _ _ refl])
    (simp_all add: acme_load_def)

end
