(* ===== verification/Endpoint.thy ===== *)
theory Endpoint
  imports
    Service
    "HOL-Library.Sublist"
begin

section \<open>The agent's endpoints, and the CLI's requests\<close>

text \<open>
  \<open>agent.rs\<close>'s \<open>handle\<close>: which handler a request on the agent's socket gets, with its names checked, and the
  requests \<open>cirro\<close> (\<open>main.rs\<close>) makes of its commands. The lemmas tie the two ends together: a name from a path can't
  lead out of a directory, every command reaches the handler it means, and \<open>cirro logs\<close> prints the log.
\<close>

subsection \<open>Dispatch\<close>

datatype http_method = GET | POST | DELETE | Other_method string

fun method_text :: "http_method \<Rightarrow> string" where
  "method_text GET = ''GET''"
| "method_text POST = ''POST''"
| "method_text DELETE = ''DELETE''"
| "method_text (Other_method m) = m"

datatype endpoint =
    Get_machine_apps
  | Post_machine_app
  | Get_stats
  | Get_ca
  | Get_vms bool
  | Post_vm
  | Stop_vm string
  | Park_vm string
  | Wake_vm string
  | Get_logs string u64
  | Delete_vm string
  | Get_ssh_key
  | Get_machines
  | Scan_machine
  | Post_machine
  | Delete_machine string

definition segments :: "string \<Rightarrow> string list" where
  "segments path = split_on CHR ''/'' (trim_matches CHR ''/'' path)"

definition check_names :: "string list \<Rightarrow> api_error + unit" where
  "check_names segs =
     (case segs of
        kind # name # _ \<Rightarrow>
          if kind = ''vms'' then validate_name ''VM'' name
          else if kind = ''machines'' then validate_name ''Machine'' name
          else Inr ()
      | _ \<Rightarrow> Inr ())"

definition check_machine_backed :: "agent \<Rightarrow> string list \<Rightarrow> api_error + unit" where
  "check_machine_backed ag segs =
     (case segs of
        [kind, name, action] \<Rightarrow>
          if kind = ''vms'' \<and> has_app (ag_machines ag) name
          then Inl (ApiError CONFLICT (About_VM name
                 (if action = ''logs'' then MachineBackedHasNoLog else MachineBackedCannot action)))
          else Inr ()
      | _ \<Rightarrow> Inr ())"

definition logs_offset :: "string \<Rightarrow> api_error + u64" where
  "logs_offset query =
     (case query_param query ''offset'' of
        None \<Rightarrow> Inr 0
      | Some o' \<Rightarrow> ok_or (bad_request (Request BadOffset)) (parse_word o'))"

definition find_endpoint :: "http_method \<Rightarrow> string list \<Rightarrow> string \<Rightarrow> api_error \<Rightarrow> api_error + endpoint" where
  "find_endpoint m segs query unknown =
     (case segs of
        [a] \<Rightarrow>
          if m = GET \<and> a = ''machine-apps'' then Inr Get_machine_apps
          else if m = POST \<and> a = ''machine-apps'' then Inr Post_machine_app
          else if m = GET \<and> a = ''stats'' then Inr Get_stats
          else if m = GET \<and> a = ''ca'' then Inr Get_ca
          else if m = GET \<and> a = ''vms'' then Inr (Get_vms (query_param query ''all'' = Some ''true''))
          else if m = POST \<and> a = ''vms'' then Inr Post_vm
          else if m = GET \<and> a = ''ssh-key'' then Inr Get_ssh_key
          else if m = GET \<and> a = ''machines'' then Inr Get_machines
          else if m = POST \<and> a = ''machines'' then Inr Post_machine
          else Inl unknown
      | [a, b] \<Rightarrow>
          if m = DELETE \<and> a = ''vms'' then Inr (Delete_vm b)
          else if m = POST \<and> a = ''machines'' \<and> b = ''scan'' then Inr Scan_machine
          else if m = DELETE \<and> a = ''machines'' then Inr (Delete_machine b)
          else Inl unknown
      | [a, b, c] \<Rightarrow>
          if m = POST \<and> a = ''vms'' \<and> c = ''stop'' then Inr (Stop_vm b)
          else if m = POST \<and> a = ''vms'' \<and> c = ''park'' then Inr (Park_vm b)
          else if m = POST \<and> a = ''vms'' \<and> c = ''wake'' then Inr (Wake_vm b)
          else if m = GET \<and> a = ''vms'' \<and> c = ''logs'' then bindr (logs_offset query) (\<lambda>n. Inr (Get_logs b n))
          else Inl unknown
      | _ \<Rightarrow> Inl unknown)"

definition dispatch :: "agent \<Rightarrow> http_method \<Rightarrow> string \<Rightarrow> string \<Rightarrow> api_error + endpoint" where
  "dispatch ag m path query =
     bindr (check_names (segments path)) (\<lambda>_.
     bindr (check_machine_backed ag (segments path)) (\<lambda>_.
     find_endpoint m (segments path) query (ApiError NOT_FOUND (Request (NoSuchEndpoint (method_text m) path)))))"

subsection \<open>The CLI's requests\<close>

definition vm_path :: "string \<Rightarrow> string \<Rightarrow> string" where
  "vm_path name action = ''/vms/'' @ name @ ''/'' @ action"

datatype cli_request =
    Cli_run
  | Cli_run_on_machine
  | Cli_ps bool
  | Cli_logs string u64
  | Cli_stop string
  | Cli_rm string
  | Cli_park string
  | Cli_wake string
  | Cli_stats
  | Cli_machine_apps
  | Cli_ca
  | Cli_machine_add
  | Cli_machine_scan
  | Cli_machine_ls
  | Cli_machine_rm string
  | Cli_machine_key

fun cli_target :: "cli_request \<Rightarrow> http_method \<times> string" where
  "cli_target Cli_run = (POST, ''/vms'')"
| "cli_target Cli_run_on_machine = (POST, ''/machine-apps'')"
| "cli_target (Cli_ps all) = (GET, if all then ''/vms?all=true'' else ''/vms'')"
| "cli_target (Cli_logs name offset) = (GET, vm_path name ''logs?offset='' @ show_word offset)"
| "cli_target (Cli_stop name) = (POST, vm_path name ''stop'')"
| "cli_target (Cli_rm name) = (DELETE, ''/vms/'' @ name)"
| "cli_target (Cli_park name) = (POST, vm_path name ''park'')"
| "cli_target (Cli_wake name) = (POST, vm_path name ''wake'')"
| "cli_target Cli_stats = (GET, ''/stats'')"
| "cli_target Cli_machine_apps = (GET, ''/machine-apps'')"
| "cli_target Cli_ca = (GET, ''/ca'')"
| "cli_target Cli_machine_add = (POST, ''/machines'')"
| "cli_target Cli_machine_scan = (POST, ''/machines/scan'')"
| "cli_target Cli_machine_ls = (GET, ''/machines'')"
| "cli_target (Cli_machine_rm name) = (DELETE, ''/machines/'' @ name)"
| "cli_target Cli_machine_key = (GET, ''/ssh-key'')"

text \<open>The handler each is meant for.\<close>

fun meant_for :: "cli_request \<Rightarrow> endpoint" where
  "meant_for Cli_run = Post_vm"
| "meant_for Cli_run_on_machine = Post_machine_app"
| "meant_for (Cli_ps all) = Get_vms all"
| "meant_for (Cli_logs name offset) = Get_logs name offset"
| "meant_for (Cli_stop name) = Stop_vm name"
| "meant_for (Cli_rm name) = Delete_vm name"
| "meant_for (Cli_park name) = Park_vm name"
| "meant_for (Cli_wake name) = Wake_vm name"
| "meant_for Cli_stats = Get_stats"
| "meant_for Cli_machine_apps = Get_machine_apps"
| "meant_for Cli_ca = Get_ca"
| "meant_for Cli_machine_add = Post_machine"
| "meant_for Cli_machine_scan = Scan_machine"
| "meant_for Cli_machine_ls = Get_machines"
| "meant_for (Cli_machine_rm name) = Delete_machine name"
| "meant_for Cli_machine_key = Get_ssh_key"

fun named_by :: "endpoint \<Rightarrow> string option" where
  "named_by (Stop_vm n) = Some n"
| "named_by (Park_vm n) = Some n"
| "named_by (Wake_vm n) = Some n"
| "named_by (Get_logs n _) = Some n"
| "named_by (Delete_vm n) = Some n"
| "named_by (Delete_machine n) = Some n"
| "named_by _ = None"

lemma trim_slash:
  assumes "s \<noteq> []" and "hd s \<noteq> CHR ''/''" and "last s \<noteq> CHR ''/''"
  shows "trim_matches CHR ''/'' (CHR ''/'' # s) = s"
proof -
  have "trim_start_matches CHR ''/'' (CHR ''/'' # s) = s" using assms(1,2) by (cases s) (simp_all add: trim_start_matches_def)
  with assms(3) show ?thesis by (simp add: trim_matches_def trim_end_matches_id)
qed

lemma last_not_slash: "a \<noteq> [] \<Longrightarrow> CHR ''/'' \<notin> set a \<Longrightarrow> last a \<noteq> CHR ''/''" "a \<noteq> [] \<Longrightarrow> CHR ''/'' \<notin> set a \<Longrightarrow> hd a \<noteq> CHR ''/''"
  using last_in_set hd_in_set by metis+

lemma valid_name_plain:
  assumes "valid_name n"
  shows "n \<noteq> []" and "CHR ''/'' \<notin> set n" and "CHR ''?'' \<notin> set n" and "CHR ''.'' \<notin> set n"
  using assms name_char_plain by (auto simp: valid_name_def list_all_iff)

lemma segments_two:
  assumes "valid_name n" and "k \<noteq> []" and "CHR ''/'' \<notin> set k"
  shows "segments (CHR ''/'' # k @ CHR ''/'' # n) = [k, n]"
  using assms(2,3) valid_name_plain[OF assms(1)] last_not_slash[of n] last_not_slash[of k]
  by (simp add: segments_def trim_slash)

lemma segments_three:
  assumes "valid_name n" and "k \<noteq> []" and "CHR ''/'' \<notin> set k" and "a \<noteq> []" and "CHR ''/'' \<notin> set a"
  shows "segments (CHR ''/'' # k @ CHR ''/'' # n @ CHR ''/'' # a) = [k, n, a]"
  using assms(2-) valid_name_plain[OF assms(1)] last_not_slash[of a] last_not_slash[of k]
  by (simp add: segments_def trim_slash)

text \<open>C25: a name the agent takes from a request's path is a valid one, whatever the path: it is neither empty nor too long and
  has no slash and no dot, so the log and the snapshot directory made from it are directly in their own directories.\<close>

theorem path_names_are_confined:
  assumes "dispatch ag m path query = Inr ep" and "named_by ep = Some n"
  shows "valid_name n \<and> CHR ''/'' \<notin> set n \<and> CHR ''.'' \<notin> set n \<and>
    rsplit_once CHR ''/'' (dir @ ''/'' @ n) = Some (dir, n) \<and>
    rsplit_once CHR ''/'' (dir @ ''/'' @ log_file_name n k) = Some (dir, log_file_name n k)"
proof -
  have "valid_name n"
    using assms
    by (auto simp: dispatch_def check_names_def find_endpoint_def validate_name_def check_def
        split: list.split_asm if_splits)
  moreover from valid_name_plain[OF this] have "CHR ''/'' \<notin> set (log_file_name n k)"
    by (simp add: log_file_name_def show_word_def is_ascii_digit_def char_le_iff)
  ultimately show ?thesis
    using valid_name_plain[of n] by (simp add: rsplit_once_eq_Some)
qed

theorem path_names_are_confined_witness:
  "valid_name ''web'' \<and> rsplit_once CHR ''/'' (''/var/parked'' @ ''/'' @ ''web'') = Some (''/var/parked'', ''web'')"
proof -
  have "dispatch demo_fresh POST ''/vms/web/park'' [] = Inr (Park_vm ''web'')" by code_simp
  from path_names_are_confined[OF this, of "''web''" "''/var/parked''"] show ?thesis by simp
qed

lemma query_offset: "query_param (''offset='' @ show_word n) ''offset'' = Some (show_word n)"
proof -
  have "CHR ''&'' \<notin> set (''offset='' @ show_word n)" by (simp add: show_word_def is_ascii_digit_def char_le_iff)
  then have "split_on CHR ''&'' (''offset='' @ show_word n) = [''offset='' @ show_word n]" by (rule split_on_no_sep)
  moreover have "split_once CHR ''='' (''offset='' @ show_word n) = Some (''offset'', show_word n)"
    using split_once_append[of "CHR ''=''" "''offset''" "show_word n"] by simp
  ultimately show ?thesis by (simp only: query_param_def List.map_filter_simps) simp
qed

lemma dispatch_three:
  assumes "valid_name n" and "\<not> has_app (ag_machines ag) n" and "a \<noteq> []" and "CHR ''/'' \<notin> set a"
  shows "dispatch ag m (''/vms/'' @ n @ ''/'' @ a) query =
    find_endpoint m [''vms'', n, a] query (ApiError NOT_FOUND (Request (NoSuchEndpoint (method_text m) (''/vms/'' @ n @ ''/'' @ a))))"
  using segments_three[of n "''vms''" a] assms
  by (simp add: dispatch_def check_names_def check_machine_backed_def validate_name_def check_def)

lemma dispatch_two:
  assumes "valid_name n" and "k = ''vms'' \<or> k = ''machines''"
  shows "dispatch ag m (CHR ''/'' # k @ ''/'' @ n) query =
    find_endpoint m [k, n] query (ApiError NOT_FOUND (Request (NoSuchEndpoint (method_text m) (CHR ''/'' # k @ ''/'' @ n))))"
  using segments_two[of n k] assms
  by (auto simp: dispatch_def check_names_def check_machine_backed_def validate_name_def check_def)

lemma dispatch_one:
  assumes "k \<noteq> []" and "CHR ''/'' \<notin> set k"
  shows "dispatch ag m (CHR ''/'' # k) query =
    find_endpoint m [k] query (ApiError NOT_FOUND (Request (NoSuchEndpoint (method_text m) (CHR ''/'' # k))))"
  using assms last_not_slash[of k]
  by (simp add: dispatch_def segments_def trim_slash check_names_def check_machine_backed_def)

lemma find_endpoint_vm:
  "find_endpoint POST [''vms'', n, ''stop''] query e = Inr (Stop_vm n)"
  "find_endpoint POST [''vms'', n, ''park''] query e = Inr (Park_vm n)"
  "find_endpoint POST [''vms'', n, ''wake''] query e = Inr (Wake_vm n)"
  "find_endpoint GET [''vms'', n, ''logs''] (''offset='' @ show_word k) e = Inr (Get_logs n k)"
  "find_endpoint DELETE [''vms'', n] query e = Inr (Delete_vm n)"
  "find_endpoint DELETE [''machines'', n] query e = Inr (Delete_machine n)"
  using query_offset[of k] by (simp_all add: find_endpoint_def logs_offset_def)



subsection \<open>Printing a log\<close>

text \<open>
  \<open>cirro logs\<close>: one chunk after the other until a short one, and with \<open>--follow\<close> until the VM has ended. Each element
  of the list is what one request meets: the log as it is then and whether the VM has ended.
\<close>

fun cli_logs :: "bool \<Rightarrow> u64 \<Rightarrow> string \<Rightarrow> (string \<times> bool) list \<Rightarrow> string option" where
  "cli_logs follow offset out [] = None"
| "cli_logs follow offset out ((log, ended) # rs) =
     (let bytes = read_log (Some log) offset;
          out = out @ bytes;
          offset = offset + of_nat (length bytes)
      in if length bytes = LOG_CHUNK then cli_logs follow offset out rs
         else if \<not> follow \<or> ended then Some out
         else cli_logs follow offset out rs)"

definition growing :: "(string \<times> bool) list \<Rightarrow> bool" where
  "growing rs \<longleftrightarrow> sorted_wrt (\<lambda>a b. prefix (fst a) (fst b)) rs"

lemma read_log_prefix:
  assumes "prefix out log" and "length log < 2 ^ 64"
  shows "read_log (Some log) (of_nat (length out)) = take LOG_CHUNK (drop (length out) log)"
    and "prefix (out @ read_log (Some log) (of_nat (length out))) log"
    and "length (read_log (Some log) (of_nat (length out))) \<noteq> LOG_CHUNK \<Longrightarrow>
      out @ read_log (Some log) (of_nat (length out)) = log"
proof -
  have len: "length out < 2 ^ 64" using assms prefix_length_le le_less_trans by blast
  show r: "read_log (Some log) (of_nat (length out)) = take LOG_CHUNK (drop (length out) log)"
    using len by (simp add: read_log_def unat_of_nat)
  obtain rest where log: "log = out @ rest" using assms(1) by (auto simp: prefix_def)
  show "prefix (out @ read_log (Some log) (of_nat (length out))) log"
    unfolding r by (simp add: log take_is_prefix)
  assume "length (read_log (Some log) (of_nat (length out))) \<noteq> LOG_CHUNK"
  then show "out @ read_log (Some log) (of_nat (length out)) = log"
    unfolding r by (simp add: log min_def split: if_splits)
qed

lemma cli_logs_prints:
  assumes "growing rs" and "\<forall>r \<in> set rs. length (fst r) < 2 ^ 64" and "\<forall>r \<in> set rs. prefix out (fst r)"
    and "cli_logs follow (of_nat (length out)) out rs = Some res"
  shows "\<exists>ended. (res, ended) \<in> set rs \<and> (follow \<longrightarrow> ended)"
  using assms
proof (induction rs arbitrary: out)
  case (Cons r rs)
  obtain log ended where r: "r = (log, ended)" by (cases r)
  let ?bytes = "read_log (Some log) (of_nat (length out)) :: string"
  note rl = read_log_prefix[of out log]
  have pre: "prefix out log" "length log < 2 ^ 64" using Cons.prems by (auto simp: r)
  have grow: "growing rs" "\<forall>x \<in> set rs. prefix log (fst x)" using Cons.prems(1) by (auto simp: growing_def r)
  have next_out: "\<forall>x \<in> set rs. prefix (out @ ?bytes) (fst x)" using rl(2)[OF pre] grow(2) prefix_order.trans by blast
  show ?case
  proof (cases "length ?bytes \<noteq> LOG_CHUNK \<and> (\<not> follow \<or> ended)")
    case True
    then show ?thesis using Cons.prems(4) rl(3)[OF pre] by (auto simp: r)
  next
    case False
    then have "cli_logs follow (of_nat (length (out @ ?bytes))) (out @ ?bytes) rs = Some res"
      using Cons.prems(4) by (auto simp: r Let_def split: if_splits)
    from Cons.IH[OF grow(1) _ next_out this] Cons.prems(2) show ?thesis by auto
  qed
qed simp

lemma cli_logs_returns:
  assumes "growing rs" and "\<forall>r \<in> set rs. prefix out (fst r) \<and> length (fst r) \<le> n" and "n < 2 ^ 64"
    and "(n - length out) div LOG_CHUNK < length (filter (\<lambda>r. \<not> follow \<or> snd r) rs)"
  shows "cli_logs follow (of_nat (length out)) out rs \<noteq> None"
  using assms
proof (induction rs arbitrary: out)
  case (Cons r rs)
  obtain log ended where r: "r = (log, ended)" by (cases r)
  let ?bytes = "read_log (Some log) (of_nat (length out)) :: string"
  have pre: "prefix out log" "length log \<le> n" "length log < 2 ^ 64" using Cons.prems(2,3) by (auto simp: r)
  note rl = read_log_prefix[OF pre(1,3)]
  have grow: "growing rs" "\<forall>x \<in> set rs. prefix log (fst x)" using Cons.prems(1) by (auto simp: growing_def r)
  have next_out: "\<forall>x \<in> set rs. prefix (out @ ?bytes) (fst x) \<and> length (fst x) \<le> n"
    using rl(2) grow(2) prefix_order.trans Cons.prems(2) by fastforce
  note IH = Cons.IH[OF grow(1) next_out Cons.prems(3)]
  show ?case
  proof (cases "length ?bytes = LOG_CHUNK")
    case True
    have pos: "0 < LOG_CHUNK" by (simp add: LOG_CHUNK_def)
    have "length out + LOG_CHUNK \<le> n" using prefix_length_le[OF rl(2)] True pre(2) by simp
    then obtain d where "n = length out + LOG_CHUNK + d" by (metis le_Suc_ex)
    then have "(n - length out) div LOG_CHUNK = Suc ((n - length (out @ ?bytes)) div LOG_CHUNK)"
      using True pos div_add_self1[of LOG_CHUNK d] by simp
    with IH Cons.prems(4) True show ?thesis by (simp add: r Let_def split: if_splits)
  next
    case False
    then have log: "out @ ?bytes = log" by (rule rl(3))
    have "(n - length log) div LOG_CHUNK \<le> (n - length out) div LOG_CHUNK"
      using prefix_length_le[OF pre(1)] by (intro div_le_mono diff_le_mono2)
    moreover have "of_nat (length out) + of_nat (length ?bytes) = (of_nat (length log) :: u64)"
      using log by (metis length_append of_nat_add)
    ultimately show ?thesis using IH Cons.prems(4) False log by (auto simp: r Let_def split: if_splits)
  qed
qed simp

text \<open>C27: \<open>cirro logs\<close> prints the log: what it prints is the whole log as it was at one of its requests, no byte missing or
  twice, however the log grew meanwhile, and with \<open>--follow\<close> as it was once the VM had ended. It comes to its end: a log
  of at most n bytes takes no more than n / 2^20 + 1 requests, counted from the VM's end with \<open>--follow\<close>.\<close>

theorem cli_prints_whole_log:
  assumes "growing rs" and "\<forall>r \<in> set rs. length (fst r) \<le> n" and "n < 2 ^ 64"
  shows "(cli_logs follow 0 [] rs = Some out \<longrightarrow> (\<exists>ended. (out, ended) \<in> set rs \<and> (follow \<longrightarrow> ended))) \<and>
    (n div 2 ^ 20 < length (filter (\<lambda>r. \<not> follow \<or> snd r) rs) \<longrightarrow> cli_logs follow 0 [] rs \<noteq> None)"
proof -
  have "\<forall>r \<in> set rs. length (fst r) < 2 ^ 64" using assms(2,3) le_less_trans by blast
  then show ?thesis
    using cli_logs_prints[OF assms(1), of "[]" follow out] cli_logs_returns[OF assms(1) _ assms(3), of "[]" follow] assms(2)
    by (auto simp: LOG_CHUNK_def)
qed

theorem cli_prints_whole_log_witness:
  "cli_logs True 0 [] [(''a'', False), (''ab'', True)] = Some ''ab''"
proof -
  let ?rs = "[(''a'', False), (''ab'', True)]"
  have g: "growing ?rs" by (simp add: growing_def)
  have n: "\<forall>r \<in> set ?rs. length (fst r) \<le> 2" "(2 :: nat) < 2 ^ 64" by simp_all
  from cli_prints_whole_log[OF g n, of True] obtain out where out: "cli_logs True 0 [] ?rs = Some out" by auto
  with cli_prints_whole_log[OF g n, of True out] show ?thesis by auto
qed

text \<open>\<open>cirro top\<close> asks for the log from its first byte and shows the end of what it gets, which for a log longer than a chunk
  is the end of its first chunk.\<close>

lemma top_shows_first_chunk: "read_log (Some log) 0 = take LOG_CHUNK log"
  by (simp add: read_log_def)

end
