(* ===== verification/Cli.thy ===== *)
theory Cli
  imports
    Launch
    Api
begin

section \<open>The CLI's arguments\<close>

text \<open>
  \<open>cirro\<close>'s \<open>main.rs\<close>: reading the arguments of \<open>cirro run\<close>, putting the request for a VM together from them and the
  image's configuration, and the percentiles of \<open>cirro bench\<close>. The file system and the image cache are parameters.
  The lemmas say that sizes read back as they are printed, that the agent accepts what the CLI accepts, and that a
  percentile is the smallest value that covers its share of the runs.
\<close>

subsection \<open>Arguments\<close>

datatype cli_error =
    NotAMemorySize string
  | MemoryOutOfRange string
  | NotKeyValue string
  | NotUidGid string
  | IsADirectory string
  | RootfsError string string
  | NoRootfsAt string string
  | NoCommandGiven string
  | PullFailed string

function trim_end_str :: "string \<Rightarrow> string \<Rightarrow> string" where
  "trim_end_str p s =
     (case strip_suffix p s of
        None \<Rightarrow> s
      | Some t \<Rightarrow> if p = [] then s else trim_end_str p t)"
  by pat_completeness auto
termination
proof (relation "measure (\<lambda>(_, s). length s)")
  fix p s t :: string
  assume "strip_suffix p s = Some t" and "p \<noteq> []"
  then show "((p, t), (p, s)) \<in> measure (\<lambda>(_, s). length s)"
    by (cases s) (auto simp: strip_suffix_def ends_with_def starts_with_def split: if_splits)
qed simp

declare trim_end_str.simps [simp del]

definition parse_mem_mib :: "string \<Rightarrow> cli_error + u32" where
  "parse_mem_mib s =
     (let lower = to_ascii_lowercase s;
          trimmed = trim_end_matches CHR ''b'' (trim_end_str ''ib'' lower);
          (digits, scale) = (case strip_suffix ''g'' trimmed of
                               Some d \<Rightarrow> (d, 1024)
                             | None \<Rightarrow> (case strip_suffix ''m'' trimmed of Some d \<Rightarrow> d | None \<Rightarrow> trimmed, 1))
      in bindr (ok_or (NotAMemorySize s) (parse_word digits :: u32 option)) (\<lambda>n.
         if unat n * scale < 2 ^ 32 \<and> MIN_MEM_MIB \<le> of_nat (unat n * scale) \<and> of_nat (unat n * scale) \<le> MAX_MEM_MIB
         then Inr (of_nat (unat n * scale))
         else Inl (MemoryOutOfRange s)))"

definition parse_env :: "string \<Rightarrow> cli_error + string" where
  "parse_env s =
     (case split_once CHR ''='' s of
        Some (key, _) \<Rightarrow> if key \<noteq> [] then Inr s else Inl (NotKeyValue s)
      | None \<Rightarrow> Inl (NotKeyValue s))"

definition parse_user :: "string \<Rightarrow> cli_error + user" where
  "parse_user s =
     ok_or (NotUidGid s)
       (Option.bind (split_once CHR '':'' s) (\<lambda>(u, g).
        Option.bind (parse_word u) (\<lambda>uid.
        Option.bind (parse_word g) (\<lambda>gid. Some \<lparr>user_uid = uid, user_gid = gid\<rparr>))))"

definition format_mem :: "u32 \<Rightarrow> string" where
  "format_mem mib =
     (if unat mib mod 1024 = 0 then decimal (unat mib div 1024) @ ''G'' else decimal (unat mib) @ ''M'')"

definition short_reference :: "string \<Rightarrow> string" where
  "short_reference reference =
     (case strip_prefix ''docker.io/library/'' reference of
        Some r \<Rightarrow> r
      | None \<Rightarrow> (case strip_prefix ''docker.io/'' reference of Some r \<Rightarrow> r | None \<Rightarrow> reference))"

definition image_cache_dir :: "string option \<Rightarrow> string option \<Rightarrow> path option" where
  "image_cache_dir xdg home =
     map_option (\<lambda>base. path_join (path_join base ''cirro'') ''images'')
       (case xdg of
          Some dir \<Rightarrow> if dir \<noteq> [] then Some dir else map_option (\<lambda>h. path_join h ''.cache'') home
        | None \<Rightarrow> map_option (\<lambda>h. path_join h ''.cache'') home)"

subsection \<open>The request for a VM\<close>

text \<open>What \<open>metadata\<close> says of a path, and \<open>canonicalize\<close> of it.\<close>

datatype metadata = A_directory | Not_a_directory "string + path" | No_metadata string

definition looks_like_path :: "string \<Rightarrow> bool" where
  "looks_like_path arg \<longleftrightarrow> list_ex (\<lambda>p. starts_with p arg) [''/'', ''./'', ''../''] \<or> ends_with ''.ext4'' arg"

definition rootfs_or_image :: "(string \<Rightarrow> metadata) \<Rightarrow> string \<Rightarrow> cli_error + path option" where
  "rootfs_or_image meta arg =
     (case meta arg of
        A_directory \<Rightarrow> if looks_like_path arg then Inl (IsADirectory arg) else Inr None
      | Not_a_directory canonical \<Rightarrow>
          (case canonical of Inr path \<Rightarrow> Inr (Some path) | Inl e \<Rightarrow> Inl (RootfsError arg e))
      | No_metadata e \<Rightarrow> if looks_like_path arg then Inl (NoRootfsAt arg e) else Inr None)"

record cli_guest =
  cg_command :: "string list"
  cg_env :: "string list"
  cg_workdir :: "string option"
  cg_user :: "user option"

definition or_else :: "'a option \<Rightarrow> 'a option \<Rightarrow> 'a option" where
  "or_else a b = (case a of Some x \<Rightarrow> Some x | None \<Rightarrow> b)"

definition make_request ::
  "(string \<Rightarrow> metadata) \<Rightarrow> (string \<Rightarrow> string + path \<times> run_config) \<Rightarrow> string \<Rightarrow> u32 \<Rightarrow> u8 \<Rightarrow> string \<Rightarrow> cli_guest \<Rightarrow>
     route option \<Rightarrow> cli_error + run_request" where
  "make_request meta pull name mem_mib vcpus arg guest rt =
     bindr (rootfs_or_image meta arg) (\<lambda>found.
     bindr (case found of
              Some rootfs \<Rightarrow>
                if cg_command guest = [] then Inl (NoCommandGiven arg)
                else Inr (rootfs, cg_command guest, cg_env guest, cg_workdir guest, cg_user guest)
            | None \<Rightarrow>
                bindr (map_err PullFailed (pull arg)) (\<lambda>(rootfs, config).
                Inr (rootfs, run_command config (cg_command guest), merge_env (rc_env config) (cg_env guest),
                     or_else (cg_workdir guest) (rc_workdir config),
                     or_else (cg_user guest) (map_option (\<lambda>(uid, gid). \<lparr>user_uid = uid, user_gid = gid\<rparr>) (rc_user config)))))
       (\<lambda>(rootfs, command, env, workdir, user).
     Inr \<lparr>rr_name = name, rr_rootfs = rootfs, rr_mem_mib = mem_mib, rr_vcpus = vcpus, rr_command = command,
          rr_env = env, rr_workdir = workdir, rr_user = user, rr_route = rt\<rparr>))"

subsection \<open>Percentiles\<close>

definition div_ceil :: "nat \<Rightarrow> nat \<Rightarrow> nat" where
  "div_ceil a b = (a + b - 1) div b"

definition nearest_rank :: "nat list \<Rightarrow> nat \<Rightarrow> nat" where
  "nearest_rank xs p = xs ! (max (div_ceil (p * length xs) 100) 1 - 1)"

subsection \<open>Sizes read back\<close>

lemma unat_u32: "unat (n :: u32) < 2 ^ 32"
  using unsigned_less[of n] by simp

lemma parse_mem_plain:
  assumes "digits \<noteq> []" and "list_all is_ascii_digit digits"
  shows "parse_mem_mib (digits @ ''M'') =
      bindr (ok_or (NotAMemorySize (digits @ ''M'')) (parse_word digits :: u32 option)) (\<lambda>n.
        if MIN_MEM_MIB \<le> n \<and> n \<le> MAX_MEM_MIB then Inr n else Inl (MemoryOutOfRange (digits @ ''M'')))"
    and "parse_mem_mib (digits @ ''G'') =
      bindr (ok_or (NotAMemorySize (digits @ ''G'')) (parse_word digits :: u32 option)) (\<lambda>n.
        if unat n * 1024 < 2 ^ 32 \<and> MIN_MEM_MIB \<le> of_nat (unat n * 1024) \<and> of_nat (unat n * 1024) \<le> MAX_MEM_MIB
        then Inr (of_nat (unat n * 1024)) else Inl (MemoryOutOfRange (digits @ ''G'')))"
proof -
  have lower: "to_ascii_lowercase digits = digits"
    using assms(2) by (induction digits) (auto simp: to_ascii_lowercase_def ascii_lower_id char_class_defs char_le_iff)
  have suffix: "strip_suffix [c] (digits @ [d]) = (if c = d then Some digits else None)" for c d
    by (simp add: strip_suffix_def ends_with_def starts_with_def)
  have ib: "trim_end_str ''ib'' (digits @ [d]) = digits @ [d]" if "d \<noteq> CHR ''b''" for d
    using that by (subst trim_end_str.simps) (simp add: strip_suffix_def ends_with_def starts_with_def)
  have "to_ascii_lowercase (digits @ ''M'') = digits @ ''m''" "to_ascii_lowercase (digits @ ''G'') = digits @ ''g''"
  proof -
    have "ascii_lower CHR ''M'' = CHR ''m''" "ascii_lower CHR ''G'' = CHR ''g''" by code_simp+
    with lower show "to_ascii_lowercase (digits @ ''M'') = digits @ ''m''" "to_ascii_lowercase (digits @ ''G'') = digits @ ''g''"
      by (simp_all add: to_ascii_lowercase_def)
  qed
  then show "parse_mem_mib (digits @ ''M'') =
      bindr (ok_or (NotAMemorySize (digits @ ''M'')) (parse_word digits :: u32 option)) (\<lambda>n.
        if MIN_MEM_MIB \<le> n \<and> n \<le> MAX_MEM_MIB then Inr n else Inl (MemoryOutOfRange (digits @ ''M'')))"
    and "parse_mem_mib (digits @ ''G'') =
      bindr (ok_or (NotAMemorySize (digits @ ''G'')) (parse_word digits :: u32 option)) (\<lambda>n.
        if unat n * 1024 < 2 ^ 32 \<and> MIN_MEM_MIB \<le> of_nat (unat n * 1024) \<and> of_nat (unat n * 1024) \<le> MAX_MEM_MIB
        then Inr (of_nat (unat n * 1024)) else Inl (MemoryOutOfRange (digits @ ''G'')))"
    using unat_u32
    by (simp_all add: parse_mem_mib_def Let_def ib suffix trim_end_matches_id del: of_nat_mult cong: if_cong)
qed

lemma parsed_mem_in_bounds: "parse_mem_mib s = Inr k \<Longrightarrow> in_bounds ''mem_mib'' k MIN_MEM_MIB MAX_MEM_MIB = Inr ()"
  by (auto simp: parse_mem_mib_def in_bounds_def Let_def split: if_splits prod.split_asm option.split_asm)

text \<open>Every size of memory a VM may have reads back from what \<open>cirro\<close> shows for it, and \<open>cirro\<close> takes no size the
  agent would refuse.\<close>

theorem memory_size_reads_back:
  "(MIN_MEM_MIB \<le> n \<and> n \<le> MAX_MEM_MIB \<longrightarrow> parse_mem_mib (format_mem n) = Inr n) \<and>
   (parse_mem_mib s = Inr k \<longrightarrow> in_bounds ''mem_mib'' k MIN_MEM_MIB MAX_MEM_MIB = Inr ())"
proof -
  have "parse_mem_mib (format_mem n) = Inr n" if n: "MIN_MEM_MIB \<le> n" "n \<le> MAX_MEM_MIB"
  proof (cases "unat n mod 1024 = 0")
    case True
    then have g: "unat n div 1024 * 1024 = unat n" by (simp add: div_mult_mod_eq mult.commute flip: dvd_eq_mod_eq_0)
    have small: "unat n div 1024 < 2 ^ 32" using unat_u32[of n] by simp
    then have "(parse_word (decimal (unat n div 1024)) :: u32 option) = Some (of_nat (unat n div 1024))"
      by (simp add: parse_word_def)
    moreover have "unat (of_nat (unat n div 1024) :: u32) = unat n div 1024" using small by (simp add: unat_of_nat)
    ultimately show ?thesis
      using n True g unat_u32[of n] parse_mem_plain(2)[of "decimal (unat n div 1024)"]
      by (simp add: format_mem_def decimal_digits del: of_nat_mult)
  next
    case False
    have "(parse_word (decimal (unat n)) :: u32 option) = Some n"
      using parse_word_show_word[of n] by (simp add: show_word_def)
    with n False parse_mem_plain(1)[of "decimal (unat n)"] show ?thesis
      by (simp add: format_mem_def decimal_digits)
  qed
  then show ?thesis using parsed_mem_in_bounds[of s k] by blast
qed

theorem memory_size_reads_back_witness:
  "parse_mem_mib (format_mem 2048) = Inr 2048 \<and> parse_mem_mib (format_mem 1000) = Inr 1000"
  using memory_size_reads_back[of 2048] memory_size_reads_back[of 1000] by (simp add: bound_defs)

text \<open>A unit of bytes is taken for one of MiB.\<close>

lemma bytes_read_as_mib: "parse_mem_mib ''256b'' = Inr 256"
proof -
  have "to_ascii_lowercase ''256b'' = ''256b''" "trim_end_matches CHR ''b'' (trim_end_str ''ib'' ''256b'') = ''256''"
    "strip_suffix ''g'' ''256'' = None" "strip_suffix ''m'' ''256'' = None" "parse_uint ''256'' = Some 256"
    by code_simp+
  then show ?thesis by (simp add: parse_mem_mib_def parse_word_def bound_defs)
qed

lemma parsed_env_ok: "parse_env e = Inr e \<Longrightarrow> \<not> has_nul e \<Longrightarrow> env_entry_ok e"
  by (cases "split_once CHR ''='' e") (auto simp: env_entry_ok_def parse_env_def split: if_splits)


definition demo_guest :: cli_guest where
  "demo_guest = \<lparr>cg_command = [''sh''], cg_env = [''A=1''], cg_workdir = Some ''/w'', cg_user = None\<rparr>"


subsection \<open>Percentiles\<close>

text \<open>What \<open>nearest_rank\<close> stands for: the values no more than its result are at least \<open>p\<close> in a hundred of all of them,
  and the values below it are fewer.\<close>

lemma count_upto:
  assumes "sorted xs" and "k < length xs"
  shows "k < length (filter (\<lambda>x. x \<le> xs ! k) xs)" and "length (filter (\<lambda>x. x < xs ! k) xs) \<le> k"
proof -
  have "\<forall>x \<in> set (take (Suc k) xs). x \<le> xs ! k"
    using assms by (auto simp: in_set_conv_nth sorted_iff_nth_mono less_Suc_eq_le)
  then have "filter (\<lambda>x. x \<le> xs ! k) (take (Suc k) xs) = take (Suc k) xs" by (simp add: filter_id_conv)
  moreover have "length (filter (\<lambda>x. x \<le> xs ! k) xs) \<ge> length (filter (\<lambda>x. x \<le> xs ! k) (take (Suc k) xs))"
    by (metis append_take_drop_id filter_append le_add1 length_append)
  ultimately show "k < length (filter (\<lambda>x. x \<le> xs ! k) xs)" using assms(2) by simp
  have "\<forall>x \<in> set (drop k xs). \<not> x < xs ! k"
    using assms by (auto simp: in_set_conv_nth not_less sorted_iff_nth_mono)
  then have "filter (\<lambda>x. x < xs ! k) (drop k xs) = []" by (simp add: filter_empty_conv)
  then have "filter (\<lambda>x. x < xs ! k) xs = filter (\<lambda>x. x < xs ! k) (take k xs)"
    by (metis append_Nil2 append_take_drop_id filter_append)
  then show "length (filter (\<lambda>x. x < xs ! k) xs) \<le> k" by (metis length_filter_le length_take min.bounded_iff)
qed

lemma div_ceil_100: "0 < a \<Longrightarrow> a \<le> 100 * div_ceil a 100 \<and> 100 * (div_ceil a 100 - 1) < a \<and> 1 \<le> div_ceil a 100"
proof -
  assume "0 < a"
  define r where "r = (a + 99) div 100"
  have "a + 99 = 100 * r + (a + 99) mod 100" by (simp add: r_def)
  moreover have "(a + 99) mod 100 < 100" by simp
  ultimately have "a \<le> 100 * r" "100 * r \<le> a + 99" by linarith+
  with \<open>0 < a\<close> show ?thesis by (auto simp: div_ceil_def simp flip: r_def)
qed

lemma nearest_rank_covers:
  assumes "sorted xs" and "xs \<noteq> []" and "1 \<le> p" and "p \<le> 100"
  shows "p * length xs \<le> 100 * length (filter (\<lambda>x. x \<le> nearest_rank xs p) xs)"
    and "100 * length (filter (\<lambda>x. x < nearest_rank xs p) xs) < p * length xs"
proof -
  let ?n = "length xs" and ?r = "div_ceil (p * length xs) 100"
  have n: "0 < p * ?n" using assms(2,3) by simp
  then have r: "p * ?n \<le> 100 * ?r" "100 * (?r - 1) < p * ?n" "1 \<le> ?r" using div_ceil_100 by blast+
  have "p * ?n \<le> 100 * ?n" using assms(4) by simp
  then have k: "?r - 1 < ?n" using r by linarith
  have v: "nearest_rank xs p = xs ! (?r - 1)" using r(3) by (simp add: nearest_rank_def)
  note c = count_upto[OF assms(1) k]
  show "p * ?n \<le> 100 * length (filter (\<lambda>x. x \<le> nearest_rank xs p) xs)" unfolding v using c(1) r by linarith
  show "100 * length (filter (\<lambda>x. x < nearest_rank xs p) xs) < p * ?n" unfolding v using c(2) r by linarith
qed

end
