(* ===== verification/Metrics.thy ===== *)
theory Metrics
  imports
    Complex_Main
    Vm
    Service
begin

section \<open>Metrics\<close>

text \<open>
  What \<open>cirro top\<close> shows (\<open>metrics.rs\<close>): samples read from the kernel's files, the rates between two
  samples, the series of the last minute and the recorder that keeps one for the Node and one for each
  running VM. Instants and durations are in nanoseconds. The kernel's files are a parameter; a
  percentage is the exact quotient, where the code has the \<open>f64\<close> nearest to it.
\<close>

subsection \<open>Samples and rates\<close>

definition HISTORY :: nat where
  "HISTORY = 60"

record vm_sample =
  cpu_usec :: u64
  memory_bytes :: u64
  io_read_bytes :: u64
  io_write_bytes :: u64
  rx_bytes :: u64
  tx_bytes :: u64

record node_sample =
  cpu_busy_ticks :: u64
  cpu_total_ticks :: u64
  memory_total_bytes :: u64
  memory_available_bytes :: u64
  node_rx_bytes :: u64
  node_tx_bytes :: u64

record vm_rates =
  vr_cpu_percent :: rat
  vr_memory_bytes :: u64
  vr_io_read_per_sec :: u64
  vr_io_write_per_sec :: u64
  vr_rx_per_sec :: u64
  vr_tx_per_sec :: u64

record node_rates =
  nr_cpu_percent :: rat
  nr_memory_used_bytes :: u64
  nr_memory_total_bytes :: u64
  nr_rx_per_sec :: u64
  nr_tx_per_sec :: u64

definition saturating_sub :: "u64 \<Rightarrow> u64 \<Rightarrow> u64" where
  "saturating_sub a b = (if b \<le> a then a - b else 0)"

definition per_second :: "u64 \<Rightarrow> nat \<Rightarrow> u64" where
  "per_second delta elapsed =
     (let millis = max (elapsed div 1000000) 1; rate = unat delta * 1000 div millis
      in if rate < 2 ^ 64 then of_nat rate else - 1)"

definition vm_rates_since :: "vm_sample \<Rightarrow> vm_sample \<Rightarrow> nat \<Rightarrow> vm_rates" where
  "vm_rates_since self earlier elapsed =
     (let per_sec = (\<lambda>now before. per_second (saturating_sub now before) elapsed);
          usec = saturating_sub (cpu_usec self) (cpu_usec earlier);
          elapsed_usec = max (elapsed div 1000) 1
      in \<lparr>vr_cpu_percent = of_nat (unat usec) * 100 / of_nat elapsed_usec,
          vr_memory_bytes = memory_bytes self,
          vr_io_read_per_sec = per_sec (io_read_bytes self) (io_read_bytes earlier),
          vr_io_write_per_sec = per_sec (io_write_bytes self) (io_write_bytes earlier),
          vr_rx_per_sec = per_sec (rx_bytes self) (rx_bytes earlier),
          vr_tx_per_sec = per_sec (tx_bytes self) (tx_bytes earlier)\<rparr>)"

definition node_rates_since :: "node_sample \<Rightarrow> node_sample \<Rightarrow> nat \<Rightarrow> node_rates" where
  "node_rates_since self earlier elapsed =
     (let busy = saturating_sub (cpu_busy_ticks self) (cpu_busy_ticks earlier);
          total = saturating_sub (cpu_total_ticks self) (cpu_total_ticks earlier)
      in \<lparr>nr_cpu_percent = (if total = 0 then 0 else of_nat (unat busy) * 100 / of_nat (unat total)),
          nr_memory_used_bytes = saturating_sub (memory_total_bytes self) (memory_available_bytes self),
          nr_memory_total_bytes = memory_total_bytes self,
          nr_rx_per_sec = per_second (saturating_sub (node_rx_bytes self) (node_rx_bytes earlier)) elapsed,
          nr_tx_per_sec = per_second (saturating_sub (node_tx_bytes self) (node_tx_bytes earlier)) elapsed\<rparr>)"

subsection \<open>Series\<close>

text \<open>The trait \<open>Sample\<close> is the function \<open>rates_since\<close>, which the generic operations take.\<close>

record ('s, 'r) series =
  se_last :: "(nat \<times> 's) option"
  se_rates :: "'r list"

definition series_default :: "('s, 'r) series" where
  "series_default = \<lparr>se_last = None, se_rates = []\<rparr>"

definition series_record :: "('s \<Rightarrow> 's \<Rightarrow> nat \<Rightarrow> 'r) \<Rightarrow> nat \<Rightarrow> 's \<Rightarrow> ('s, 'r) series \<Rightarrow> ('s, 'r) series" where
  "series_record rates_since t sample se =
     (let se = (case se_last se of
                  None \<Rightarrow> se
                | Some (before, earlier) \<Rightarrow>
                    se\<lparr>se_rates := (if length (se_rates se) = HISTORY then tl (se_rates se) else se_rates se)
                                   @ [rates_since sample earlier (t - before)]\<rparr>)
      in se\<lparr>se_last := Some (t, sample)\<rparr>)"

definition latest :: "('s, 'r) series \<Rightarrow> 'r option" where
  "latest se = (if se_rates se = [] then None else Some (last (se_rates se)))"

subsection \<open>Reading the kernel's files\<close>

datatype io_error = NotFoundFile path | OtherIo path string | InvalidData string

record kernel_files =
  k_read :: "path \<Rightarrow> io_error + string"
  k_dir :: "path \<Rightarrow> io_error + (io_error + string) list"
  k_is_dir :: "path \<Rightarrow> bool"

definition number :: "string \<Rightarrow> io_error + u64" where
  "number text = ok_or (InvalidData text) (parse_word (trim text))"

definition stat_field :: "string \<Rightarrow> string \<Rightarrow> io_error + u64" where
  "stat_field text name =
     bindr (ok_or (InvalidData (''no '' @ name))
       (find_map (\<lambda>l. Option.bind (strip_prefix name l) (strip_prefix '' '')) (lines text))) number"

definition io_pair :: "string \<Rightarrow> u64 \<times> u64 \<Rightarrow> u64 \<times> u64" where
  "io_pair pair totals =
     (let val = (\<lambda>prefix. Option.bind (strip_prefix prefix pair) parse_word)
      in case val ''rbytes='' of
           Some n \<Rightarrow> (fst totals + n, snd totals)
         | None \<Rightarrow> (case val ''wbytes='' of
                      Some n \<Rightarrow> (fst totals, snd totals + n)
                    | None \<Rightarrow> totals))"

definition io_bytes :: "string \<Rightarrow> u64 \<times> u64" where
  "io_bytes text = fold io_pair (split_whitespace text) (0, 0)"

fun numbers :: "string list \<Rightarrow> io_error + u64 list" where
  "numbers [] = Inr []"
| "numbers (t # ts) = bindr (number t) (\<lambda>n. bindr (numbers ts) (\<lambda>ns. Inr (n # ns)))"

definition cpu_ticks :: "string \<Rightarrow> io_error + u64 \<times> u64" where
  "cpu_ticks stat =
     bindr (ok_or (InvalidData ''no cpu line in /proc/stat'') (find_map (strip_prefix ''cpu '') (lines stat))) (\<lambda>line.
     bindr (numbers (take 8 (split_whitespace line))) (\<lambda>ticks.
     case ticks of
       [user, nice, system, idle, iowait, irq, softirq, steal] \<Rightarrow>
         let busy = user + nice + system + irq + softirq + steal
         in Inr (busy, busy + idle + iowait)
     | _ \<Rightarrow> Inl (InvalidData ''a short cpu line in /proc/stat'')))"

definition kib :: "string \<Rightarrow> string \<Rightarrow> io_error + u64" where
  "kib meminfo name =
     ok_or (InvalidData (''no '' @ name @ '' in /proc/meminfo''))
       (Option.bind (find_map (\<lambda>l. Option.bind (strip_prefix name l) (strip_prefix '':'')) (lines meminfo)) (\<lambda>v.
        Option.bind (strip_suffix ''kB'' (trim v)) (\<lambda>v. parse_word (trim v))))"

definition net_dir :: "path \<Rightarrow> path" where
  "net_dir base = path_join base ''sys/class/net''"

definition statistics :: "path \<Rightarrow> string \<Rightarrow> path" where
  "statistics base name = path_join (path_join (net_dir base) name) ''statistics''"

fun interface_bytes :: "kernel_files \<Rightarrow> path \<Rightarrow> (io_error + string) list \<Rightarrow> u64 \<times> u64 \<Rightarrow> io_error + u64 \<times> u64" where
  "interface_bytes k base [] totals = Inr totals"
| "interface_bytes k base (entry # entries) totals =
     bindr entry (\<lambda>name.
     if name = ''lo'' \<or> parse_host_id name \<noteq> None then interface_bytes k base entries totals
     else if \<not> k_is_dir k (statistics base name) then interface_bytes k base entries totals
     else bindr (bindr (k_read k (path_join (statistics base name) ''rx_bytes'')) number) (\<lambda>rx.
          bindr (bindr (k_read k (path_join (statistics base name) ''tx_bytes'')) number) (\<lambda>tx.
          interface_bytes k base entries (fst totals + rx, snd totals + tx))))"

definition sampler_node :: "kernel_files \<Rightarrow> path \<Rightarrow> io_error + node_sample" where
  "sampler_node k base =
     bindr (k_read k (path_join base ''proc/stat'')) (\<lambda>stat.
     bindr (cpu_ticks stat) (\<lambda>(busy, total).
     bindr (k_read k (path_join base ''proc/meminfo'')) (\<lambda>meminfo.
     bindr (k_dir k (net_dir base)) (\<lambda>entries.
     bindr (interface_bytes k base entries (0, 0)) (\<lambda>(rx, tx).
     bindr (kib meminfo ''MemTotal'') (\<lambda>mem_total.
     bindr (kib meminfo ''MemAvailable'') (\<lambda>mem_available.
     Inr \<lparr>cpu_busy_ticks = busy, cpu_total_ticks = total,
          memory_total_bytes = mem_total * 1024, memory_available_bytes = mem_available * 1024,
          node_rx_bytes = rx, node_tx_bytes = tx\<rparr>)))))))"

definition sampler_vm :: "kernel_files \<Rightarrow> path \<Rightarrow> string \<Rightarrow> io_error + vm_sample" where
  "sampler_vm k base vid =
     (let cgroup = path_join (path_join (path_join base ''sys/fs/cgroup'') PARENT_CGROUP) vid
      in bindr (bindr (k_read k (path_join cgroup ''cpu.stat'')) (\<lambda>t. stat_field t ''usage_usec'')) (\<lambda>usec.
         bindr (bindr (k_read k (path_join cgroup ''memory.current'')) number) (\<lambda>memory.
         bindr (case k_read k (path_join cgroup ''io.stat'') of
                  Inr text \<Rightarrow> Inr (io_bytes text)
                | Inl (NotFoundFile _) \<Rightarrow> Inr (0, 0)
                | Inl e \<Rightarrow> Inl e) (\<lambda>(io_read, io_write).
         bindr (bindr (k_read k (path_join (statistics base vid) ''tx_bytes'')) number) (\<lambda>rx.
         bindr (bindr (k_read k (path_join (statistics base vid) ''rx_bytes'')) number) (\<lambda>tx.
         Inr \<lparr>cpu_usec = usec, memory_bytes = memory, io_read_bytes = io_read, io_write_bytes = io_write,
              rx_bytes = rx, tx_bytes = tx\<rparr>))))))"

subsection \<open>The recorder\<close>

record running_vm =
  rv_name :: string
  rv_id :: string

record readings =
  rd_node :: "node_sample option"
  rd_vms :: "(string \<times> vm_sample option) list"

definition ok :: "'e + 'a \<Rightarrow> 'a option" where
  "ok r = (case r of Inl _ \<Rightarrow> None | Inr x \<Rightarrow> Some x)"

definition sampler_read :: "kernel_files \<Rightarrow> path \<Rightarrow> running_vm list \<Rightarrow> readings" where
  "sampler_read k base vms =
     \<lparr>rd_node = ok (sampler_node k base), rd_vms = map (\<lambda>vm. (rv_name vm, ok (sampler_vm k base (rv_id vm)))) vms\<rparr>"

record recorder =
  rc_node :: "(node_sample, node_rates) series"
  rc_vms :: "string \<rightharpoonup> (vm_sample, vm_rates) series"

definition recorder_default :: recorder where
  "recorder_default = \<lparr>rc_node = series_default, rc_vms = Map.empty\<rparr>"

definition record_vm :: "nat \<Rightarrow> string \<times> vm_sample option \<Rightarrow> (string \<rightharpoonup> (vm_sample, vm_rates) series) \<Rightarrow>
    string \<rightharpoonup> (vm_sample, vm_rates) series" where
  "record_vm t reading vms =
     (case snd reading of
        None \<Rightarrow> vms
      | Some sample \<Rightarrow>
          vms(fst reading \<mapsto>
            series_record vm_rates_since t sample
              (case vms (fst reading) of None \<Rightarrow> series_default | Some se \<Rightarrow> se)))"

definition recorder_record :: "nat \<Rightarrow> readings \<Rightarrow> recorder \<Rightarrow> recorder" where
  "recorder_record t rd rc =
     (let rc = (case rd_node rd of
                  None \<Rightarrow> rc
                | Some sample \<Rightarrow> rc\<lparr>rc_node := series_record node_rates_since t sample (rc_node rc)\<rparr>)
      in rc\<lparr>rc_vms := fold (record_vm t) (rd_vms rd) (rc_vms rc |` (fst ` set (rd_vms rd)))\<rparr>)"

definition recorder_node :: "recorder \<Rightarrow> node_rates list" where
  "recorder_node rc = se_rates (rc_node rc)"

definition recorder_vm :: "recorder \<Rightarrow> string \<Rightarrow> vm_rates list" where
  "recorder_vm rc name = (case rc_vms rc name of Some se \<Rightarrow> se_rates se | None \<Rightarrow> [])"

text \<open>The agent's task that samples every second, and what it answers \<open>GET /stats\<close> with.\<close>

definition running_vms :: "agent \<Rightarrow> running_vm list" where
  "running_vms ag =
     List.map_filter
       (\<lambda>info. map_option (\<lambda>a. \<lparr>rv_name = vi_name info, rv_id = host_id a\<rparr>) (vi_vm_address info))
       (list_vms False ag)"

definition sample :: "kernel_files \<Rightarrow> path \<Rightarrow> nat \<Rightarrow> agent \<Rightarrow> recorder \<Rightarrow> recorder" where
  "sample k base t ag rc = recorder_record t (sampler_read k base (running_vms ag)) rc"

record vm_stats =
  vst_info :: vm_info
  vst_history :: "vm_rates list"

record stats =
  st_now :: u64
  st_node :: "node_rates list"
  st_vms :: "vm_stats list"

definition stats_of :: "u64 \<Rightarrow> agent \<Rightarrow> recorder \<Rightarrow> stats" where
  "stats_of now ag rc =
     \<lparr>st_now = now, st_node = recorder_node rc,
      st_vms = map (\<lambda>info. \<lparr>vst_info = info, vst_history = recorder_vm rc (vi_name info)\<rparr>) (list_vms False ag)\<rparr>"

subsection \<open>Reading counters back\<close>

lemma lines_line:
  assumes "CHR 0x0A \<notin> set l" and "CHR 0x0D \<notin> set l"
  shows "lines (l @ CHR 0x0A # rest) = l # lines rest"
proof -
  have "strip_suffix [CHR 0x0D] l = None"
    using assms(2) by (cases l rule: rev_cases) (auto simp: strip_suffix_def ends_with_def starts_with_def)
  then show ?thesis
    using split_on_append[OF assms(1)] by (simp add: lines_def Let_def)
qed

lemma number_line: "number (show_word n @ [CHR 0x0A]) = Inr n"
proof -
  have "trim (s @ [CHR 0x0A]) = s" if "no_blank s" for s
    using trim_no_blank[OF that] that by (cases s) (auto simp: trim_def is_whitespace_def no_blank_def)
  moreover have "no_blank (show_word n)" by (simp add: show_word_def)
  ultimately show ?thesis by (simp add: number_def)
qed

lemma stat_field_first:
  assumes "CHR 0x0A \<notin> set name" and "CHR 0x0D \<notin> set name"
  shows "stat_field (name @ '' '' @ show_word n @ CHR 0x0A # rest) name = Inr n"
proof -
  have "lines ((name @ '' '' @ show_word n) @ CHR 0x0A # rest) = (name @ '' '' @ show_word n) # lines rest"
    by (rule lines_line) (use assms in \<open>simp_all add: show_word_def is_ascii_digit_def char_le_iff\<close>)
  moreover have "no_blank (show_word n)" by (simp add: show_word_def)
  ultimately show ?thesis
    using strip_prefix_append[of "'' ''" "show_word n"] by (simp add: stat_field_def number_def)
qed

text \<open>The host side of a veth receives what the VM sends: its two counters are exchanged.\<close>

lemma vm_counters_read_back:
  fixes base vid
  defines "cgroup \<equiv> path_join (path_join (path_join base ''sys/fs/cgroup'') PARENT_CGROUP) vid"
  assumes "k_read k (path_join cgroup ''cpu.stat'') = Inr (''usage_usec '' @ show_word u @ CHR 0x0A # rest)"
    and "k_read k (path_join cgroup ''memory.current'') = Inr (show_word m @ [CHR 0x0A])"
    and "k_read k (path_join cgroup ''io.stat'') = Inl (NotFoundFile p)"
    and "k_read k (path_join (statistics base vid) ''tx_bytes'') = Inr (show_word sent @ [CHR 0x0A])"
    and "k_read k (path_join (statistics base vid) ''rx_bytes'') = Inr (show_word received @ [CHR 0x0A])"
  shows "sampler_vm k base vid =
    Inr \<lparr>cpu_usec = u, memory_bytes = m, io_read_bytes = 0, io_write_bytes = 0, rx_bytes = sent, tx_bytes = received\<rparr>"
  using assms(2-) stat_field_first[of "''usage_usec''" u rest]
  by (simp add: sampler_vm_def number_line Let_def flip: cgroup_def)

subsection \<open>The last minute\<close>

text \<open>
  What a series should hold, with no queue: the rates between consecutive samples, the last \<open>HISTORY\<close>
  of them. For a VM the samples are those of the rounds since it was last not running.
\<close>

definition last_n :: "nat \<Rightarrow> 'a list \<Rightarrow> 'a list" where
  "last_n n xs = drop (length xs - n) xs"

definition rates_between :: "('s \<Rightarrow> 's \<Rightarrow> nat \<Rightarrow> 'r) \<Rightarrow> (nat \<times> 's) list \<Rightarrow> 'r list" where
  "rates_between rates_since xs = map2 (\<lambda>a b. rates_since (snd b) (snd a) (fst b - fst a)) xs (tl xs)"

lemma length_last_n: "length (last_n n xs) = min n (length xs)"
  by (simp add: last_n_def)

lemma last_n_snoc:
  "0 < n \<Longrightarrow> last_n n (xs @ [x]) = (if length (last_n n xs) = n then tl (last_n n xs) else last_n n xs) @ [x]"
  by (auto simp: last_n_def Suc_diff_le drop_Suc tl_drop min_def not_le)

lemma rates_between_snoc:
  "rates_between f (xs @ [x]) =
     rates_between f xs @ (if xs = [] then [] else [f (snd x) (snd (last xs)) (fst x - fst (last xs))])"
proof (induction xs rule: induct_list012)
  case (3 a b xs)
  then show ?case by (simp add: rates_between_def)
qed (simp_all add: rates_between_def)

lemma series_record_fold:
  "fold (\<lambda>x. series_record f (fst x) (snd x)) xs series_default =
     \<lparr>se_last = (if xs = [] then None else Some (last xs)), se_rates = last_n HISTORY (rates_between f xs)\<rparr>"
proof (induction xs rule: rev_induct)
  case (snoc x xs)
  have h: "0 < HISTORY" by (simp add: HISTORY_def)
  show ?case
  proof (cases "xs = []")
    case True
    then show ?thesis by (simp add: series_record_def series_default_def rates_between_def last_n_def)
  next
    case False
    with snoc show ?thesis by (simp add: series_record_def rates_between_snoc last_n_snoc[OF h] Let_def split: prod.split)
  qed
qed (simp add: series_default_def rates_between_def last_n_def)

lemma record_vm_fold:
  "distinct (map fst rs) \<Longrightarrow>
     fold (record_vm t) rs vms name =
       (case map_of rs name of
          Some (Some x) \<Rightarrow>
            Some (series_record vm_rates_since t x (case vms name of None \<Rightarrow> series_default | Some se \<Rightarrow> se))
        | _ \<Rightarrow> vms name)"
proof (induction rs arbitrary: vms)
  case (Cons r rs)
  then have "map_of rs (fst r) = None" by (simp add: map_of_eq_None_iff)
  with Cons show ?case
    by (cases r) (auto simp: record_vm_def split: option.splits)
qed simp

definition running_in :: "string \<Rightarrow> agent \<Rightarrow> bool" where
  "running_in name ag \<longleftrightarrow> (case map_of (ag_vms ag) name of Some (Running _ _ _) \<Rightarrow> True | _ \<Rightarrow> False)"

definition vm_sample_of :: "kernel_files \<Rightarrow> path \<Rightarrow> string \<Rightarrow> agent \<Rightarrow> vm_sample option" where
  "vm_sample_of k base name ag =
     (case map_of (ag_vms ag) name of
        Some (Running info _ _) \<Rightarrow> Option.bind (vi_vm_address info) (\<lambda>a. ok (sampler_vm k base (host_id a)))
      | _ \<Rightarrow> None)"

type_synonym rounds = "(nat \<times> kernel_files \<times> agent) list"

definition vm_samples :: "path \<Rightarrow> string \<Rightarrow> rounds \<Rightarrow> (nat \<times> vm_sample) list" where
  "vm_samples base name rounds =
     List.map_filter (\<lambda>(t, k, ag). map_option (Pair t) (vm_sample_of k base name ag))
       (rev (takeWhile (\<lambda>(_, _, ag). running_in name ag) (rev rounds)))"

definition sampled :: "path \<Rightarrow> rounds \<Rightarrow> recorder" where
  "sampled base rounds = fold (\<lambda>(t, k, ag). sample k base t ag) rounds recorder_default"

lemma vm_samples_snoc:
  "vm_samples base name (rounds @ [(t, k, ag)]) =
     (if running_in name ag
      then vm_samples base name rounds @ (case vm_sample_of k base name ag of None \<Rightarrow> [] | Some x \<Rightarrow> [(t, x)])
      else [])"
  by (auto simp: vm_samples_def List.map_filter_def split: option.splits)

text \<open>One round reads exactly the running VMs, each once, under its own name.\<close>

fun reading_of :: "kernel_files \<Rightarrow> path \<Rightarrow> string \<times> entry \<Rightarrow> (string \<times> vm_sample option) option" where
  "reading_of k base (n, Running info _ _) =
     Some (n, Option.bind (vi_vm_address info) (\<lambda>a. ok (sampler_vm k base (host_id a))))"
| "reading_of k base _ = None"

lemma readings_of_entries:
  assumes "\<forall>e \<in> set xs. entry_ok (fst e) (snd e)"
  shows "rd_vms (sampler_read k base (running_vms (ag\<lparr>ag_vms := xs\<rparr>))) = List.map_filter (reading_of k base) xs"
  using assms
proof (induction xs)
  case (Cons e xs)
  then show ?case
    by (cases "snd e"; cases e)
      (auto simp: sampler_read_def running_vms_def list_vms_def List.map_filter_simps split: option.splits)
qed (simp add: sampler_read_def running_vms_def list_vms_def List.map_filter_simps)

lemma entry_readings:
  assumes "distinct (map fst xs)"
  shows "distinct (map fst (List.map_filter (reading_of k base) xs))"
    and "map_of (List.map_filter (reading_of k base) xs) name =
      (case map_of xs name of None \<Rightarrow> None | Some e \<Rightarrow> map_option snd (reading_of k base (name, e)))"
proof -
  have sub: "fst ` set (List.map_filter (reading_of k base) ys) \<subseteq> fst ` set ys" for ys
  proof
    fix n assume "n \<in> fst ` set (List.map_filter (reading_of k base) ys)"
    then obtain e y where e: "e \<in> set ys" "reading_of k base e = Some y" "n = fst y" by (auto simp: set_map_filter)
    have "n = fst e" using e(2,3) by (cases "(k, base, e)" rule: reading_of.cases) auto
    with e(1) show "n \<in> fst ` set ys" by simp
  qed
  show "distinct (map fst (List.map_filter (reading_of k base) xs))"
    using assms
  proof (induction xs)
    case (Cons e xs)
    then have "fst e \<notin> fst ` set (List.map_filter (reading_of k base) xs)" using sub[of xs] by (simp, blast)
    with Cons show ?case by (cases e; cases "snd e") (simp_all add: List.map_filter_simps)
  qed (simp add: List.map_filter_simps)
  show "map_of (List.map_filter (reading_of k base) xs) name =
      (case map_of xs name of None \<Rightarrow> None | Some e \<Rightarrow> map_option snd (reading_of k base (name, e)))"
    using assms
  proof (induction xs)
    case (Cons e xs)
    then have "map_of xs (fst e) = None" by (simp add: map_of_eq_None_iff)
    with Cons show ?case
      by (cases e; cases "snd e"; cases "fst e = name") (simp_all add: List.map_filter_simps)
  qed (simp add: List.map_filter_simps)
qed

lemma running_vms_reads:
  assumes "agent_reg ag"
  shows "distinct (map fst (rd_vms (sampler_read k base (running_vms ag))))"
    and "map_of (rd_vms (sampler_read k base (running_vms ag))) name =
      (if running_in name ag then Some (vm_sample_of k base name ag) else None)"
    and "fst ` set (rd_vms (sampler_read k base (running_vms ag))) = {n. running_in n ag}"
proof -
  note reg = reg_okD[OF assms[unfolded agent_reg_def]]
  have d: "distinct (map fst (ag_vms ag))" using reg(1) by (simp add: bm.distinct_keys)
  have "\<forall>e \<in> set (ag_vms ag). entry_ok (fst e) (snd e)" using reg(3) d by (auto intro: map_of_is_SomeI)
  from readings_of_entries[OF this, of k base ag]
  have rd: "rd_vms (sampler_read k base (running_vms ag)) = List.map_filter (reading_of k base) (ag_vms ag)" by simp
  show "distinct (map fst (rd_vms (sampler_read k base (running_vms ag))))"
    by (simp add: rd entry_readings(1)[OF d])
  have m: "map_of (rd_vms (sampler_read k base (running_vms ag))) n =
      (if running_in n ag then Some (vm_sample_of k base n ag) else None)" for n
    by (simp add: rd entry_readings(2)[OF d] running_in_def vm_sample_of_def split: option.splits entry.splits)
  then show "map_of (rd_vms (sampler_read k base (running_vms ag))) name =
      (if running_in name ag then Some (vm_sample_of k base name ag) else None)" .
  have "n \<in> fst ` set (rd_vms (sampler_read k base (running_vms ag))) \<longleftrightarrow> running_in n ag" for n
    using m[of n] map_of_eq_None_iff[of "rd_vms (sampler_read k base (running_vms ag))" n]
    by (cases "running_in n ag") simp_all
  then show "fst ` set (rd_vms (sampler_read k base (running_vms ag))) = {n. running_in n ag}" by blast
qed

lemma sampled_vm:
  assumes "\<forall>(t, k, ag) \<in> set rounds. agent_reg ag"
  shows "rc_vms (sampled base rounds) name =
    (if vm_samples base name rounds = [] then None
     else Some (fold (\<lambda>x. series_record vm_rates_since (fst x) (snd x)) (vm_samples base name rounds) series_default))"
  using assms
proof (induction rounds rule: rev_induct)
  case Nil
  then show ?case by (simp add: sampled_def recorder_default_def vm_samples_def List.map_filter_def)
next
  case (snoc r rounds)
  obtain t k ag where r: "r = (t, k, ag)" by (cases r)
  have reg: "agent_reg ag" using snoc.prems by (simp add: r)
  note rd = running_vms_reads[OF reg, of k base]
  have "rc_vms (sampled base (rounds @ [r])) name =
      fold (record_vm t) (rd_vms (sampler_read k base (running_vms ag))) (rc_vms (sampled base rounds) |` {n. running_in n ag}) name"
    by (simp add: sampled_def r sample_def recorder_record_def rd(3) Let_def split: option.split)
  with snoc show ?case
    by (auto simp: record_vm_fold[OF rd(1)] rd(2) r vm_samples_snoc restrict_map_def split: option.splits)
qed

definition node_samples :: "path \<Rightarrow> rounds \<Rightarrow> (nat \<times> node_sample) list" where
  "node_samples base rounds = List.map_filter (\<lambda>(t, k, ag). map_option (Pair t) (ok (sampler_node k base))) rounds"

lemma sampled_node:
  "rc_node (sampled base rounds) =
     fold (\<lambda>x. series_record node_rates_since (fst x) (snd x)) (node_samples base rounds) series_default"
proof (induction rounds rule: rev_induct)
  case (snoc r rounds)
  then show ?case
    by (cases r)
      (auto simp: sampled_def sample_def recorder_record_def sampler_read_def node_samples_def List.map_filter_def Let_def
        split: option.splits)
qed (simp add: sampled_def recorder_default_def node_samples_def List.map_filter_def)

text \<open>C23: whatever VMs start, end and are replaced between the rounds of sampling, what \<open>GET /stats\<close> shows is the last
  minute exactly: for the Node the last sixty rates between consecutive samples, and for a VM the last sixty between
  its consecutive samples since the last round at which it was not running, a round whose counters could not be
  read being left out. A VM that does not run shows nothing.\<close>

theorem stats_show_last_minute:
  assumes "\<forall>(t, k, ag) \<in> set rounds. reachable ag"
  shows "recorder_vm (sampled base rounds) name = last_n HISTORY (rates_between vm_rates_since (vm_samples base name rounds)) \<and>
    recorder_node (sampled base rounds) = last_n HISTORY (rates_between node_rates_since (node_samples base rounds)) \<and>
    length (recorder_vm (sampled base rounds) name) \<le> 60"
proof -
  have "\<forall>(t, k, ag) \<in> set rounds. agent_reg ag" using assms reachableD(2) by fastforce
  from sampled_vm[OF this, of base name]
  have "recorder_vm (sampled base rounds) name = last_n HISTORY (rates_between vm_rates_since (vm_samples base name rounds))"
    by (simp add: recorder_vm_def series_record_fold rates_between_def last_n_def)
  moreover have "recorder_node (sampled base rounds) = last_n HISTORY (rates_between node_rates_since (node_samples base rounds))"
    by (simp add: recorder_node_def sampled_node series_record_fold)
  ultimately show ?thesis by (simp add: length_last_n HISTORY_def)
qed

definition demo_counters :: "u64 \<Rightarrow> kernel_files" where
  "demo_counters n =
     \<lparr>k_read = (\<lambda>p. if ends_with ''pu.stat'' p then Inr (''usage_usec '' @ show_word n @ [CHR 0x0A])
                   else if ends_with ''io.stat'' p then Inl (NotFoundFile p)
                   else Inr (show_word n @ [CHR 0x0A])),
      k_dir = (\<lambda>_. Inr []), k_is_dir = (\<lambda>_. False)\<rparr>"

lemma ends_with_path_join:
  assumes "hd q \<noteq> CHR ''/''" and "q \<noteq> []" and "length s \<le> length q"
  shows "ends_with s (path_join p q) = ends_with s q"
proof -
  have "\<exists>x. path_join p q = x @ q"
    using assms(1,2) by (cases q) (auto simp: path_join_def starts_with_def)
  then show ?thesis using assms(3) by (auto simp: ends_with_def starts_with_def)
qed

lemma demo_counters_vm:
  "sampler_vm (demo_counters n) base vid =
     Inr \<lparr>cpu_usec = n, memory_bytes = n, io_read_bytes = 0, io_write_bytes = 0, rx_bytes = n, tx_bytes = n\<rparr>"
  by (rule vm_counters_read_back[where rest = "[]"])
    (simp_all add: demo_counters_def ends_with_path_join ends_with_def[of _ "_ # _"] starts_with_def)

theorem stats_show_last_minute_witness:
  "length (recorder_vm (sampled ''/'' [(0, demo_counters 3, demo_running), (1, demo_counters 4, demo_running)]) ''a'') = 1"
proof -
  have e: "running_in ''a'' demo_running \<and> (case map_of (ag_vms demo_running) ''a'' of
      Some (Running info _ _) \<Rightarrow> vi_vm_address info \<noteq> None | _ \<Rightarrow> False)" by code_simp
  have x: "\<exists>x. vm_sample_of (demo_counters n) ''/'' ''a'' demo_running = Some x" for n
    using e by (auto simp: vm_sample_of_def demo_counters_vm ok_def split: option.splits entry.splits)
  obtain x y where xy: "vm_sample_of (demo_counters 3) ''/'' ''a'' demo_running = Some x"
    "vm_sample_of (demo_counters 4) ''/'' ''a'' demo_running = Some y" using x by blast
  have "vm_samples ''/'' ''a'' [(0, demo_counters 3, demo_running), (1, demo_counters 4, demo_running)] = [(0, x), (1, y)]"
    using e xy by (simp add: vm_samples_def List.map_filter_simps)
  then show ?thesis
    using stats_show_last_minute[of "[(0, demo_counters 3, demo_running), (1, demo_counters 4, demo_running)]" "''/''" "''a''"]
      reachable_demo_running
    by (simp add: length_last_n HISTORY_def rates_between_def)
qed

subsection \<open>What is counted\<close>

lemma interface_bytes_append:
  "interface_bytes k base (xs @ ys) totals = bindr (interface_bytes k base xs totals) (interface_bytes k base ys)"
proof (induction xs arbitrary: totals)
  case (Cons x xs)
  then show ?case
    by (cases x) (simp_all add: bindr_def split: sum.split)
qed simp

text \<open>The Node's traffic is that of its own interfaces: whether a VM's interface is there, and what its counters
  say, changes nothing in what the Node's sample counts.\<close>

theorem node_traffic_excludes_vms:
  assumes "k_dir k (net_dir base) = Inr (xs @ Inr (host_id a) # ys)"
  shows "sampler_node k base = sampler_node (k\<lparr>k_dir := (k_dir k)(net_dir base := Inr (xs @ ys))\<rparr>) base"
proof -
  let ?k = "k\<lparr>k_dir := (k_dir k)(net_dir base := Inr (xs @ ys))\<rparr>"
  have k: "interface_bytes ?k base es tot = interface_bytes k base es tot" for es tot
    by (induction k base es tot rule: interface_bytes.induct) (auto simp: bindr_def split: sum.splits)
  have "interface_bytes k base (xs @ Inr (host_id a) # ys) tot = interface_bytes k base (xs @ ys) tot" for tot
  proof -
    have "interface_bytes k base (Inr (host_id a) # ys) = interface_bytes k base ys" by (rule ext) simp
    then show ?thesis by (simp add: interface_bytes_append)
  qed
  then show ?thesis by (simp add: sampler_node_def assms k)
qed

definition demo_interfaces :: "(io_error + string) list \<Rightarrow> kernel_files" where
  "demo_interfaces names = (demo_counters 0)\<lparr>k_dir := (\<lambda>_. Inr names)\<rparr>"

theorem node_traffic_excludes_vms_witness:
  "sampler_node (demo_interfaces [Inr ''eth0'', Inr (host_id 0x0A4DFA02)]) ''/'' =
   sampler_node ((demo_interfaces [Inr ''eth0'', Inr (host_id 0x0A4DFA02)])
     \<lparr>k_dir := (k_dir (demo_interfaces [Inr ''eth0'', Inr (host_id 0x0A4DFA02)]))(net_dir ''/'' := Inr [Inr ''eth0''])\<rparr>) ''/''"
  using node_traffic_excludes_vms[of "demo_interfaces [Inr ''eth0'', Inr (host_id 0x0A4DFA02)]" "''/''" "[Inr ''eth0'']" _ "[]"]
  by (simp add: demo_interfaces_def)

subsection \<open>Bounds\<close>

lemma per_second_exact: "unat (per_second delta elapsed) = min (unat delta * 1000 div max (elapsed div 1000000) 1) (2 ^ 64 - 1)"
proof (cases "unat delta * 1000 div max (elapsed div 1000000) 1 < 2 ^ 64")
  case True
  then show ?thesis by (simp add: per_second_def Let_def unat_of_nat)
next
  case False
  moreover have "unat (- 1 :: u64) = 2 ^ 64 - 1" by (simp add: unsigned_minus_1_eq_mask mask_eq_exp_minus_1)
  ultimately show ?thesis by (simp add: per_second_def Let_def)
qed

lemma percent_le: "(b :: nat) \<le> t \<Longrightarrow> of_nat b * 100 / of_nat t \<le> (100 :: rat)"
  by (cases "t = 0") (simp_all add: divide_le_eq)

lemma percent_nonneg: "0 \<le> of_nat (b :: nat) * 100 / (of_nat t :: rat)"
  by simp

lemma unat_saturating_sub: "unat (saturating_sub a b) = unat a - unat b"
  by (simp add: saturating_sub_def unat_sub word_le_nat_alt)


definition demo_node_sample :: "u64 \<Rightarrow> u64 \<Rightarrow> u64 \<Rightarrow> node_sample" where
  "demo_node_sample busy idle rx =
     \<lparr>cpu_busy_ticks = busy, cpu_total_ticks = busy + idle, memory_total_bytes = 8, memory_available_bytes = 3,
      node_rx_bytes = rx, node_tx_bytes = 0\<rparr>"


end
