(* ===== verification/Dashboard.thy ===== *)
theory Dashboard
  imports
    Metrics
    "HOL-Library.Multiset"
begin

section \<open>The dashboard\<close>

text \<open>
  \<open>cirro-tui\<close>'s \<open>dashboard.rs\<close>: what \<open>cirro top\<close> has selected and asks of the CLI as statistics arrive and keys are
  pressed. Drawing is left out. The lemmas say that the table has the Node's VMs in the order asked for, that as
  long as a VM runs one of the table's rows is selected, and that a VM is stopped only after it was asked for by
  name and confirmed by the very next key.
\<close>

subsection \<open>State and keys\<close>

datatype action = No_action | Quit | Show_log string | Stop_it string

datatype sort_by = By_cpu | By_memory | By_name

fun next_sort :: "sort_by \<Rightarrow> sort_by" where
  "next_sort By_cpu = By_memory"
| "next_sort By_memory = By_name"
| "next_sort By_name = By_cpu"

record dashboard =
  db_now :: u64
  db_node :: "node_rates list"
  db_vms :: "vm_stats list"
  db_machine_apps :: "machine_app_info list"
  db_selected :: "string option"
  db_sort :: sort_by
  db_log :: "(string \<times> string) option"
  db_confirming_stop :: "string option"
  db_status :: "string option"

definition dashboard_default :: dashboard where
  "dashboard_default =
     \<lparr>db_now = 0, db_node = [], db_vms = [], db_machine_apps = [], db_selected = None, db_sort = By_cpu, db_log = None,
      db_confirming_stop = None, db_status = None\<rparr>"

abbreviation vm_name :: "vm_stats \<Rightarrow> string" where
  "vm_name vm \<equiv> vi_name (vst_info vm)"

definition latest_cpu :: "vm_stats \<Rightarrow> rat" where
  "latest_cpu vm = (if vst_history vm = [] then 0 else vr_cpu_percent (last (vst_history vm)))"

definition latest_memory :: "vm_stats \<Rightarrow> u64" where
  "latest_memory vm = (if vst_history vm = [] then 0 else vr_memory_bytes (last (vst_history vm)))"

definition sorted_vms :: "sort_by \<Rightarrow> vm_stats list \<Rightarrow> vm_stats list" where
  "sorted_vms col vms =
     (case col of
        By_cpu \<Rightarrow> sort_key (\<lambda>vm. - latest_cpu vm) vms
      | By_memory \<Rightarrow> sort_key (\<lambda>vm. - uint (latest_memory vm)) vms
      | By_name \<Rightarrow> sort_key vm_name vms)"

definition sort_vms :: "dashboard \<Rightarrow> dashboard" where
  "sort_vms d = d\<lparr>db_vms := sorted_vms (db_sort d) (db_vms d)\<rparr>"

fun position :: "('a \<Rightarrow> bool) \<Rightarrow> 'a list \<Rightarrow> nat option" where
  "position P [] = None"
| "position P (x # xs) = (if P x then Some 0 else map_option Suc (position P xs))"

definition selected_row :: "dashboard \<Rightarrow> nat option" where
  "selected_row d = Option.bind (db_selected d) (\<lambda>name. position (\<lambda>vm. vm_name vm = name) (db_vms d))"

definition selected_name :: "dashboard \<Rightarrow> string option" where
  "selected_name d = map_option (\<lambda>row. vm_name (db_vms d ! row)) (selected_row d)"

definition set_stats :: "stats \<Rightarrow> dashboard \<Rightarrow> dashboard" where
  "set_stats s d =
     (let d = sort_vms (d\<lparr>db_now := st_now s, db_node := st_node s, db_vms := st_vms s\<rparr>)
      in if selected_row d = None
         then d\<lparr>db_selected := (case db_vms d of [] \<Rightarrow> None | vm # _ \<Rightarrow> Some (vm_name vm))\<rparr>
         else d)"

definition move_selection :: "bool \<Rightarrow> dashboard \<Rightarrow> dashboard" where
  "move_selection down d =
     (if db_vms d = [] then d
      else let row = (case selected_row d of Some r \<Rightarrow> r | None \<Rightarrow> 0);
               row = min (if down then row + 1 else row - 1) (length (db_vms d) - 1)
           in d\<lparr>db_selected := Some (vm_name (db_vms d ! row))\<rparr>)"

datatype key_code = Char_key char | Esc | Down | Up | Tab | Other_key

definition press :: "key_code \<Rightarrow> dashboard \<Rightarrow> action \<times> dashboard" where
  "press k d =
     (let d = d\<lparr>db_status := None\<rparr>
      in case db_confirming_stop d of
           Some name \<Rightarrow> (if k = Char_key CHR ''y'' then Stop_it name else No_action, d\<lparr>db_confirming_stop := None\<rparr>)
         | None \<Rightarrow>
             if k = Char_key CHR ''q'' \<or> k = Esc then (Quit, d)
             else if k = Char_key CHR ''l'' then
               (case (db_log d, selected_name d) of
                  (Some (shown, _), Some name) \<Rightarrow>
                    if shown = name then (No_action, d\<lparr>db_log := None\<rparr>) else (Show_log name, d)
                | (None, Some name) \<Rightarrow> (Show_log name, d)
                | (_, None) \<Rightarrow> (No_action, d))
             else if k = Char_key CHR ''k'' then (No_action, d\<lparr>db_confirming_stop := selected_name d\<rparr>)
             else if k \<in> {Char_key CHR ''s'', Char_key CHR ''p'', Char_key CHR ''w''} then
               (No_action, d\<lparr>db_status := Some ''shell, park and wake are not yet implemented''\<rparr>)
             else if k = Down then (No_action, move_selection True d)
             else if k = Up then (No_action, move_selection False d)
             else if k = Tab then (No_action, sort_vms (d\<lparr>db_sort := next_sort (db_sort d)\<rparr>))
             else (No_action, d))"

subsection \<open>The loop of cirro top\<close>

text \<open>
  What one turn of \<open>top_loop\<close> meets: the agent's answers if a refresh is due, the stops that have finished since,
  whether drawing works, the key pressed before the next refresh, and the agent's answer to a request for a log.
\<close>

record turn =
  tn_refreshed :: "(string + stats option \<times> machine_app_info list option) option"
  tn_stopped :: "(string \<times> (string + unit)) list"
  tn_drawn :: "string + unit"
  tn_key :: "string + key_code option"
  tn_log :: "string \<Rightarrow> string + string"

record top =
  tp_dashboard :: dashboard
  tp_refresh_failed :: bool
  tp_stops :: "string list"

definition top_default :: top where
  "top_default = \<lparr>tp_dashboard = dashboard_default, tp_refresh_failed = False, tp_stops = []\<rparr>"

definition default_stats :: stats where
  "default_stats = \<lparr>st_now = 0, st_node = [], st_vms = []\<rparr>"

definition set_status :: "string \<Rightarrow> dashboard \<Rightarrow> dashboard" where
  "set_status message d = d\<lparr>db_status := Some message\<rparr>"

fun top_refresh :: "(string + stats option \<times> machine_app_info list option) option \<Rightarrow> top \<Rightarrow> top" where
  "top_refresh None s = s"
| "top_refresh (Some (Inl e)) s = s\<lparr>tp_dashboard := set_status e (tp_dashboard s), tp_refresh_failed := True\<rparr>"
| "top_refresh (Some (Inr (st, apps))) s =
     (let d = set_stats (case st of Some st \<Rightarrow> st | None \<Rightarrow> default_stats) (tp_dashboard s);
          d = d\<lparr>db_machine_apps := (case apps of Some apps \<Rightarrow> apps | None \<Rightarrow> [])\<rparr>;
          d = (if tp_refresh_failed s then d\<lparr>db_status := None\<rparr> else d)
      in s\<lparr>tp_dashboard := d, tp_refresh_failed := False\<rparr>)"

fun stop_status :: "string \<times> (string + unit) \<Rightarrow> string" where
  "stop_status (name, Inr _) = ''stopped '' @ name"
| "stop_status (name, Inl e) = ''stopping '' @ name @ '': '' @ e"

definition top_drawn :: "turn \<Rightarrow> top \<Rightarrow> top" where
  "top_drawn t s =
     (let s = top_refresh (tn_refreshed t) s
      in s\<lparr>tp_dashboard := fold (\<lambda>stopped. set_status (stop_status stopped)) (tn_stopped t) (tp_dashboard s)\<rparr>)"

fun top_act :: "(string \<Rightarrow> string + string) \<Rightarrow> action \<Rightarrow> top \<Rightarrow> (string + unit) option \<times> top" where
  "top_act fetch No_action s = (None, s)"
| "top_act fetch Quit s = (Some (Inr ()), s)"
| "top_act fetch (Show_log name) s =
     (None, s\<lparr>tp_dashboard := (case fetch name of
                                Inr content \<Rightarrow> (tp_dashboard s)\<lparr>db_log := Some (name, content)\<rparr>
                              | Inl e \<Rightarrow> set_status e (tp_dashboard s))\<rparr>)"
| "top_act fetch (Stop_it name) s =
     (None, s\<lparr>tp_dashboard := set_status (''stopping '' @ name @ [CHR 0xE2, CHR 0x80, CHR 0xA6]) (tp_dashboard s),
              tp_stops := tp_stops s @ [name]\<rparr>)"

definition top_turn :: "turn \<Rightarrow> top \<Rightarrow> (string + unit) option \<times> top" where
  "top_turn t s =
     (let s = top_drawn t s
      in case tn_drawn t of
           Inl e \<Rightarrow> (Some (Inl (''drawing the dashboard: '' @ e)), s)
         | Inr _ \<Rightarrow>
             case tn_key t of
               Inl e \<Rightarrow> (Some (Inl (''reading the terminal: '' @ e)), s)
             | Inr None \<Rightarrow> (None, s)
             | Inr (Some k) \<Rightarrow>
                 let (a, d) = press k (tp_dashboard s) in top_act (tn_log t) a (s\<lparr>tp_dashboard := d\<rparr>))"

fun top_loop :: "turn list \<Rightarrow> top \<Rightarrow> (string + unit) option \<times> top" where
  "top_loop [] s = (None, s)"
| "top_loop (t # ts) s =
     (case top_turn t s of
        (None, s) \<Rightarrow> top_loop ts s
      | (Some r, s) \<Rightarrow> (Some r, s))"

abbreviation top_after :: "turn list \<Rightarrow> top" where
  "top_after ts \<equiv> snd (top_loop ts top_default)"

subsection \<open>The selection\<close>

lemma position_None: "position P xs = None \<longleftrightarrow> (\<forall>x \<in> set xs. \<not> P x)"
  by (induction xs) auto

lemma selected_row_None: "selected_row d = None \<longleftrightarrow> (\<forall>name. db_selected d = Some name \<longrightarrow> name \<notin> vm_name ` set (db_vms d))"
  by (cases "db_selected d") (auto simp: selected_row_def position_None)

lemma mset_sorted_vms: "mset (sorted_vms col vms) = mset vms"
  by (cases col) (simp_all add: sorted_vms_def)

lemma set_sorted_vms [simp]: "set (sorted_vms col vms) = set vms"
  using mset_sorted_vms[of col vms] mset_eq_setD by blast

definition row_selected :: "dashboard \<Rightarrow> bool" where
  "row_selected d \<longleftrightarrow> db_vms d = [] \<or> selected_row d \<noteq> None"

lemma row_selected_iff: "row_selected d \<longleftrightarrow> db_vms d = [] \<or> (\<exists>vm \<in> set (db_vms d). db_selected d = Some (vm_name vm))"
  by (cases "db_selected d") (auto simp: row_selected_def selected_row_None)

lemma row_selected_set_stats: "row_selected (set_stats s d)"
proof -
  let ?d = "sort_vms (d\<lparr>db_now := st_now s, db_node := st_node s, db_vms := st_vms s\<rparr>)"
  show ?thesis
  proof (cases "selected_row ?d = None")
    case True
    then show ?thesis by (auto simp: set_stats_def Let_def row_selected_iff split: list.split)
  next
    case False
    then show ?thesis by (auto simp: set_stats_def Let_def row_selected_def)
  qed
qed

lemma row_selected_other [simp]:
  "row_selected (d\<lparr>db_status := st\<rparr>) = row_selected d" "row_selected (d\<lparr>db_confirming_stop := c\<rparr>) = row_selected d"
  "row_selected (d\<lparr>db_log := lg\<rparr>) = row_selected d" "row_selected (d\<lparr>db_sort := col\<rparr>) = row_selected d"
  "row_selected (d\<lparr>db_machine_apps := apps\<rparr>) = row_selected d"
  by (simp_all add: row_selected_iff)

lemma row_selected_move: "row_selected d \<Longrightarrow> row_selected (move_selection down d)"
proof (cases "db_vms d = []")
  case False
  then have "\<And>r. db_vms d ! min r (length (db_vms d) - 1) \<in> set (db_vms d)" by (intro nth_mem) (cases "db_vms d", auto)
  then show ?thesis using False by (auto simp: move_selection_def Let_def row_selected_iff)
qed (simp add: move_selection_def)

lemma row_selected_sort: "row_selected (sort_vms d) = row_selected d"
  using set_sorted_vms[of "db_sort d" "db_vms d"] by (auto simp: row_selected_iff sort_vms_def simp flip: set_empty)

lemma row_selected_press: "row_selected d \<Longrightarrow> row_selected (snd (press k d))"
  by (auto simp: press_def Let_def row_selected_move row_selected_sort split: option.split)

lemma position_bound: "position P xs = Some i \<Longrightarrow> i < length xs"
  by (induction xs arbitrary: i) (auto split: if_splits)

lemma selected_row_bound: "selected_row d = Some i \<Longrightarrow> i < length (db_vms d)"
  by (auto simp: selected_row_def bind_eq_Some_conv dest: position_bound)

lemma mset_sort_vms [simp]: "mset (db_vms (sort_vms d)) = mset (db_vms d)"
  by (simp add: sort_vms_def mset_sorted_vms)

lemma mset_set_stats: "mset (db_vms (set_stats s d)) = mset (st_vms s)"
  by (simp add: set_stats_def Let_def)

lemma mset_press: "mset (db_vms (snd (press k d))) = mset (db_vms d)"
  by (auto simp: press_def Let_def move_selection_def split: option.split)

fun sort_order :: "sort_by \<Rightarrow> vm_stats \<Rightarrow> vm_stats \<Rightarrow> bool" where
  "sort_order By_cpu a b \<longleftrightarrow> latest_cpu a \<ge> latest_cpu b"
| "sort_order By_memory a b \<longleftrightarrow> latest_memory a \<ge> latest_memory b"
| "sort_order By_name a b \<longleftrightarrow> vm_name a \<le> vm_name b"

definition in_order :: "dashboard \<Rightarrow> bool" where
  "in_order d \<longleftrightarrow> sorted_wrt (sort_order (db_sort d)) (db_vms d)"

lemma in_order_sort: "in_order (sort_vms d)"
proof -
  have order: "sort_order By_cpu = (\<lambda>a b. latest_cpu b \<le> latest_cpu a)"
    "sort_order By_memory = (\<lambda>a b. uint (latest_memory b) \<le> uint (latest_memory a))"
    "sort_order By_name = (\<lambda>a b. vm_name a \<le> vm_name b)" by (simp_all add: fun_eq_iff word_le_def)
  have "sorted_wrt (sort_order col) (sorted_vms col vms)" for col vms
  proof (cases col)
    case By_cpu
    then show ?thesis using sorted_sort_key[of "\<lambda>vm. - latest_cpu vm" vms] by (simp add: sorted_vms_def sorted_map order)
  next
    case By_memory
    then show ?thesis using sorted_sort_key[of "\<lambda>vm. - uint (latest_memory vm)" vms]
      by (simp add: sorted_vms_def sorted_map order)
  next
    case By_name
    then show ?thesis using sorted_sort_key[of vm_name vms] by (simp add: sorted_vms_def sorted_map order)
  qed
  then show ?thesis by (simp add: in_order_def sort_vms_def)
qed

text \<open>What holds of the dashboard all the time.\<close>

definition dashboard_inv :: "dashboard \<Rightarrow> bool" where
  "dashboard_inv d \<longleftrightarrow> row_selected d \<and> in_order d"

lemma in_order_other [simp]:
  "in_order (d\<lparr>db_selected := x\<rparr>) = in_order d" "in_order (d\<lparr>db_status := st\<rparr>) = in_order d"
  "in_order (d\<lparr>db_log := lg\<rparr>) = in_order d" "in_order (d\<lparr>db_confirming_stop := c\<rparr>) = in_order d"
  "in_order (d\<lparr>db_machine_apps := apps\<rparr>) = in_order d"
  by (simp_all add: in_order_def)

lemma dashboard_inv_other [simp]:
  "dashboard_inv (set_status m d) = dashboard_inv d" "dashboard_inv (d\<lparr>db_status := st\<rparr>) = dashboard_inv d"
  "dashboard_inv (d\<lparr>db_log := lg\<rparr>) = dashboard_inv d" "dashboard_inv (d\<lparr>db_machine_apps := apps\<rparr>) = dashboard_inv d"
  by (simp_all add: dashboard_inv_def set_status_def)

lemma dashboard_inv_set_stats: "dashboard_inv (set_stats s d)"
  by (simp add: dashboard_inv_def row_selected_set_stats) (simp add: set_stats_def Let_def in_order_sort)

lemma dashboard_inv_press: "dashboard_inv d \<Longrightarrow> dashboard_inv (snd (press k d))"
  by (auto simp: dashboard_inv_def row_selected_press)
    (auto simp: press_def Let_def in_order_sort move_selection_def split: option.split)

lemma dashboard_inv_statuses: "dashboard_inv (fold (\<lambda>x. set_status (f x)) xs d) = dashboard_inv d"
  by (induction xs arbitrary: d) simp_all

lemma dashboard_inv_drawn: "dashboard_inv (tp_dashboard s) \<Longrightarrow> dashboard_inv (tp_dashboard (top_drawn t s))"
  by (cases "(tn_refreshed t, s)" rule: top_refresh.cases)
    (auto simp: top_drawn_def Let_def dashboard_inv_statuses dashboard_inv_set_stats)

lemma dashboard_inv_act: "dashboard_inv (tp_dashboard s) \<Longrightarrow> dashboard_inv (tp_dashboard (snd (top_act fetch a s)))"
  by (cases a) (auto split: sum.split)

lemma dashboard_inv_turn: "dashboard_inv (tp_dashboard s) \<Longrightarrow> dashboard_inv (tp_dashboard (snd (top_turn t s)))"
  using dashboard_inv_drawn[of s t]
  by (auto simp: top_turn_def Let_def split: sum.split option.split prod.split
      intro!: dashboard_inv_act) (metis dashboard_inv_press snd_conv)

lemma dashboard_inv_loop: "dashboard_inv (tp_dashboard s) \<Longrightarrow> dashboard_inv (tp_dashboard (snd (top_loop ts s)))"
proof (induction ts arbitrary: s)
  case (Cons t ts)
  then show ?case using dashboard_inv_turn[of s t] by (auto split: prod.split option.split)
qed simp

lemma dashboard_inv_after: "dashboard_inv (tp_dashboard (top_after ts))"
  by (rule dashboard_inv_loop) (simp add: top_default_def dashboard_default_def dashboard_inv_def row_selected_def in_order_def)

lemma set_status_other [simp]:
  "db_vms (set_status m d) = db_vms d" "db_confirming_stop (set_status m d) = db_confirming_stop d"
  by (simp_all add: set_status_def)

lemma statuses_other [simp]:
  "db_vms (fold (\<lambda>x. set_status (f x)) xs d) = db_vms d"
  "db_confirming_stop (fold (\<lambda>x. set_status (f x)) xs d) = db_confirming_stop d"
  by (induction xs arbitrary: d) simp_all

lemma drawn_vms:
  "mset (db_vms (tp_dashboard (top_drawn t s))) =
     (case tn_refreshed t of
        Some (Inr (Some st, _)) \<Rightarrow> mset (st_vms st)
      | Some (Inr (None, _)) \<Rightarrow> {#}
      | _ \<Rightarrow> mset (db_vms (tp_dashboard s)))"
  using mset_set_stats[of default_stats "tp_dashboard s"]
  by (cases "(tn_refreshed t, s)" rule: top_refresh.cases)
    (auto simp: top_drawn_def Let_def mset_set_stats default_stats_def split: option.split)


subsection \<open>Stopping a VM\<close>

lemma confirming_set_stats: "db_confirming_stop (set_stats s d) = db_confirming_stop d"
  by (simp add: set_stats_def Let_def sort_vms_def)

lemma selected_name_status [simp]: "selected_name (d\<lparr>db_status := st\<rparr>) = selected_name d"
  by (simp add: selected_name_def selected_row_def)

lemma press_confirms:
  assumes "db_confirming_stop (snd (press k d)) = Some n" shows "k = Char_key CHR ''k'' \<and> selected_name d = Some n"
  using assms by (auto simp: press_def Let_def sort_vms_def move_selection_def split: option.split_asm if_splits)

lemma press_stops:
  assumes "fst (press k d) = Stop_it n" shows "k = Char_key CHR ''y'' \<and> db_confirming_stop d = Some n"
  using assms by (auto simp: press_def Let_def split: option.split_asm if_splits)

lemma drawn_confirming: "db_confirming_stop (tp_dashboard (top_drawn t s)) = db_confirming_stop (tp_dashboard s)"
  by (cases "(tn_refreshed t, s)" rule: top_refresh.cases) (auto simp: top_drawn_def Let_def confirming_set_stats)

lemma drawn_stops: "tp_stops (top_drawn t s) = tp_stops s"
  by (cases "(tn_refreshed t, s)" rule: top_refresh.cases) (auto simp: top_drawn_def Let_def)

lemma turn_confirming:
  assumes "top_turn t s = (None, s')" and "db_confirming_stop (tp_dashboard s') = Some n"
  shows "tn_key t = Inr None \<and> db_confirming_stop (tp_dashboard s) = Some n \<or>
    tn_key t = Inr (Some (Char_key CHR ''k'')) \<and> selected_name (tp_dashboard (top_drawn t s)) = Some n"
proof -
  have act: "db_confirming_stop (tp_dashboard (snd (top_act fetch a s))) = db_confirming_stop (tp_dashboard s)" for fetch a s
    by (cases a) (auto split: sum.split)
  show ?thesis
  proof (cases "tn_key t")
    case (Inr k)
    show ?thesis
    proof (cases k)
      case (Some c)
      obtain a d where p: "press c (tp_dashboard (top_drawn t s)) = (a, d)" by fastforce
      have "s' = snd (top_act (tn_log t) a ((top_drawn t s)\<lparr>tp_dashboard := d\<rparr>))"
        using assms(1) Inr Some p by (auto simp: top_turn_def Let_def split: sum.split_asm)
      then have "db_confirming_stop d = Some n" using assms(2) act by simp
      then show ?thesis using press_confirms[of c "tp_dashboard (top_drawn t s)"] p Inr Some by simp
    qed (use assms Inr drawn_confirming[of t s] in \<open>auto simp: top_turn_def Let_def split: sum.split_asm\<close>)
  qed (use assms in \<open>auto simp: top_turn_def Let_def split: sum.split_asm\<close>)
qed

lemma turn_stops:
  assumes "top_turn t s = (r, s')" and "n \<in> set (tp_stops s')"
  shows "n \<in> set (tp_stops s) \<or>
    tn_key t = Inr (Some (Char_key CHR ''y'')) \<and> db_confirming_stop (tp_dashboard s) = Some n"
proof (cases "\<exists>c u. tn_key t = Inr (Some c) \<and> tn_drawn t = Inr u")
  case True
  then obtain c where c: "tn_key t = Inr (Some c)" by blast
  obtain a d where p: "press c (tp_dashboard (top_drawn t s)) = (a, d)" by fastforce
  have "s' = snd (top_act (tn_log t) a ((top_drawn t s)\<lparr>tp_dashboard := d\<rparr>))"
    using assms(1) c True p by (auto simp: top_turn_def Let_def)
  then have "n \<in> set (tp_stops s) \<or> a = Stop_it n" using assms(2) by (cases a) (auto simp: drawn_stops)
  then show ?thesis using press_stops[of c "tp_dashboard (top_drawn t s)" n] p c drawn_confirming[of t s] by auto
next
  case False
  then show ?thesis using assms
    by (auto simp: top_turn_def Let_def drawn_stops split: sum.split_asm option.split_asm)
qed

lemma top_loop_append:
  "top_loop (ts @ [t]) s = (case top_loop ts s of (None, s) \<Rightarrow> top_turn t s | (Some r, s) \<Rightarrow> (Some r, s))"
  by (induction ts arbitrary: s) (auto split: prod.split option.split)

text \<open>\<open>k\<close> was the last key of the turns, and VM \<open>n\<close> was selected on the screen it was pressed at.\<close>

definition asked_to_stop :: "turn list \<Rightarrow> string \<Rightarrow> bool" where
  "asked_to_stop ts n \<longleftrightarrow>
     (\<exists>ts1 t ts2. ts = ts1 @ t # ts2 \<and> tn_key t = Inr (Some (Char_key CHR ''k'')) \<and>
        selected_name (tp_dashboard (top_drawn t (top_after ts1))) = Some n \<and> list_all (\<lambda>t. tn_key t = Inr None) ts2)"

lemma confirming_was_asked:
  "fst (top_loop ts top_default) = None \<Longrightarrow> db_confirming_stop (tp_dashboard (top_after ts)) = Some n \<Longrightarrow> asked_to_stop ts n"
proof (induction ts rule: rev_induct)
  case (snoc t ts)
  obtain s where s: "top_loop ts top_default = (None, s)"
    using snoc.prems(1) by (cases "top_loop ts top_default") (auto simp: top_loop_append split: option.split_asm)
  have "top_turn t s = (None, top_after (ts @ [t]))"
    using snoc.prems(1) s by (cases "top_turn t s") (simp add: top_loop_append)
  from turn_confirming[OF this snoc.prems(2)] show ?case
  proof
    assume now: "tn_key t = Inr None \<and> db_confirming_stop (tp_dashboard s) = Some n"
    then obtain ts1 t1 ts2 where "ts = ts1 @ t1 # ts2" "tn_key t1 = Inr (Some (Char_key CHR ''k''))"
      "selected_name (tp_dashboard (top_drawn t1 (top_after ts1))) = Some n" "list_all (\<lambda>t. tn_key t = Inr None) ts2"
      using snoc.IH s by (auto simp: asked_to_stop_def)
    then show ?thesis unfolding asked_to_stop_def
      using now by (intro exI[of _ ts1] exI[of _ t1] exI[of _ "ts2 @ [t]"]) simp
  next
    assume "tn_key t = Inr (Some (Char_key CHR ''k'')) \<and> selected_name (tp_dashboard (top_drawn t s)) = Some n"
    then show ?thesis unfolding asked_to_stop_def
      using s by (intro exI[of _ ts] exI[of _ t] exI[of _ "[]"]) simp
  qed
qed (simp add: top_default_def dashboard_default_def)

text \<open>C30: \<open>cirro top\<close> stops a VM only when it was asked to: the key that stopped it was \<open>y\<close>, the key before that was \<open>k\<close>, and
  the VM stopped is the one that was selected on the screen \<open>k\<close> was pressed at, even if the table was refreshed or
  that VM ended between the two.\<close>

theorem stop_needs_confirmation:
  assumes "n \<in> set (tp_stops (top_after ts))"
  shows "\<exists>ts1 t ts2. ts = ts1 @ t # ts2 \<and> tn_key t = Inr (Some (Char_key CHR ''y'')) \<and> asked_to_stop ts1 n"
  using assms
proof (induction ts rule: rev_induct)
  case (snoc t ts)
  have keep: ?case if "n \<in> set (tp_stops (top_after ts))"
  proof -
    from snoc.IH[OF that] obtain ts1 t' ts2 where "ts = ts1 @ t' # ts2"
      "tn_key t' = Inr (Some (Char_key CHR ''y''))" "asked_to_stop ts1 n" by blast
    then show ?thesis by (intro exI[of _ ts1] exI[of _ t'] exI[of _ "ts2 @ [t]"]) simp
  qed
  show ?case
  proof (cases "top_loop ts top_default")
    case (Pair r s)
    show ?thesis
    proof (cases r)
      case None
      obtain r' s' where turn: "top_turn t s = (r', s')" by fastforce
      then have "n \<in> set (tp_stops s')" using snoc.prems Pair None by (simp add: top_loop_append)
      from turn_stops[OF turn this] show ?thesis
      proof
        assume "n \<in> set (tp_stops s)"
        then show ?thesis using keep Pair by simp
      next
        assume "tn_key t = Inr (Some (Char_key CHR ''y'')) \<and> db_confirming_stop (tp_dashboard s) = Some n"
        then show ?thesis using confirming_was_asked[of ts n] Pair None
          by (intro exI[of _ ts] exI[of _ t] exI[of _ "[]"]) simp
      qed
    qed (use keep snoc.prems Pair in \<open>simp add: top_loop_append\<close>)
  qed
qed (simp add: top_default_def)

definition demo_turn :: "stats option \<Rightarrow> char \<Rightarrow> turn" where
  "demo_turn st c =
     \<lparr>tn_refreshed = map_option (\<lambda>st. Inr (Some st, None)) st, tn_stopped = [], tn_drawn = Inr (), tn_key = Inr (Some (Char_key c)),
      tn_log = (\<lambda>_. Inr [])\<rparr>"

definition demo_turns :: "turn list" where
  "demo_turns =
     [demo_turn (Some (stats_of 0 demo_running recorder_default)) CHR ''k'', demo_turn (Some default_stats) CHR ''y'']"

theorem stop_needs_confirmation_witness:
  "tp_stops (top_after demo_turns) = [''a''] \<and>
   (\<exists>ts1 t ts2. demo_turns = ts1 @ t # ts2 \<and> tn_key t = Inr (Some (Char_key CHR ''y'')) \<and> asked_to_stop ts1 ''a'')"
proof -
  have stops: "tp_stops (top_after demo_turns) = [''a'']" by code_simp
  then show ?thesis using stop_needs_confirmation[of "''a''" demo_turns] by simp
qed

end
