(* ===== verification/Spec2Isabelle.thy ===== *)
theory Spec2Isabelle
  imports
    Guest
    Cache
    Vm_Hosts
    Vm_Supervise
    Vm_Limits
    Service
    Certs
    Endpoint
    Cli
    Dashboard
begin

text \<open>
  Cirrocumulus runs Apps as Firecracker microVMs on one computer, a Node. The Node agent (\<open>cirro-node\<close>) answers the
  \<open>cirro\<close> command line over a Unix socket, starts, parks, wakes and ends VMs, keeps a record of them in a SQLite
  database, and keeps SSH tunnels to Machines, other computers whose Apps it also serves. Its edge (\<open>cirro-edge\<close>)
  takes HTTP and HTTPS requests and passes each to the App its hostname names. \<open>guest-init\<close> is process 1 in every
  guest, \<open>cirro-image\<close> turns container images into root file systems, and \<open>cirro-tui\<close> is \<open>cirro top\<close>. The theories
  below model these programs, function by function, and prove what makes them correct.

  \<^bold>\<open>Conventions.\<close> Rust's \<open>str\<close> and byte strings are \<open>string\<close>; \<open>u8\<close> to \<open>u64\<close> are words of that width; \<open>Result\<close> is a sum
  with the error on the left (\<open>bindr\<close> is \<open>?\<close>), and every early return is a branch of the model. A \<open>BTreeMap\<close> is a
  sorted association list (\<open>Ordered_Map\<close>, whose laws are a locale). What is not in the repository, such as the
  kernel, Firecracker, jailer, \<open>ip\<close>, \<open>nft\<close>, \<open>ssh\<close>, SQLite's failures, TLS and ACME libraries or a registry, is an
  argument: a record of functions or the list of answers a run meets, over which the theorems quantify.

  \<^bold>\<open>Theories and sources.\<close> All paths are below \<open>src/crates\<close>.
  \<^item> \<open>Prelude\<close>, \<open>Ordered_Map\<close>, \<open>Effects\<close>: results, the standard library's string functions, numerals with a locale of
    printers and parsers that read back, ordered maps, operations with state and errors.
  \<^item> \<open>Proto\<close> (\<open>cirro-proto/src/lib.rs\<close>), \<open>Subnet\<close> (\<open>cirro-node/src/subnet.rs\<close>, \<open>host_id\<close> of \<open>vm.rs\<close>), \<open>Store\<close>
    (\<open>cirro-node/src/state.rs\<close>, every SQL statement), \<open>Api\<close> (the checks of \<open>agent.rs\<close>), \<open>Endpoint\<close> (\<open>Agent::handle\<close>
    and the paths the CLI asks for).
  \<^item> \<open>Registry\<close>, \<open>Machines\<close>, \<open>Restart\<close>, \<open>Routing\<close> (\<open>agent.rs\<close>, \<open>agent/machine.rs\<close>): the state \<open>agent\<close> and one definition
    per section that runs under a lock, \<open>reconcile\<close>, and the edge's \<open>resolve\<close>. \<open>Lifecycle\<close> composes the sections into
    \<open>agent_step\<close>, any interleaving of requests, starts, wakes, parks, ends and shutdown; \<open>Service\<close> closes it under
    restarts as \<open>reachable\<close>.
  \<^item> \<open>Vm\<close>, \<open>Vm_Start\<close>, \<open>Vm_Park\<close>, \<open>Vm_Supervise\<close>, \<open>Vm_Limits\<close> (\<open>vm.rs\<close>): what a VM is on the Node, a
    record \<open>host\<close> of namespaces, links, directories, files, cgroups and processes, and \<open>Vm::start\<close>, \<open>wake\<close>, \<open>park\<close>,
    \<open>supervise\<close>, \<open>teardown\<close> and \<open>clean_up\<close> on it. Every call that can fail fails where the record \<open>outside\<close> says.
  \<^item> \<open>Metrics\<close> (\<open>metrics.rs\<close>, \<open>Agent::sample\<close>, \<open>Agent::stats\<close>), \<open>Edge\<close> (\<open>cirro-edge/src/lib.rs\<close>), \<open>Certs\<close> (\<open>fs.rs\<close>,
    \<open>tls.rs\<close>, \<open>acme.rs\<close>).
  \<^item> \<open>Launch\<close> (\<open>cirro-image/src/run_config.rs\<close>, \<open>guest-init/src/launch.rs\<close>), \<open>Guest\<close> (\<open>guest-init/src/main.rs\<close>: the
    signal handler and the reap loop as \<open>guest_step\<close>), \<open>Image\<close> (\<open>cirro-image/src/lib.rs\<close>), \<open>Cache\<close>
    (\<open>cirro-image/src/cache.rs\<close> and \<open>build_ext4\<close>).
  \<^item> \<open>Cli\<close> (values and the request of \<open>cirro run\<close>) and \<open>Dashboard\<close> (\<open>cirro-tui/src/dashboard.rs\<close> and \<open>top_loop\<close>).

  \<^bold>\<open>What the lemmas show.\<close>
  \<^item> Of every reachable agent: VMs never share an address (\<open>Registry\<close>, \<open>Lifecycle\<close>), a running VM is on record
    (\<open>Recording\<close>), names and, with one exception that is shown, hostnames have one owner (\<open>Sharing\<close>), parks and
    requests in flight exclude each other (\<open>Claims\<close>), exactly the host objects of VMs exist (\<open>Hosts\<close>), a restart takes
    back what is on record (\<open>Restart\<close>), and failed starts, wakes and Machine operations undo themselves.
  \<^item> Of one VM: a start or wake that fails at any step leaves the Node as it was (\<open>Vm_Undone\<close>, \<open>Vm_Park\<close>), parking and
    waking give the same state, memory and disk back, the supervisor answers everyone, and \<open>Vm_Hosts\<close> shows that this
    detailed model refines what the agent's model says of host objects.
  \<^item> Of the edge: which App a request reaches and with which headers, which certificate a client is shown, that the CA
    is made once whatever write fails, and that there is one ACME order per hostname at a time.
  \<^item> Of images and guests: layers follow the OCI rules, the tar's order lets it be extracted, an image in the cache is
    whole whatever write failed, a pull moves one reference and a removal takes one image, a command the agent
    accepts runs, a shutdown request reaches the application and the guest ends.
  \<^item> Of the tools: what the CLI asks for reaches its handler, whole logs are printed, sizes read back, the dashboard
    acts on what it shows.

  \<^bold>\<open>Bounds and fuel.\<close> Waits that poll are bounded by what the code sleeps: \<open>API_SOCKET_POLLS\<close> (10000 polls of a
  millisecond), \<open>CONFIG_TRIES\<close> (100 of 100 ms), \<open>CGROUP_POLL_ATTEMPTS\<close> (100); \<open>HISTORY\<close> is 60. Loops that wait for
  events (\<open>resolve_loop\<close>, \<open>run_tunnel\<close>, \<open>run_until_ended\<close>, \<open>cli_logs\<close>, \<open>connect_upstream\<close>, \<open>top_loop\<close>) consume the list
  of what they meet, and \<open>None\<close> says that the list ended before they did; theorems that such a loop returns say how long
  a list is enough.

  \<^bold>\<open>Not modelled.\<close> The coding of JSON bodies (serde) and HTTP framing (hyper); what Firecracker, jailer, \<open>nft\<close> and
  systemd do, and so the wire format of Firecracker's API (\<open>firecracker.rs\<close>), the text of the egress rules
  (\<open>egress.rs\<close>), the standalone \<open>jailer.rs\<close> and downloading a release (\<open>release.rs\<close>); installation (\<open>install.rs\<close>);
  passing descriptors between processes (\<open>rootfs_open.rs\<close>, \<open>open_rootfs.rs\<close>); a registry's protocol, pulls that run
  at the same time, gzip, the tar format and \<open>mke2fs\<close>; mounting and the vsock listener in the guest; what is
  printed or drawn. Weak memory is left out: the agent's and the guest's atomics are sequentially consistent or
  held under a lock, and the one relaxed counter, of \<open>unique\<close>, only makes names.
\<close>

text \<open>On one Node the name of a VM's host objects and the VM's address determine each other: reading
  the owner back from the name \<open>host_id\<close> gives is the address itself, for every address the subnet
  hands out.\<close>

theorem host_name_determines_address:
  assumes "subnet_ok s" and "a \<in> set (vm_addresses s)"
  shows "Option.bind (parse_host_id (host_id a)) (vm_address_with_low16 s) = Some a"
  using host_owner_host_id[OF assms] by (simp add: host_owner_def)

theorem host_name_determines_address_witness:
  "Option.bind (parse_host_id (host_id 0x0A4DFA02)) (vm_address_with_low16 \<lparr>network = 0x0A4D0000, prefix_len = 16\<rparr>)
   = Some 0x0A4DFA02"
  by (rule host_name_determines_address)
    (simp_all add: subnet_eval)

section \<open>The state database\<close>

text \<open>C34: a VM recorded as running is read back as it was recorded, by the next \<open>load\<close>, and no other record
  changes; times past the signed range of the database are cut off at it.\<close>

theorem running_record_reads_back:
  assumes "store_wf st" and "insert_running None info lg p st = (r, st')"
  shows "\<exists>rs rs'. load None st = Inr rs \<and> load None st' = Inr rs' \<and>
    set rs' = insert (running_record info lg p) {x \<in> set rs. rec_name x \<noteq> vi_name info}"
proof -
  have wf': "store_wf st'" using store_wf_vm_statements(1)[OF assms(1)] assms(2) by (metis snd_conv)
  have v: "store_view st' = (store_view st)(vi_name info \<mapsto> running_record info lg p)"
    using vm_db.put_ok[OF assms] by simp
  have "x \<in> set (records_of st') \<longleftrightarrow>
      x = running_record info lg p \<or> x \<in> set (records_of st) \<and> rec_name x \<noteq> vi_name info" for x
    using store_view_name[of st' "vi_name info" "running_record info lg p"]
    by (auto simp: in_records_of[OF wf'] in_records_of[OF assms(1)] v)
  then have "set (records_of st') = insert (running_record info lg p) {x \<in> set (records_of st). rec_name x \<noteq> vi_name info}"
    by blast
  then show ?thesis
    using load_view[OF assms(1)] load_view[OF wf'] unfolding records_of_def by blast
qed

theorem running_record_reads_back_witness:
  "\<exists>rs rs'. load None (empty_store demo_subnet) = Inr rs \<and>
    load None (snd (insert_running None (demo_info ''a'' 0x0A4D0002 None) ''l'' demo_process (empty_store demo_subnet))) = Inr rs' \<and>
    set rs' = insert (running_record (demo_info ''a'' 0x0A4D0002 None) ''l'' demo_process)
      {x \<in> set rs. rec_name x \<noteq> vi_name (demo_info ''a'' 0x0A4D0002 None)}"
  by (rule running_record_reads_back[OF empty_store_wf(1) prod.collapse[symmetric]])

text \<open>A state directory made for another subnet is refused, naming both, and what it holds stays as it
  is; one made for this subnet opens.\<close>

theorem other_subnet_refused:
  assumes "node_table st = stored # rest" and "set ADDED \<subseteq> set (vms_columns st)"
  shows "store_open None None None None (Some st) subnet =
    (if stored = subnet then Inr () else Inl (WrongSubnet stored subnet), st)"
proof -
  have "add_missing_columns None st = (Inr (), st)"
    using assms(2) by (auto simp: add_missing_columns_def db_exec_def Let_def filter_empty_conv)
  then show ?thesis using assms(1) by (simp add: store_open_def)
qed

theorem other_subnet_refused_witness:
  "store_open None None None None (Some (empty_store demo_subnet)) ''10.9.0.0/16'' =
    (if ''10.77.0.0/28'' = ''10.9.0.0/16'' then Inr () else Inl (WrongSubnet ''10.77.0.0/28'' ''10.9.0.0/16''),
     empty_store demo_subnet)"
proof (rule other_subnet_refused[where rest = "[]"])
  have "subnet_text demo_subnet = ''10.77.0.0/28''" by code_simp
  then show "node_table (empty_store demo_subnet) = [''10.77.0.0/28'']" by (simp add: empty_store_def)
  show "set ADDED \<subseteq> set (vms_columns (empty_store demo_subnet))"
    by (auto simp: empty_store_def fresh_store_def vms_schema_def)
qed

text \<open>A subnet that is accepted prints as text that reads back as itself, and the addresses it hands
  out are all but the network's, the Node's and the broadcast address.\<close>

theorem subnet_reads_back:
  assumes "subnet_from_str t = Inr s"
  shows "subnet_from_str (subnet_text s) = Inr s \<and> length (vm_addresses s) = 2 ^ host_bits s - 3 \<and>
    network s \<notin> set (vm_addresses s) \<and> node_address s \<notin> set (vm_addresses s) \<and> broadcast s \<notin> set (vm_addresses s)"
proof -
  have ok: "subnet_ok s" using assms by (rule subnet_from_str_ok)
  show ?thesis using subnet_from_str_text[OF ok] length_vm_addresses[OF ok] reserved_addresses[OF ok] by simp
qed

theorem subnet_reads_back_witness:
  "subnet_from_str (subnet_text demo_subnet) = Inr demo_subnet \<and>
    length (vm_addresses demo_subnet) = 2 ^ host_bits demo_subnet - 3 \<and>
    network demo_subnet \<notin> set (vm_addresses demo_subnet) \<and> node_address demo_subnet \<notin> set (vm_addresses demo_subnet) \<and>
    broadcast demo_subnet \<notin> set (vm_addresses demo_subnet)"
  by (rule subnet_reads_back[where t = "subnet_text demo_subnet"]) (rule subnet_from_str_text[OF demo_subnet_ok])

section \<open>Console logs\<close>

lemma word_less_Suc_not_max:
  fixes w :: "'a::len word"
  assumes "w \<noteq> - 1"
  shows "w < w + 1"
proof -
  have "w < - 1" using assms by (simp add: order.not_eq_order_implies_strict)
  then show ?thesis using unat_Suc_below[of w "- 1"] by (simp add: word_less_nat_alt)
qed

lemma next_log_number_above:
  assumes "f \<in> set files" and "log_number f = Some n" and "\<forall>f \<in> set files. log_number f \<noteq> Some (- 1)"
  shows "n < next_log_number files"
proof -
  let ?ns = "List.map_filter log_number files"
  have n: "n \<in> set ?ns" using assms(1,2) by (auto simp: set_map_filter)
  then obtain m ms where l: "?ns = m # ms" by (cases ?ns) auto
  have "fold max ms m = Max (set (m # ms))" by (simp add: Max.set_eq_fold[symmetric])
  then have "fold max ms m \<in> set ?ns" unfolding l using Max_in[of "set (m # ms)"] by simp
  then have "fold max ms m \<noteq> - 1" using assms(3) by (auto simp: set_map_filter)
  then have "fold max ms m < fold max ms m + 1" by (simp add: word_less_Suc_not_max)
  moreover have "n \<le> fold max ms m" using n unfolding l by (rule fold_max_ge)
  ultimately show ?thesis by (simp add: next_log_number_def l)
qed

text \<open>The first console log of an agent has a name no file in the logs directory has, whatever an
  earlier agent and its VMs left there, unless a file already carries the highest number there is.\<close>

theorem first_log_is_new:
  assumes "\<forall>f \<in> set files. log_number f \<noteq> Some (- 1)"
  shows "log_file_name name (next_log_number files) \<notin> set files"
proof
  assume "log_file_name name (next_log_number files) \<in> set files"
  from next_log_number_above[OF this log_number_log_file_name assms] show False by simp
qed

theorem first_log_is_new_witness:
  "log_file_name ''web'' (next_log_number [''web.0.log'', ''db.7.log'', ''notes'']) \<notin> set [''web.0.log'', ''db.7.log'', ''notes'']"
proof (rule first_log_is_new)
  have "log_file_name ''web'' 0 = ''web.0.log''" "log_file_name ''db'' 7 = ''db.7.log''" by code_simp+
  then have "log_number ''web.0.log'' = Some 0" "log_number ''db.7.log'' = Some 7"
    using log_number_log_file_name by metis+
  moreover have "log_number ''notes'' = None" by (simp add: log_number_def text_defs)
  ultimately show "\<forall>f \<in> set [''web.0.log'', ''db.7.log'', ''notes'']. log_number f \<noteq> Some (- 1)" by simp
qed

section \<open>Machines\<close>

text \<open>An SSH target that is accepted prints as text that reads back as the same user, host and port.\<close>

theorem ssh_target_reads_back:
  assumes "target_parse s = Inr t"
  shows "target_parse (target_text t) = Inr t"
  using target_parse_text[OF target_parse_ok[OF assms]] .

theorem ssh_target_reads_back_witness:
  "target_parse (target_text \<lparr>tgt_user = ''me'', tgt_host = ''box.lan'', tgt_port = 22\<rparr>) =
   Inr \<lparr>tgt_user = ''me'', tgt_host = ''box.lan'', tgt_port = 22\<rparr>"
  by (rule ssh_target_reads_back[where s = "''me@box.lan''"]) code_simp

text \<open>C35: a Machine is added only under a free name, after logging in to it, and the key pinned for it is
  one it presented whose fingerprint is the one asked for; the record written is the Machine's.\<close>

theorem added_machine_is_pinned:
  assumes "machines_wf ms" and "machine_add out add ms st = (Inr u, ms', st')"
  shows "map_of (ms_entries ms) (am_name add) = None \<and> ao_login out = None \<and>
    (\<exists>m keys t. map_of (ms_entries ms') (am_name add) = Some m \<and> target_parse (am_ssh add) = Inr t \<and>
       host_keys out t = Inr keys \<and> mr_pinned_key (m_record m) \<in> set keys \<and>
       ao_fingerprint out (mr_pinned_key (m_record m)) = Inr (am_host_key add) \<and>
       insert_machine None (m_record m) st = (Inr (), st'))"
  using machine_add_success[OF assms] by blast

theorem added_machine_is_pinned_witness:
  "map_of (ms_entries no_machines) (am_name demo_add) = None \<and> ao_login demo_machine_outside = None \<and>
    (\<exists>m keys t. map_of (ms_entries (fst (snd (machine_add demo_machine_outside demo_add no_machines fresh_store)))) (am_name demo_add) = Some m \<and>
       target_parse (am_ssh demo_add) = Inr t \<and>
       host_keys demo_machine_outside t = Inr keys \<and> mr_pinned_key (m_record m) \<in> set keys \<and>
       ao_fingerprint demo_machine_outside (mr_pinned_key (m_record m)) = Inr (am_host_key demo_add) \<and>
       insert_machine None (m_record m) fresh_store =
         (Inr (), snd (snd (machine_add demo_machine_outside demo_add no_machines fresh_store))))"
proof (rule added_machine_is_pinned[OF no_machines_wf(1)])
  have "fst (machine_add demo_machine_outside demo_add no_machines fresh_store) = Inr ()" by code_simp
  then show "machine_add demo_machine_outside demo_add no_machines fresh_store =
      (Inr (), fst (snd (machine_add demo_machine_outside demo_add no_machines fresh_store)),
       snd (snd (machine_add demo_machine_outside demo_add no_machines fresh_store)))"
    by (simp add: prod_eq_iff)
qed

text \<open>Between two runs of a Machine's \<open>ssh\<close> there is at least a second and at most half a minute, the
  wait doubling from a second while it can't log in; after the Machine presented another host key
  \<open>ssh\<close> never runs again and the Machine stays unreachable.\<close>

theorem tunnel_backs_off:
  "(\<forall>t \<in> set (fst (run_tunnel runs RETRY_FIRST l)). 1 \<le> t \<and> t \<le> RETRY_MAX) \<and>
   ((\<forall>said \<in> set runs. \<forall>l. \<not> logged_in (fst (run_ssh said l)) \<and> \<not> key_changed (fst (run_ssh said l))) \<longrightarrow>
      fst (run_tunnel runs RETRY_FIRST l) = map (\<lambda>i. min (2 ^ i) RETRY_MAX) [0..<length runs]) \<and>
   (key_changed (fst (run_ssh said l)) \<longrightarrow>
      fst (run_tunnel (said # runs) wait l) = [] \<and> link_status (snd (run_tunnel (said # runs) wait l)) = Unreachable \<and>
      host_key_changed (snd (run_tunnel (said # runs) wait l)))"
proof (intro conjI impI)
  show "\<forall>t \<in> set (fst (run_tunnel runs RETRY_FIRST l)). 1 \<le> t \<and> t \<le> RETRY_MAX"
    using run_tunnel_sleeps[of RETRY_FIRST] by (auto simp: RETRY_FIRST_def RETRY_MAX_def)
  show "fst (run_tunnel runs RETRY_FIRST l) = map (\<lambda>i. min (2 ^ i) RETRY_MAX) [0..<length runs]"
    if "\<forall>said \<in> set runs. \<forall>l. \<not> logged_in (fst (run_ssh said l)) \<and> \<not> key_changed (fst (run_ssh said l))"
    using run_tunnel_doubles[OF that, of RETRY_FIRST 0 l] by (simp add: RETRY_FIRST_def RETRY_MAX_def)
qed (simp_all add: run_tunnel_key_changed del: run_tunnel.simps)

theorem tunnel_backs_off_witness:
  "fst (run_tunnel [Inl ''gone'', Inl ''gone'', Inl ''gone''] RETRY_FIRST fresh_link) = map (\<lambda>i. min (2 ^ i) RETRY_MAX) [0..<3] \<and>
   fst (run_tunnel [Inr [HOST_KEY_FAILED], Inl ''gone''] RETRY_FIRST fresh_link) = [] \<and>
   link_status (snd (run_tunnel [Inr [HOST_KEY_FAILED], Inl ''gone''] RETRY_FIRST fresh_link)) = Unreachable"
proof -
  have changed: "key_changed (fst (run_ssh (Inr [HOST_KEY_FAILED]) fresh_link))"
    by (simp add: run_ssh_def HOST_KEY_FAILED_def starts_with_def)
  have fails: "\<forall>said \<in> set [Inl ''gone'', Inl ''gone'', Inl ''gone'']. \<forall>l.
      \<not> logged_in (fst (run_ssh said l)) \<and> \<not> key_changed (fst (run_ssh said l))"
    by (simp add: run_ssh_def)
  have "length [Inl ''gone'', Inl ''gone'', Inl ''gone''] = 3" by simp
  then show ?thesis
    using tunnel_backs_off[of "[Inl ''gone'', Inl ''gone'', Inl ''gone'']" fresh_link] fails changed
      tunnel_backs_off[where runs = "[Inl ''gone'']" and l = fresh_link and said = "Inr [HOST_KEY_FAILED]" and wait = RETRY_FIRST]
    by metis
qed

text \<open>Making a Machine-backed App either adds exactly that App, under a name and hostname no other
  Machine-backed App has, and records it, or fails and leaves the Apps and the database as they were.\<close>

theorem machine_app_all_or_nothing:
  assumes "machines_wf ms" and "add_app ports ports' fault req ms st = (r, ms', st')"
  shows "case r of
      Inl _ \<Rightarrow> mset (all_apps ms') = mset (all_apps ms) \<and> st' = st
    | Inr _ \<Rightarrow>
        mset (all_apps ms') = add_mset (mar_name req, mar_machine req, mar_route req) (mset (all_apps ms)) \<and>
        mar_name req \<notin> fst ` set (all_apps ms) \<and> route_host (mar_route req) \<notin> set (app_hosts ms) \<and>
        map_of (machine_apps_table st') (mar_name req) \<noteq> None"
proof (cases r)
  case (Inl e)
  then show ?thesis using add_app_failure(2,3)[OF assms(1) assms(2)[unfolded Inl]] by simp
next
  case (Inr info)
  note ok = add_app_success(2-5)[OF assms(1) assms(2)[unfolded Inr]]
  have "map_of (machine_apps_table st') (mar_name req) \<noteq> None"
    using ok(2) by (auto simp: insert_machine_app_def db_exec_def split: if_splits option.splits)
  then show ?thesis using ok Inr by simp
qed

theorem machine_app_all_or_nothing_witness:
  "case fst (add_app (Inr [9000]) (Inr []) None demo_app (ag_machines demo_machine) (ag_store demo_machine)) of
      Inl _ \<Rightarrow>
        mset (all_apps (fst (snd (add_app (Inr [9000]) (Inr []) None demo_app (ag_machines demo_machine) (ag_store demo_machine))))) =
          mset (all_apps (ag_machines demo_machine)) \<and>
        snd (snd (add_app (Inr [9000]) (Inr []) None demo_app (ag_machines demo_machine) (ag_store demo_machine))) = ag_store demo_machine
    | Inr _ \<Rightarrow>
        mset (all_apps (fst (snd (add_app (Inr [9000]) (Inr []) None demo_app (ag_machines demo_machine) (ag_store demo_machine))))) =
          add_mset (mar_name demo_app, mar_machine demo_app, mar_route demo_app) (mset (all_apps (ag_machines demo_machine))) \<and>
        mar_name demo_app \<notin> fst ` set (all_apps (ag_machines demo_machine)) \<and>
        route_host (mar_route demo_app) \<notin> set (app_hosts (ag_machines demo_machine)) \<and>
        map_of (machine_apps_table (snd (snd (add_app (Inr [9000]) (Inr []) None demo_app (ag_machines demo_machine) (ag_store demo_machine)))))
          (mar_name demo_app) \<noteq> None"
proof (rule machine_app_all_or_nothing)
  show "machines_wf (ag_machines demo_machine)"
  proof -
    have "fst (machine_add demo_machine_outside demo_add (ag_machines demo_fresh) (ag_store demo_fresh)) = Inr ()" by code_simp
    moreover have "ag_machines demo_fresh = no_machines" by (simp add: demo_fresh_def fresh_agent_def agent_new_def)
    ultimately show ?thesis
      using machine_add_success(1)[OF no_machines_wf(1)]
      by (cases "machine_add demo_machine_outside demo_add (ag_machines demo_fresh) (ag_store demo_fresh)") (auto simp: demo_machine_def)
  qed
qed (simp add: prod_eq_iff)

text \<open>A Machine whose connection can't be set up after it was recorded is refused but stays on record:
  it isn't listed, and adding it again is refused as well, because its record can't be written twice.\<close>

theorem failed_connect_leaves_record:
  "case machine_add (demo_machine_outside\<lparr>ao_connect_fault := Some ''disk full''\<rparr>) demo_add no_machines fresh_store of
     (r, ms, st) \<Rightarrow>
       r = Inl (internal (About_Machine (SshTrouble ''disk full''))) \<and> map_of (ms_entries ms) ''m'' = None \<and>
       map fst (machines_table st) = [''m''] \<and>
       fst (machine_add demo_machine_outside demo_add ms st) = Inl (internal (About_Machine (NotRecorded ''m'')))"
  by code_simp

section \<open>What a guest runs\<close>

text \<open>Merging overrides into an image's environment leaves every key once, the image's keys first, and
  what \<open>getenv\<close> finds for a key is the last override for it, or the image's entry.\<close>

theorem merged_environment:
  assumes "distinct (map env_key env)"
  shows "distinct (map env_key (merge_env env overrides)) \<and>
    (\<exists>added. map env_key (merge_env env overrides) = map env_key env @ added) \<and>
    getenv (merge_env env overrides) k = (case getenv (rev overrides) k of Some e \<Rightarrow> Some e | None \<Rightarrow> getenv env k)"
  using distinct_merge_env[OF assms] merge_env_keys_prefix getenv_merge_env by blast

theorem merged_environment_witness:
  "distinct (map env_key (merge_env [''A=1'', ''B=2''] [''B=3'', ''C=4''])) \<and>
    (\<exists>added. map env_key (merge_env [''A=1'', ''B=2''] [''B=3'', ''C=4'']) = map env_key [''A=1'', ''B=2''] @ added) \<and>
    getenv (merge_env [''A=1'', ''B=2''] [''B=3'', ''C=4'']) ''B'' =
      (case getenv (rev [''B=3'', ''C=4'']) ''B'' of Some e \<Rightarrow> Some e | None \<Rightarrow> getenv [''A=1'', ''B=2''] ''B'')"
  by (rule merged_environment) (simp add: env_key_def)

end
